(* ===== verification/Prelude.thy ===== *)
theory Prelude
  imports Main "HOL-Library.Word"
begin

text \<open>
  The vocabulary every component of the development shares.

  \<^item> \<open>StatusCode\<close> is the enumeration of \<^verbatim>\<open>include/common/status.h\<close>. A C++ function that returns
    a \<^verbatim>\<open>Status\<close> and fills an out-parameter is a function into \<open>'a result\<close>: \<open>Inl code\<close> for
    \<^verbatim>\<open>Status::Error(code, ...)\<close> and \<open>Inr x\<close> for \<^verbatim>\<open>Status::Ok()\<close> with the out-parameter \<open>x\<close>. The
    message texts are not part of the model. Null out-parameters do not exist in the model,
    so the null-pointer guards have no counterpart.
  \<^item> A method that changes its object is a state transformer \<open>('s, 'a) stm\<close>, which returns the
    state on the error branches as well: what a failing method has already changed stays changed.
  \<^item> \<open>bindR\<close> and \<open>bindS\<close> are the early-return idiom \<^verbatim>\<open>if (!status.ok()) return status;\<close>.
  \<^item> Sizes and unsigned 64-bit counters are \<open>nat\<close>, with the reduction modulo \<open>2 ^ 64\<close> written out
    where the code computes with them; signed 64-bit values are \<open>int\<close>.

  The lemma collections: \<open>exec_simps\<close> unfolds the combinators on a known result,
  \<open>exec_iffs\<close> characterises a successful run of a combined operation.
\<close>

named_theorems exec_simps \<open>running a combined operation on known results\<close>
named_theorems exec_iffs \<open>successful runs of a combined operation\<close>

subsection \<open>Status codes and results\<close>

datatype StatusCode =
    kOk | kInvalidArgument | kNotFound | kAlreadyExists | kConstraintViolation | kIoError
  | kParseError | kBindError | kPlanError | kExecutionError | kTransactionError
  | kNetworkError | kUnauthorized | kInternalError

type_synonym byte = "8 word"
type_synonym bytes = "byte list"
type_synonym 'a result = "StatusCode + 'a"
type_synonym ('s, 'a) stm = "'s \<Rightarrow> 'a result \<times> 's"

definition bindR :: "'e + 'a \<Rightarrow> ('a \<Rightarrow> 'e + 'b) \<Rightarrow> 'e + 'b" where
  "bindR r f = (case r of Inl e \<Rightarrow> Inl e | Inr x \<Rightarrow> f x)"

definition bindS :: "('s, 'a) stm \<Rightarrow> ('a \<Rightarrow> ('s, 'b) stm) \<Rightarrow> ('s, 'b) stm" where
  "bindS m f s = (case m s of (Inl e, s') \<Rightarrow> (Inl e, s') | (Inr x, s') \<Rightarrow> f x s')"

definition ret :: "'a \<Rightarrow> ('s, 'a) stm" where
  "ret x s = (Inr x, s)"

definition throw :: "StatusCode \<Rightarrow> ('s, 'a) stm" where
  "throw e s = (Inl e, s)"

definition liftR :: "'a result \<Rightarrow> ('s, 'a) stm" where
  "liftR r s = (r, s)"

definition gets :: "('s \<Rightarrow> 'a) \<Rightarrow> ('s, 'a) stm" where
  "gets f s = (Inr (f s), s)"

definition modify :: "('s \<Rightarrow> 's) \<Rightarrow> ('s, unit) stm" where
  "modify f s = (Inr (), f s)"

text \<open>\<open>guardS b e\<close> is the early return \<^verbatim>\<open>if (!b) return Status::Error(e, ...);\<close>.\<close>

definition guardS :: "bool \<Rightarrow> StatusCode \<Rightarrow> ('s, unit) stm" where
  "guardS b e s = (if b then Inr () else Inl e, s)"

definition guardR :: "bool \<Rightarrow> StatusCode \<Rightarrow> unit result" where
  "guardR b e = (if b then Inr () else Inl e)"

text \<open>A member object's method, run inside the object that owns it.\<close>

definition zoom :: "('s \<Rightarrow> 't) \<Rightarrow> ('t \<Rightarrow> 's \<Rightarrow> 's) \<Rightarrow> ('t, 'a) stm \<Rightarrow> ('s, 'a) stm" where
  "zoom sel upd m s = (case m (sel s) of (r, t) \<Rightarrow> (r, upd t s))"

text \<open>A for-loop over a sequence whose body may return early.\<close>

primrec forS :: "'a list \<Rightarrow> ('a \<Rightarrow> ('s, unit) stm) \<Rightarrow> ('s, unit) stm" where
  "forS [] f = ret ()"
| "forS (x # xs) f = bindS (f x) (\<lambda>_. forS xs f)"

text \<open>A loop that collects one result per element.\<close>

primrec mapS :: "('a \<Rightarrow> ('s, 'b) stm) \<Rightarrow> 'a list \<Rightarrow> ('s, 'b list) stm" where
  "mapS f [] = ret []"
| "mapS f (x # xs) = bindS (f x) (\<lambda>y. bindS (mapS f xs) (\<lambda>ys. ret (y # ys)))"

subsection \<open>Laws of the combinators\<close>

lemma bindR_Inl [simp]: "bindR (Inl e) f = Inl e"
  by (simp add: bindR_def)

lemma bindR_Inr [simp]: "bindR (Inr x) f = f x"
  by (simp add: bindR_def)

lemma bindR_eq_Inr [exec_iffs]: "bindR r f = Inr y \<longleftrightarrow> (\<exists>x. r = Inr x \<and> f x = Inr y)"
  by (cases r) auto

lemma bindR_cong [fundef_cong]:
  "r = r' \<Longrightarrow> (\<And>x. r' = Inr x \<Longrightarrow> f x = g x) \<Longrightarrow> bindR r f = bindR r' g"
  by (cases r') (auto simp: bindR_def)

lemma bindS_Inr [exec_simps]: "m s = (Inr x, s') \<Longrightarrow> bindS m f s = f x s'"
  by (simp add: bindS_def)

lemma bindS_Inl [exec_simps]: "m s = (Inl e, s') \<Longrightarrow> bindS m f s = (Inl e, s')"
  by (simp add: bindS_def)

lemma bindS_eq_Inr [exec_iffs]:
  "bindS m f s = (Inr y, s'') \<longleftrightarrow> (\<exists>x s'. m s = (Inr x, s') \<and> f x s' = (Inr y, s''))"
  by (auto simp: bindS_def split: prod.splits sum.splits)

lemma bindS_eq_Inl:
  "bindS m f s = (Inl e, s'') \<longleftrightarrow>
     m s = (Inl e, s'') \<or> (\<exists>x s'. m s = (Inr x, s') \<and> f x s' = (Inl e, s''))"
  by (auto simp: bindS_def split: prod.splits sum.splits)

lemma bindS_cong [fundef_cong]:
  "m s = m' s' \<Longrightarrow> (\<And>x t. m' s' = (Inr x, t) \<Longrightarrow> f x t = g x t) \<Longrightarrow> s = s'
    \<Longrightarrow> bindS m f s = bindS m' g s'"
  by (auto simp: bindS_def split: prod.splits sum.splits)

lemma bindS_ret [simp]: "bindS (ret x) f = f x"
  by (simp add: bindS_def ret_def fun_eq_iff)

lemma bindS_throw [simp]: "bindS (throw e) f = throw e"
  by (simp add: bindS_def throw_def fun_eq_iff)

lemma bindS_assoc: "bindS (bindS m f) g = bindS m (\<lambda>x. bindS (f x) g)"
  by (auto simp: bindS_def fun_eq_iff split: prod.splits sum.splits)

text \<open>The premise keeps the simplifier from turning the rules into equations between functions.\<close>

lemma ret_run [simp]: "s = t \<Longrightarrow> ret x s = (Inr x, t)"
  by (simp add: ret_def)

lemma throw_run [simp]: "s = t \<Longrightarrow> throw e s = (Inl e, t)"
  by (simp add: throw_def)

lemma liftR_run [simp]: "s = t \<Longrightarrow> liftR r s = (r, t)"
  by (simp add: liftR_def)

lemma gets_run [simp]: "gets f s = (Inr (f s), s)"
  by (simp add: gets_def)

lemma modify_run [simp]: "modify f s = (Inr (), f s)"
  by (simp add: modify_def)

lemma guardS_run: "guardS b e s = (if b then (Inr (), s) else (Inl e, s))"
  by (simp add: guardS_def)

lemma bindS_gets [simp]: "bindS (gets f) g s = g (f s) s"
  by (simp add: bindS_def)

lemma bindS_modify [simp]: "bindS (modify f) g s = g () (f s)"
  by (simp add: bindS_def)

lemma bindS_guardS: "bindS (guardS b e) g s = (if b then g () s else (Inl e, s))"
  by (simp add: bindS_def guardS_def)

lemma bindS_liftR: "bindS (liftR r) g s = (case r of Inl e \<Rightarrow> (Inl e, s) | Inr x \<Rightarrow> g x s)"
  by (simp add: bindS_def split: sum.splits)

lemma guardR_Inr_iff [simp]: "guardR b e = Inr u \<longleftrightarrow> b"
  by (simp add: guardR_def)

lemma guardR_True [simp]: "guardR True e = Inr ()"
  by (simp add: guardR_def)

lemma guardR_False [simp]: "guardR False e = Inl e"
  by (simp add: guardR_def)

lemma bindR_guardR: "bindR (guardR b e) f = (if b then f () else Inl e)"
  by (simp add: bindR_def guardR_def)

lemma zoom_run: "m (sel s) = (r, t) \<Longrightarrow> zoom sel upd m s = (r, upd t s)"
  by (simp add: zoom_def)

lemma zoom_eq_iff [exec_iffs]:
  "zoom sel upd m s = (r, s') \<longleftrightarrow> (\<exists>t. m (sel s) = (r, t) \<and> s' = upd t s)"
  by (auto simp: zoom_def split: prod.splits)

text \<open>An operation that keeps a predicate of the state on every branch, errors included.\<close>

definition keeps :: "('s \<Rightarrow> bool) \<Rightarrow> ('s, 'a) stm \<Rightarrow> bool" where
  "keeps P m \<longleftrightarrow> (\<forall>s. P s \<longrightarrow> P (snd (m s)))"

named_theorems keeps_intros \<open>invariant preservation through the combinators\<close>

lemma keepsI: "(\<And>s r s'. P s \<Longrightarrow> m s = (r, s') \<Longrightarrow> P s') \<Longrightarrow> keeps P m"
  unfolding keeps_def by (metis prod.collapse)

lemma keepsD: "keeps P m \<Longrightarrow> P s \<Longrightarrow> m s = (r, s') \<Longrightarrow> P s'"
  unfolding keeps_def by fastforce

lemma keeps_bindS [keeps_intros]:
  "keeps P m \<Longrightarrow> (\<And>x. keeps P (f x)) \<Longrightarrow> keeps P (bindS m f)"
  unfolding keeps_def bindS_def by (fastforce split: prod.splits sum.splits)

lemma keeps_ret [keeps_intros]: "keeps P (ret x)"
  by (simp add: keeps_def)

lemma keeps_throw [keeps_intros]: "keeps P (throw e)"
  by (simp add: keeps_def)

lemma keeps_liftR [keeps_intros]: "keeps P (liftR r)"
  by (simp add: keeps_def)

lemma keeps_gets [keeps_intros]: "keeps P (gets f)"
  by (simp add: keeps_def)

lemma keeps_guardS [keeps_intros]: "keeps P (guardS b e)"
  by (simp add: keeps_def guardS_def)

lemma keeps_modify: "(\<And>s. P s \<Longrightarrow> P (f s)) \<Longrightarrow> keeps P (modify f)"
  by (simp add: keeps_def)

lemma keeps_if [keeps_intros]: "keeps P a \<Longrightarrow> keeps P b \<Longrightarrow> keeps P (if c then a else b)"
  by simp

lemma keeps_forS [keeps_intros]: "(\<And>x. keeps P (f x)) \<Longrightarrow> keeps P (forS xs f)"
  by (induction xs) (auto intro: keeps_intros)

lemma keeps_mapS [keeps_intros]: "(\<And>x. keeps P (f x)) \<Longrightarrow> keeps P (mapS f xs)"
  by (induction xs) (auto intro: keeps_intros)

lemma keeps_case_sum [keeps_intros]:
  "(\<And>x. keeps P (f x)) \<Longrightarrow> (\<And>y. keeps P (g y)) \<Longrightarrow> keeps P (case r of Inl x \<Rightarrow> f x | Inr y \<Rightarrow> g y)"
  by (cases r) auto

lemma keeps_case_option [keeps_intros]:
  "keeps P a \<Longrightarrow> (\<And>y. keeps P (g y)) \<Longrightarrow> keeps P (case r of None \<Rightarrow> a | Some y \<Rightarrow> g y)"
  by (cases r) auto

lemma keeps_case_prod [keeps_intros]:
  "(\<And>x y. keeps P (f x y)) \<Longrightarrow> keeps P (case p of (x, y) \<Rightarrow> f x y)"
  by (cases p) auto

lemma keeps_zoom: "keeps Q m \<Longrightarrow> (\<And>s. P s \<Longrightarrow> Q (sel s)) \<Longrightarrow> (\<And>s t. P s \<Longrightarrow> Q t \<Longrightarrow> P (upd t s))
    \<Longrightarrow> keeps P (zoom sel upd m)"
  unfolding keeps_def zoom_def by (auto split: prod.splits) (metis snd_conv)

text \<open>A loop body that succeeds without changing the state collects the pure results.\<close>

lemma mapS_pure:
  "(\<And>x. x \<in> set xs \<Longrightarrow> f x s = (Inr (g x), s)) \<Longrightarrow> mapS f xs s = (Inr (map g xs), s)"
  by (induction xs) (auto simp: exec_simps)

subsection \<open>Byte strings at an offset\<close>

text \<open>\<open>has_at bs off xs\<close>: the buffer \<open>bs\<close> holds the bytes \<open>xs\<close> at offset \<open>off\<close>.\<close>

definition has_at :: "'a list \<Rightarrow> nat \<Rightarrow> 'a list \<Rightarrow> bool" where
  "has_at bs off xs \<longleftrightarrow> off + length xs \<le> length bs \<and> take (length xs) (drop off bs) = xs"

lemma has_at_append [simp]:
  "has_at bs off (xs @ ys) \<longleftrightarrow> has_at bs off xs \<and> has_at bs (off + length xs) ys"
proof -
  have "take (length xs + length ys) (drop off bs)
      = take (length xs) (drop off bs) @ take (length ys) (drop (off + length xs) bs)"
    by (simp add: take_add add.commute)
  then show ?thesis
    by (auto simp: has_at_def append_eq_append_conv)
qed

lemma has_at_ctx: "length pre = off \<Longrightarrow> has_at (pre @ xs @ post) off xs"
  by (simp add: has_at_def)

lemma has_at_le: "has_at bs off xs \<Longrightarrow> off + length xs \<le> length bs"
  by (simp add: has_at_def)

lemma has_at_Nil [simp]: "has_at bs off [] \<longleftrightarrow> off \<le> length bs"
  by (simp add: has_at_def)

lemma has_at_take: "has_at bs off xs \<Longrightarrow> take (length xs) (drop off bs) = xs"
  by (simp add: has_at_def)

lemma has_at_extend: "has_at bs off xs \<Longrightarrow> has_at (bs @ ys) off xs"
  by (simp add: has_at_def)

text \<open>Overwriting part of a buffer, growing it when the write runs past its end.\<close>

definition splice :: "byte list \<Rightarrow> nat \<Rightarrow> byte list \<Rightarrow> byte list" where
  "splice bs off xs = take off bs @ replicate (off - length bs) 0 @ xs @ drop (off + length xs) bs"

lemma length_splice: "length (splice bs off xs) = max (length bs) (off + length xs)"
  by (simp add: splice_def)

lemma splice_Nil [simp]: "off \<le> length bs \<Longrightarrow> splice bs off [] = bs"
  by (simp add: splice_def)

lemma splice_end: "splice bs (length bs) xs = bs @ xs"
  by (simp add: splice_def)

lemma nth_splice:
  assumes "off + length xs \<le> length bs" and "i < length bs"
  shows "splice bs off xs ! i = (if off \<le> i \<and> i < off + length xs then xs ! (i - off) else bs ! i)"
proof -
  have "off \<le> length bs" using assms by simp
  then show ?thesis
    using assms by (auto simp: splice_def nth_append min_def)
qed

lemma take_drop_nth_eqI:
  assumes "a + n \<le> length xs" "b + n \<le> length ys" "\<And>i. i < n \<Longrightarrow> xs ! (a + i) = ys ! (b + i)"
  shows "take n (drop a xs) = take n (drop b ys)"
  using assms by (intro nth_equalityI) auto

lemma splice_read_same:
  assumes "off + length xs \<le> length bs"
  shows "take (length xs) (drop off (splice bs off xs)) = xs"
  using assms by (simp add: splice_def)

lemma splice_read_other:
  assumes "off + length xs \<le> length bs" "a + n \<le> off \<or> off + length xs \<le> a" "a + n \<le> length bs"
  shows "take n (drop a (splice bs off xs)) = take n (drop a bs)"
  using assms by (intro take_drop_nth_eqI) (auto simp: length_splice nth_splice)

end
