(* ===== verification/Lock_Manager.thy ===== *)
theory Lock_Manager
  imports Prelude
begin

text \<open>
  \<^verbatim>\<open>src/transaction/lock_manager.cpp\<close> and \<^verbatim>\<open>src/transaction/transaction_manager.cpp\<close>: row locks and the life
  cycle of transactions.

  Every method of the lock manager holds its mutex from the first access to the tables to its return, so a
  concurrent execution is a sequence of whole method calls: the step relation \<open>sys_step\<close> interleaves the calls of
  any number of transactions. Hash sets and hash maps are sets and maps; the loop of \<open>UnlockAll\<close> over a hash
  set is shown not to depend on the order of iteration.
\<close>

subsection \<open>Transactions\<close>

datatype IsolationLevel = kReadCommitted | kRepeatableRead | kSerializable

datatype TransactionState = kActive | kCommitted | kAborted

record Transaction =
  txn_id :: nat
  txn_isolation :: IsolationLevel
  txn_state :: TransactionState

subsection \<open>The lock manager\<close>

record LockEntry =
  shared_holders :: "nat set"
  exclusive_holder :: "nat option"

record lock_manager =
  lock_table :: "nat \<rightharpoonup> LockEntry"
  txn_locks :: "nat \<rightharpoonup> nat set"

definition CanAcquireLocks :: "Transaction \<Rightarrow> bool" where
  "CanAcquireLocks txn \<longleftrightarrow> txn_state txn = kActive"

definition CanUnlock :: "Transaction \<Rightarrow> bool" where
  "CanUnlock txn \<longleftrightarrow> txn_state txn = kActive \<or> txn_state txn = kCommitted \<or> txn_state txn = kAborted"

definition RememberTxnLockOwnership :: "(nat \<rightharpoonup> nat set) \<Rightarrow> nat \<Rightarrow> nat \<Rightarrow> (nat \<rightharpoonup> nat set)" where
  "RememberTxnLockOwnership locks tid rid =
     locks(tid \<mapsto> insert rid (case locks tid of None \<Rightarrow> {} | Some rids \<Rightarrow> rids))"

definition ForgetTxnLockOwnership :: "(nat \<rightharpoonup> nat set) \<Rightarrow> nat \<Rightarrow> nat \<Rightarrow> (nat \<rightharpoonup> nat set)" where
  "ForgetTxnLockOwnership locks tid rid = (case locks tid of
     None \<Rightarrow> locks
   | Some rids \<Rightarrow> if rids - {rid} = {} then locks(tid := None) else locks(tid \<mapsto> rids - {rid}))"

text \<open>\<open>lock_table_[rid]\<close>: a missing entry is created empty.\<close>

definition entry_of :: "lock_manager \<Rightarrow> nat \<Rightarrow> LockEntry" where
  "entry_of lm rid = (case lock_table lm rid of
     None \<Rightarrow> \<lparr>shared_holders = {}, exclusive_holder = None\<rparr> | Some e \<Rightarrow> e)"

definition grant :: "lock_manager \<Rightarrow> nat \<Rightarrow> nat \<Rightarrow> LockEntry \<Rightarrow> lock_manager" where
  "grant lm tid rid e =
     \<lparr>lock_table = (lock_table lm)(rid \<mapsto> e), txn_locks = RememberTxnLockOwnership (txn_locks lm) tid rid\<rparr>"

definition touch :: "lock_manager \<Rightarrow> nat \<Rightarrow> lock_manager" where
  "touch lm rid = lm\<lparr>lock_table := (lock_table lm)(rid \<mapsto> entry_of lm rid)\<rparr>"

definition LockShared :: "Transaction \<Rightarrow> nat \<Rightarrow> (lock_manager, unit) stm" where
  "LockShared txn rid lm =
     (if \<not> CanAcquireLocks txn then (Inl kTransactionError, lm)
      else let entry = entry_of lm rid in
        if exclusive_holder entry \<noteq> None \<and> exclusive_holder entry \<noteq> Some (txn_id txn)
        then (Inl kTransactionError, touch lm rid)
        else (Inr (), grant lm (txn_id txn) rid (entry\<lparr>shared_holders := insert (txn_id txn) (shared_holders entry)\<rparr>)))"

definition LockExclusive :: "Transaction \<Rightarrow> nat \<Rightarrow> (lock_manager, unit) stm" where
  "LockExclusive txn rid lm =
     (if \<not> CanAcquireLocks txn then (Inl kTransactionError, lm)
      else let entry = entry_of lm rid; tid = txn_id txn in
        if exclusive_holder entry = Some tid then (Inr (), grant lm tid rid entry)
        else if exclusive_holder entry \<noteq> None then (Inl kTransactionError, touch lm rid)
        else if shared_holders entry = {} then (Inr (), grant lm tid rid (entry\<lparr>exclusive_holder := Some tid\<rparr>))
        else if card (shared_holders entry) = 1 \<and> tid \<in> shared_holders entry
        then (Inr (), grant lm tid rid (entry\<lparr>shared_holders := shared_holders entry - {tid}, exclusive_holder := Some tid\<rparr>))
        else (Inl kTransactionError, touch lm rid))"

text \<open>Releasing one row for a transaction: the entry goes when nobody holds it any more.\<close>

definition release_entry :: "nat \<Rightarrow> LockEntry option \<Rightarrow> LockEntry option" where
  "release_entry tid oe = (case oe of None \<Rightarrow> None
     | Some e \<Rightarrow>
        let e = (if exclusive_holder e = Some tid then e\<lparr>exclusive_holder := None\<rparr> else e);
            e = e\<lparr>shared_holders := shared_holders e - {tid}\<rparr>
        in if exclusive_holder e = None \<and> shared_holders e = {} then None else Some e)"

definition Unlock :: "Transaction \<Rightarrow> nat \<Rightarrow> (lock_manager, unit) stm" where
  "Unlock txn rid lm =
     (if \<not> CanUnlock txn then (Inl kTransactionError, lm)
      else (Inr (), \<lparr>lock_table = (lock_table lm)(rid := release_entry (txn_id txn) (lock_table lm rid)),
              txn_locks = ForgetTxnLockOwnership (txn_locks lm) (txn_id txn) rid\<rparr>))"

definition release_all :: "nat \<Rightarrow> nat set \<Rightarrow> (nat \<rightharpoonup> LockEntry) \<Rightarrow> (nat \<rightharpoonup> LockEntry)" where
  "release_all tid rids table = (\<lambda>rid. if rid \<in> rids then release_entry tid (table rid) else table rid)"

definition UnlockAll :: "Transaction \<Rightarrow> (lock_manager, unit) stm" where
  "UnlockAll txn lm =
     (if \<not> CanUnlock txn then (Inl kTransactionError, lm)
      else case txn_locks lm (txn_id txn) of
        None \<Rightarrow> (Inr (), lm)
      | Some held \<Rightarrow> (Inr (), \<lparr>lock_table = release_all (txn_id txn) held (lock_table lm),
            txn_locks = (txn_locks lm)(txn_id txn := None)\<rparr>))"

subsection \<open>The transaction manager\<close>

record transaction_manager =
  tm_lock_manager :: "lock_manager option"
  tm_next_txn_id :: nat

definition tm_Begin :: "IsolationLevel \<Rightarrow> transaction_manager \<Rightarrow> Transaction \<times> transaction_manager" where
  "tm_Begin isolation tm =
     (\<lparr>txn_id = tm_next_txn_id tm, txn_isolation = isolation, txn_state = kActive\<rparr>,
      tm\<lparr>tm_next_txn_id := (tm_next_txn_id tm + 1) mod 2 ^ 64\<rparr>)"

definition FinishTransaction ::
  "Transaction \<Rightarrow> TransactionState \<Rightarrow> transaction_manager \<Rightarrow> unit result \<times> Transaction \<times> transaction_manager" where
  "FinishTransaction txn target_state tm =
     (if txn_state txn \<noteq> kActive then (Inl kTransactionError, txn, tm)
      else let txn = txn\<lparr>txn_state := target_state\<rparr> in
        case tm_lock_manager tm of
          None \<Rightarrow> (Inr (), txn, tm)
        | Some lm \<Rightarrow> (case UnlockAll txn lm of (r, lm') \<Rightarrow> (r, txn, tm\<lparr>tm_lock_manager := Some lm'\<rparr>)))"

definition tm_Commit :: "Transaction \<Rightarrow> transaction_manager \<Rightarrow> unit result \<times> Transaction \<times> transaction_manager" where
  "tm_Commit txn = FinishTransaction txn kCommitted"

definition tm_Rollback :: "Transaction \<Rightarrow> transaction_manager \<Rightarrow> unit result \<times> Transaction \<times> transaction_manager" where
  "tm_Rollback txn = FinishTransaction txn kAborted"

subsection \<open>The loop of UnlockAll\<close>

lemma release_all_order:
  assumes "distinct rids"
  shows "fold (\<lambda>rid table. table(rid := release_entry tid (table rid))) rids table = release_all tid (set rids) table"
  using assms
  by (induction rids arbitrary: table) (auto simp: release_all_def fun_eq_iff)

subsection \<open>Who holds what\<close>

definition holds_shared :: "lock_manager \<Rightarrow> nat \<Rightarrow> nat \<Rightarrow> bool" where
  "holds_shared lm tid rid \<longleftrightarrow> tid \<in> shared_holders (entry_of lm rid)"

definition holds_exclusive :: "lock_manager \<Rightarrow> nat \<Rightarrow> nat \<Rightarrow> bool" where
  "holds_exclusive lm tid rid \<longleftrightarrow> exclusive_holder (entry_of lm rid) = Some tid"

definition holds :: "lock_manager \<Rightarrow> nat \<Rightarrow> nat \<Rightarrow> bool" where
  "holds lm tid rid \<longleftrightarrow> holds_shared lm tid rid \<or> holds_exclusive lm tid rid"

text \<open>
  The invariant of the lock manager: an exclusively locked row has no other holder, no entry is empty, and the
  per-transaction sets record exactly the rows each transaction holds.
\<close>

definition entry_ok :: "LockEntry \<Rightarrow> bool" where
  "entry_ok e \<longleftrightarrow> (\<forall>tid. exclusive_holder e = Some tid \<longrightarrow> shared_holders e \<subseteq> {tid}) \<and>
     (exclusive_holder e \<noteq> None \<or> shared_holders e \<noteq> {})"

definition lock_inv :: "lock_manager \<Rightarrow> bool" where
  "lock_inv lm \<longleftrightarrow>
     (\<forall>rid e. lock_table lm rid = Some e \<longrightarrow> entry_ok e) \<and>
     (\<forall>tid rid. holds lm tid rid \<longleftrightarrow> (\<exists>rids. txn_locks lm tid = Some rids \<and> rid \<in> rids)) \<and>
     (\<forall>tid. txn_locks lm tid \<noteq> Some {})"

definition lm_init :: lock_manager where
  "lm_init = \<lparr>lock_table = Map.empty, txn_locks = Map.empty\<rparr>"

lemma lock_inv_init: "lock_inv lm_init"
  by (simp add: lock_inv_def lm_init_def holds_def holds_shared_def holds_exclusive_def entry_of_def)

lemma lock_inv_entry:
  assumes "lock_inv lm" "exclusive_holder (entry_of lm rid) = Some tid"
  shows "shared_holders (entry_of lm rid) \<subseteq> {tid}"
  using assms by (auto simp: lock_inv_def entry_ok_def entry_of_def split: option.splits)

lemma lock_inv_owned: "lock_inv lm \<Longrightarrow> holds lm tid rid \<longleftrightarrow> (\<exists>rids. txn_locks lm tid = Some rids \<and> rid \<in> rids)"
  by (simp add: lock_inv_def)

lemma entry_of_grant: "entry_of (grant lm tid rid e) r = (if r = rid then e else entry_of lm r)"
  by (simp add: entry_of_def grant_def)

lemma remembered:
  "(\<exists>rids. RememberTxnLockOwnership locks tid rid t = Some rids \<and> r \<in> rids) \<longleftrightarrow>
     (t = tid \<and> r = rid) \<or> (\<exists>rids. locks t = Some rids \<and> r \<in> rids)"
  by (auto simp: RememberTxnLockOwnership_def split: option.splits)

lemma lock_inv_grant:
  assumes inv: "lock_inv lm"
    and e: "entry_ok e"
    and same: "\<And>t. (t \<in> shared_holders e \<or> exclusive_holder e = Some t) \<longleftrightarrow> t = tid \<or> holds lm t rid"
  shows "lock_inv (grant lm tid rid e)"
proof -
  have "holds (grant lm tid rid e) t r \<longleftrightarrow> (t = tid \<and> r = rid) \<or> holds lm t r" for t r
    using same by (auto simp: holds_def holds_shared_def holds_exclusive_def entry_of_grant)
  moreover have "txn_locks (grant lm tid rid e) t \<noteq> Some {}" for t
    using inv by (auto simp: lock_inv_def grant_def RememberTxnLockOwnership_def)
  ultimately show ?thesis
    using inv e by (auto simp: lock_inv_def grant_def remembered)
qed

lemma lock_inv_touch:
  assumes "lock_inv lm" "exclusive_holder (entry_of lm rid) \<noteq> None \<or> shared_holders (entry_of lm rid) \<noteq> {}"
  shows "touch lm rid = lm"
proof -
  have "lock_table lm rid \<noteq> None" using assms(2) by (auto simp: entry_of_def split: option.splits)
  then show ?thesis by (auto simp: touch_def entry_of_def fun_upd_idem split: option.splits)
qed

subsection \<open>When a lock is granted\<close>

lemma LockShared_iff:
  assumes "lock_inv lm" "txn_state txn = kActive"
  shows "LockShared txn rid lm =
    (if \<exists>t. t \<noteq> txn_id txn \<and> holds_exclusive lm t rid then (Inl kTransactionError, lm)
     else (Inr (), grant lm (txn_id txn) rid
        ((entry_of lm rid)\<lparr>shared_holders := insert (txn_id txn) (shared_holders (entry_of lm rid))\<rparr>)))"
proof (cases "exclusive_holder (entry_of lm rid)")
  case None
  then show ?thesis using assms(2) by (simp add: LockShared_def CanAcquireLocks_def holds_exclusive_def Let_def)
next
  case (Some t)
  then have "touch lm rid = lm" using lock_inv_touch [OF assms(1)] by simp
  then show ?thesis
    using Some assms(2) by (auto simp: LockShared_def CanAcquireLocks_def holds_exclusive_def Let_def)
qed

definition exclusive_entry :: "lock_manager \<Rightarrow> nat \<Rightarrow> nat \<Rightarrow> LockEntry" where
  "exclusive_entry lm tid rid = (if exclusive_holder (entry_of lm rid) = Some tid then entry_of lm rid
     else \<lparr>shared_holders = {}, exclusive_holder = Some tid\<rparr>)"

lemma LockExclusive_iff:
  assumes "lock_inv lm" "txn_state txn = kActive"
  shows "LockExclusive txn rid lm =
    (if \<exists>t. t \<noteq> txn_id txn \<and> holds lm t rid then (Inl kTransactionError, lm)
     else (Inr (), grant lm (txn_id txn) rid (exclusive_entry lm (txn_id txn) rid)))"
proof -
  let ?e = "entry_of lm rid" and ?t = "txn_id txn"
  have a: "CanAcquireLocks txn" using assms(2) by (simp add: CanAcquireLocks_def)
  have touch: "touch lm rid = lm" if "exclusive_holder ?e \<noteq> None \<or> shared_holders ?e \<noteq> {}"
    using lock_inv_touch [OF assms(1) that] .
  have other: "(\<exists>t. t \<noteq> ?t \<and> holds lm t rid) \<longleftrightarrow>
      (\<exists>t \<in> shared_holders ?e. t \<noteq> ?t) \<or> (\<exists>t. t \<noteq> ?t \<and> exclusive_holder ?e = Some t)"
    by (auto simp: holds_def holds_shared_def holds_exclusive_def)
  show ?thesis
  proof (cases "exclusive_holder ?e")
    case (Some t)
    then show ?thesis
      using lock_inv_entry [OF assms(1), of rid t] touch a
      by (auto simp: other LockExclusive_def exclusive_entry_def Let_def)
  next
    case None
    have card: "card (shared_holders ?e) = 1 \<and> ?t \<in> shared_holders ?e \<longleftrightarrow> shared_holders ?e = {?t}"
      by (auto simp: card_1_singleton_iff)
    have e: "?e\<lparr>exclusive_holder := Some ?t\<rparr> = exclusive_entry lm ?t rid" if "shared_holders ?e = {}"
      using None that by (cases ?e) (simp add: exclusive_entry_def)
    have e': "?e\<lparr>shared_holders := shared_holders ?e - {?t}, exclusive_holder := Some ?t\<rparr> = exclusive_entry lm ?t rid"
      if "shared_holders ?e = {?t}" using None that by (cases ?e) (simp add: exclusive_entry_def)
    show ?thesis
      using None touch a card e e' by (auto simp: other LockExclusive_def Let_def)
  qed
qed

lemma LockShared_inv: "lock_inv lm \<Longrightarrow> LockShared txn rid lm = (r, lm') \<Longrightarrow> lock_inv lm'"
proof (cases "txn_state txn = kActive")
  case True
  assume inv: "lock_inv lm" and run: "LockShared txn rid lm = (r, lm')"
  show ?thesis
  proof (cases "\<exists>t. t \<noteq> txn_id txn \<and> holds_exclusive lm t rid")
    case True
    then show ?thesis using run inv LockShared_iff [OF inv \<open>txn_state txn = kActive\<close>, of rid] by simp
  next
    case False
    let ?e = "(entry_of lm rid)\<lparr>shared_holders := insert (txn_id txn) (shared_holders (entry_of lm rid))\<rparr>"
    have "lock_inv (grant lm (txn_id txn) rid ?e)"
      using False lock_inv_entry [OF inv, of rid]
      by (intro lock_inv_grant [OF inv]) (fastforce simp: entry_ok_def holds_def holds_shared_def holds_exclusive_def)+
    then show ?thesis using run False LockShared_iff [OF inv True, of rid] by simp
  qed
next
  case False
  then show "lock_inv lm \<Longrightarrow> LockShared txn rid lm = (r, lm') \<Longrightarrow> lock_inv lm'"
    by (simp add: LockShared_def CanAcquireLocks_def)
qed

lemma LockExclusive_inv: "lock_inv lm \<Longrightarrow> LockExclusive txn rid lm = (r, lm') \<Longrightarrow> lock_inv lm'"
proof (cases "txn_state txn = kActive")
  case True
  assume inv: "lock_inv lm" and run: "LockExclusive txn rid lm = (r, lm')"
  show ?thesis
  proof (cases "\<exists>t. t \<noteq> txn_id txn \<and> holds lm t rid")
    case True
    then show ?thesis using run inv LockExclusive_iff [OF inv \<open>txn_state txn = kActive\<close>, of rid] by simp
  next
    case False
    have "t = txn_id txn" if "t \<in> shared_holders (entry_of lm rid)" for t
      using False that by (auto simp: holds_def holds_shared_def)
    then have "lock_inv (grant lm (txn_id txn) rid (exclusive_entry lm (txn_id txn) rid))"
      using False lock_inv_entry [OF inv, of rid "txn_id txn"]
      by (intro lock_inv_grant [OF inv])
        (auto simp: exclusive_entry_def entry_ok_def holds_def holds_shared_def holds_exclusive_def split: if_splits)
    then show ?thesis using run False LockExclusive_iff [OF inv True, of rid] by simp
  qed
next
  case False
  then show "lock_inv lm \<Longrightarrow> LockExclusive txn rid lm = (r, lm') \<Longrightarrow> lock_inv lm'"
    by (simp add: LockExclusive_def CanAcquireLocks_def)
qed

subsection \<open>Releasing locks\<close>

definition held_entry :: "LockEntry option \<Rightarrow> nat \<Rightarrow> bool" where
  "held_entry oe tid \<longleftrightarrow> (\<exists>e. oe = Some e \<and> (tid \<in> shared_holders e \<or> exclusive_holder e = Some tid))"

lemma holds_held: "holds lm tid rid \<longleftrightarrow> held_entry (lock_table lm rid) tid"
  by (auto simp: holds_def holds_shared_def holds_exclusive_def held_entry_def entry_of_def split: option.splits)

lemma held_release: "held_entry (release_entry tid oe) t \<longleftrightarrow> t \<noteq> tid \<and> held_entry oe t"
  by (cases oe) (auto simp: held_entry_def release_entry_def Let_def)

lemma release_entry_ok: "entry_ok e \<Longrightarrow> release_entry tid (Some e) = Some e' \<Longrightarrow> entry_ok e'"
  by (auto simp: entry_ok_def release_entry_def Let_def split: if_splits)

lemma release_entry_None [simp]: "release_entry tid None = None"
  by (simp add: release_entry_def)

lemma lock_inv_alt:
  "lock_inv lm \<longleftrightarrow>
     (\<forall>rid e. lock_table lm rid = Some e \<longrightarrow> entry_ok e) \<and>
     (\<forall>tid rid. held_entry (lock_table lm rid) tid \<longleftrightarrow> (\<exists>rids. txn_locks lm tid = Some rids \<and> rid \<in> rids)) \<and>
     (\<forall>tid. txn_locks lm tid \<noteq> Some {})"
  unfolding lock_inv_def holds_held ..

lemma forgotten:
  "(\<exists>rids. ForgetTxnLockOwnership locks tid rid t = Some rids \<and> r \<in> rids) \<longleftrightarrow>
     \<not> (t = tid \<and> r = rid) \<and> (\<exists>rids. locks t = Some rids \<and> r \<in> rids)"
  by (auto simp: ForgetTxnLockOwnership_def split: option.splits)

lemma lock_inv_release:
  assumes inv: "lock_inv lm"
    and tbl: "\<And>rid. tbl rid = lock_table lm rid \<or> tbl rid = release_entry tid (lock_table lm rid)"
    and own: "\<And>t rid. held_entry (tbl rid) t \<longleftrightarrow> (\<exists>rids. locks t = Some rids \<and> rid \<in> rids)"
    and ne: "\<And>t. locks t \<noteq> Some {}"
  shows "lock_inv \<lparr>lock_table = tbl, txn_locks = locks\<rparr>"
proof -
  have "entry_ok e" if "tbl rid = Some e" for rid e
  proof (cases "tbl rid = lock_table lm rid")
    case True
    then show ?thesis using that inv by (simp add: lock_inv_alt)
  next
    case False
    then have "release_entry tid (lock_table lm rid) = Some e" using that tbl [of rid] by auto
    moreover from this obtain a where "lock_table lm rid = Some a" by (cases "lock_table lm rid") auto
    moreover from this have "entry_ok a" using inv by (simp add: lock_inv_alt)
    ultimately show ?thesis by (simp add: release_entry_ok)
  qed
  then show ?thesis using own ne by (simp add: lock_inv_alt)
qed

lemma Unlock_holds:
  assumes "lock_inv lm" "Unlock txn rid lm = (r, lm')"
  shows "r = Inr ()" "holds lm' t q \<longleftrightarrow> \<not> (t = txn_id txn \<and> q = rid) \<and> holds lm t q" "lock_inv lm'"
proof -
  let ?tbl = "(lock_table lm)(rid := release_entry (txn_id txn) (lock_table lm rid))"
  let ?locks = "ForgetTxnLockOwnership (txn_locks lm) (txn_id txn) rid"
  have "CanUnlock txn" by (cases "txn_state txn") (auto simp: CanUnlock_def)
  then have lm': "r = Inr ()" "lm' = \<lparr>lock_table = ?tbl, txn_locks = ?locks\<rparr>"
    using assms(2) by (auto simp: Unlock_def)
  have h: "held_entry (?tbl q) t \<longleftrightarrow> \<not> (t = txn_id txn \<and> q = rid) \<and> held_entry (lock_table lm q) t" for t q
    by (auto simp: held_release)
  have "?locks t \<noteq> Some {}" for t
    using assms(1) by (auto simp: lock_inv_def ForgetTxnLockOwnership_def split: option.splits if_splits)
  moreover have "held_entry (lock_table lm q) t \<longleftrightarrow> (\<exists>rids. txn_locks lm t = Some rids \<and> q \<in> rids)" for q t
    using assms(1) by (simp add: lock_inv_alt)
  then have "held_entry (?tbl q) t \<longleftrightarrow> (\<exists>rids. ?locks t = Some rids \<and> q \<in> rids)" for q t
    unfolding h forgotten by simp
  ultimately show "lock_inv lm'" unfolding lm'(2) by (intro lock_inv_release [OF assms(1)]) auto
  show "r = Inr ()" by (rule lm'(1))
  show "holds lm' t q \<longleftrightarrow> \<not> (t = txn_id txn \<and> q = rid) \<and> holds lm t q"
    unfolding lm'(2) holds_held using h by simp
qed

lemma UnlockAll_holds:
  assumes "lock_inv lm" "UnlockAll txn lm = (r, lm')"
  shows "r = Inr ()" "holds lm' t rid \<longleftrightarrow> t \<noteq> txn_id txn \<and> holds lm t rid" "lock_inv lm'"
proof -
  have u: "CanUnlock txn" by (cases "txn_state txn") (auto simp: CanUnlock_def)
  then show "r = Inr ()" using assms(2) by (auto simp: UnlockAll_def split: option.splits)
  have own: "held_entry (lock_table lm rid) t \<longleftrightarrow> (\<exists>rids. txn_locks lm t = Some rids \<and> rid \<in> rids)" for t rid
    using assms(1) by (simp add: lock_inv_alt)
  show "holds lm' t rid \<longleftrightarrow> t \<noteq> txn_id txn \<and> holds lm t rid"
    using assms(2) u own [of rid "txn_id txn"]
    by (auto simp: UnlockAll_def holds_held release_all_def held_release split: option.splits)
  show "lock_inv lm'"
  proof (cases "txn_locks lm (txn_id txn)")
    case None
    then show ?thesis using assms u by (simp add: UnlockAll_def)
  next
    case (Some held)
    have lm': "lm' = \<lparr>lock_table = release_all (txn_id txn) held (lock_table lm), txn_locks = (txn_locks lm)(txn_id txn := None)\<rparr>"
      using assms(2) u Some by (simp add: UnlockAll_def)
    have h: "held_entry (release_all (txn_id txn) held (lock_table lm) rid) t \<longleftrightarrow>
        (\<exists>rids. ((txn_locks lm)(txn_id txn := None)) t = Some rids \<and> rid \<in> rids)" for rid t
      using own [of rid "txn_id txn"] own [of rid t] Some by (auto simp: release_all_def held_release)
    have "txn_locks lm t \<noteq> Some {}" for t using assms(1) by (simp add: lock_inv_def)
    then show ?thesis
      unfolding lm' using h by (intro lock_inv_release [OF assms(1)]) (auto simp: release_all_def)
  qed
qed

subsection \<open>Transactions running against the lock manager\<close>

record txn_system =
  sys_tm :: transaction_manager
  sys_txns :: "nat \<rightharpoonup> Transaction"

definition sys_lm :: "txn_system \<Rightarrow> lock_manager" where
  "sys_lm s = (case tm_lock_manager (sys_tm s) of Some lm \<Rightarrow> lm | None \<Rightarrow> lm_init)"

definition set_lm :: "txn_system \<Rightarrow> lock_manager \<Rightarrow> txn_system" where
  "set_lm s lm = s\<lparr>sys_tm := (sys_tm s)\<lparr>tm_lock_manager := Some lm\<rparr>\<rparr>"

definition sys_init :: txn_system where
  "sys_init = \<lparr>sys_tm = \<lparr>tm_lock_manager = Some lm_init, tm_next_txn_id = 1\<rparr>, sys_txns = Map.empty\<rparr>"

text \<open>
  One method call by one transaction. A transaction id is drawn below \<open>2 ^ 64\<close>, as long as the counter has not
  wrapped.
\<close>

inductive sys_step :: "txn_system \<Rightarrow> txn_system \<Rightarrow> bool" where
  step_begin: "tm_Begin level (sys_tm s) = (txn, tm') \<Longrightarrow> tm_next_txn_id (sys_tm s) + 1 < 2 ^ 64 \<Longrightarrow>
    sys_step s \<lparr>sys_tm = tm', sys_txns = (sys_txns s)(txn_id txn \<mapsto> txn)\<rparr>"
| step_shared: "sys_txns s tid = Some txn \<Longrightarrow> LockShared txn rid (sys_lm s) = (r, lm') \<Longrightarrow>
    sys_step s (set_lm s lm')"
| step_exclusive: "sys_txns s tid = Some txn \<Longrightarrow> LockExclusive txn rid (sys_lm s) = (r, lm') \<Longrightarrow>
    sys_step s (set_lm s lm')"
| step_unlock: "sys_txns s tid = Some txn \<Longrightarrow> Unlock txn rid (sys_lm s) = (r, lm') \<Longrightarrow>
    sys_step s (set_lm s lm')"
| step_commit: "sys_txns s tid = Some txn \<Longrightarrow> tm_Commit txn (sys_tm s) = (r, txn', tm') \<Longrightarrow>
    sys_step s \<lparr>sys_tm = tm', sys_txns = (sys_txns s)(tid \<mapsto> txn')\<rparr>"
| step_rollback: "sys_txns s tid = Some txn \<Longrightarrow> tm_Rollback txn (sys_tm s) = (r, txn', tm') \<Longrightarrow>
    sys_step s \<lparr>sys_tm = tm', sys_txns = (sys_txns s)(tid \<mapsto> txn')\<rparr>"

inductive reachable :: "txn_system \<Rightarrow> bool" where
  reach_init: "reachable sys_init"
| reach_step: "reachable s \<Longrightarrow> sys_step s s' \<Longrightarrow> reachable s'"

inductive_cases sys_stepE: "sys_step s s'"

text \<open>The invariant: only active transactions hold locks, and ids are unique.\<close>

definition sys_inv :: "txn_system \<Rightarrow> bool" where
  "sys_inv s \<longleftrightarrow> tm_lock_manager (sys_tm s) \<noteq> None \<and> lock_inv (sys_lm s) \<and>
     (\<forall>tid txn. sys_txns s tid = Some txn \<longrightarrow> txn_id txn = tid \<and> tid < tm_next_txn_id (sys_tm s)) \<and>
     (\<forall>tid rid. holds (sys_lm s) tid rid \<longrightarrow> (\<exists>txn. sys_txns s tid = Some txn \<and> txn_state txn = kActive))"

lemma sys_lm_set [simp]: "sys_lm (set_lm s lm) = lm" "sys_txns (set_lm s lm) = sys_txns s"
  "tm_next_txn_id (sys_tm (set_lm s lm)) = tm_next_txn_id (sys_tm s)"
  "tm_lock_manager (sys_tm (set_lm s lm)) = Some lm"
  by (simp_all add: sys_lm_def set_lm_def)

lemma sys_inv_init: "sys_inv sys_init"
  using lock_inv_init
  by (simp add: sys_inv_def sys_init_def sys_lm_def holds_held lm_init_def held_entry_def)

lemma holds_grant:
  assumes "\<And>t. (t \<in> shared_holders e \<or> exclusive_holder e = Some t) \<longleftrightarrow> t = tid \<or> holds lm t rid"
  shows "holds (grant lm tid rid e) t r \<longleftrightarrow> (t = tid \<and> r = rid) \<or> holds lm t r"
  using assms by (auto simp: holds_def holds_shared_def holds_exclusive_def entry_of_grant)

lemma LockShared_holds:
  assumes "lock_inv lm" "LockShared txn rid lm = (r, lm')" "holds lm' t q"
  shows "holds lm t q \<or> (t = txn_id txn \<and> txn_state txn = kActive)"
proof (cases "txn_state txn = kActive")
  case True
  then show ?thesis
    using assms LockShared_iff [OF assms(1) True, of rid]
    by (auto simp: holds_def holds_shared_def holds_exclusive_def entry_of_grant split: if_splits)
qed (use assms in \<open>simp add: LockShared_def CanAcquireLocks_def\<close>)

lemma LockExclusive_holds:
  assumes "lock_inv lm" "LockExclusive txn rid lm = (r, lm')" "holds lm' t q"
  shows "holds lm t q \<or> (t = txn_id txn \<and> txn_state txn = kActive)"
proof (cases "txn_state txn = kActive")
  case True
  then show ?thesis
    using assms LockExclusive_iff [OF assms(1) True, of rid]
    by (auto simp: holds_def holds_shared_def holds_exclusive_def entry_of_grant exclusive_entry_def split: if_splits)
qed (use assms in \<open>simp add: LockExclusive_def CanAcquireLocks_def\<close>)

lemma sys_inv_lock:
  assumes "sys_inv s" "sys_txns s tid = Some txn" "lock_inv lm'"
    "\<And>t q. holds lm' t q \<Longrightarrow> holds (sys_lm s) t q \<or> (t = txn_id txn \<and> txn_state txn = kActive)"
  shows "sys_inv (set_lm s lm')"
  using assms unfolding sys_inv_def by simp metis

lemma FinishTransaction_inv:
  assumes inv: "sys_inv s" and txn: "sys_txns s tid = Some txn"
    and run: "FinishTransaction txn st (sys_tm s) = (r, txn', tm')"
  shows "sys_inv \<lparr>sys_tm = tm', sys_txns = (sys_txns s)(tid \<mapsto> txn')\<rparr>"
proof (cases "txn_state txn = kActive")
  case False
  then have "tm' = sys_tm s" "txn' = txn" using run by (auto simp: FinishTransaction_def)
  then show ?thesis using inv txn by (auto simp: sys_inv_def sys_lm_def)
next
  case True
  obtain lm where lm: "tm_lock_manager (sys_tm s) = Some lm" using inv by (auto simp: sys_inv_def)
  let ?txn = "txn\<lparr>txn_state := st\<rparr>"
  obtain q lm' where u: "UnlockAll ?txn lm = (q, lm')" by fastforce
  then have r: "txn' = ?txn" "tm' = (sys_tm s)\<lparr>tm_lock_manager := Some lm'\<rparr>"
    using run True lm by (auto simp: FinishTransaction_def)
  have li: "lock_inv lm" "sys_lm s = lm" using inv lm by (auto simp: sys_inv_def sys_lm_def)
  have h: "holds lm' t rid \<longleftrightarrow> t \<noteq> txn_id txn \<and> holds lm t rid" for t rid
    using UnlockAll_holds(2) [OF li(1) u] by simp
  have id: "txn_id txn = tid" using inv txn by (auto simp: sys_inv_def)
  have "sys_lm \<lparr>sys_tm = tm', sys_txns = (sys_txns s)(tid \<mapsto> txn')\<rparr> = lm'" using r by (simp add: sys_lm_def)
  then show ?thesis
    using inv txn r id h li UnlockAll_holds(3) [OF li(1) u] by (auto simp: sys_inv_def)
qed

lemma sys_step_inv: "sys_step s s' \<Longrightarrow> sys_inv s \<Longrightarrow> sys_inv s'"
proof (induction rule: sys_step.induct)
  case (step_begin level s txn tm')
  then show ?case
    by (auto simp: sys_inv_def tm_Begin_def sys_lm_def) (blast intro: less_SucI)+
next
  case (step_shared s tid txn rid r lm')
  then show ?case
    by (intro sys_inv_lock) (auto simp: sys_inv_def dest: LockShared_inv LockShared_holds)
next
  case (step_exclusive s tid txn rid r lm')
  then show ?case
    by (intro sys_inv_lock) (auto simp: sys_inv_def dest: LockExclusive_inv LockExclusive_holds)
next
  case (step_unlock s tid txn rid r lm')
  then show ?case
    by (intro sys_inv_lock) (auto simp: sys_inv_def dest: Unlock_holds)
qed (auto simp: tm_Commit_def tm_Rollback_def intro: FinishTransaction_inv)

lemma reachable_inv: "reachable s \<Longrightarrow> sys_inv s"
  by (induction rule: reachable.induct) (auto intro: sys_inv_init sys_step_inv)

subsection \<open>Properties\<close>

text \<open>
  C4: mutual exclusion. In every reachable state of any number of transactions calling the lock manager in any
  interleaving, a row that one transaction holds exclusively is held by no other transaction in any mode.
\<close>

theorem exclusive_is_exclusive:
  assumes "reachable s" "holds_exclusive (sys_lm s) tid rid" "tid' \<noteq> tid"
  shows "\<not> holds (sys_lm s) tid' rid"
  using reachable_inv [OF assms(1)] assms(2,3) lock_inv_entry [of "sys_lm s" rid tid]
  by (auto simp: sys_inv_def holds_def holds_shared_def holds_exclusive_def)


text \<open>
  C17: an exclusive lock request of an active transaction is granted exactly when no other transaction holds the
  row, upgrades included; a refused request changes nothing, and a granted one is held afterwards.
\<close>

theorem exclusive_granted_iff:
  assumes "reachable s" "sys_txns s tid = Some txn" "txn_state txn = kActive"
  shows "\<exists>r lm'. LockExclusive txn rid (sys_lm s) = (r, lm') \<and>
    (r = Inr () \<longleftrightarrow> (\<forall>t. t \<noteq> tid \<longrightarrow> \<not> holds (sys_lm s) t rid)) \<and>
    (r = Inr () \<longrightarrow> holds_exclusive lm' tid rid) \<and> (r \<noteq> Inr () \<longrightarrow> r = Inl kTransactionError \<and> lm' = sys_lm s)"
proof -
  have inv: "lock_inv (sys_lm s)" and id: "txn_id txn = tid"
    using reachable_inv [OF assms(1)] assms(2) by (auto simp: sys_inv_def)
  show ?thesis
    using LockExclusive_iff [OF inv assms(3), of rid] id
    by (auto simp: holds_exclusive_def entry_of_grant exclusive_entry_def)
qed

text \<open>
  C18: finishing a transaction frees its rows. After a commit every row that only this transaction held can be locked
  exclusively by any other active transaction at once, and the locks of the other transactions are untouched.
\<close>

theorem commit_releases:
  assumes "reachable s" "sys_txns s tid = Some txn" "txn_state txn = kActive"
    "tm_Commit txn (sys_tm s) = (r, txn', tm')"
    "\<forall>t. t \<noteq> tid \<longrightarrow> \<not> holds (sys_lm s) t rid" "txn_state other = kActive"
  shows "r = Inr () \<and> txn_state txn' = kCommitted \<and>
    (\<exists>lm lm'. tm_lock_manager tm' = Some lm \<and> LockExclusive other rid lm = (Inr (), lm') \<and>
       (\<forall>t q. holds lm t q \<longleftrightarrow> t \<noteq> tid \<and> holds (sys_lm s) t q))"
proof -
  have inv: "sys_inv s" using reachable_inv [OF assms(1)] .
  then obtain lm where lm: "tm_lock_manager (sys_tm s) = Some lm" "sys_lm s = lm" "lock_inv lm" "txn_id txn = tid"
    using assms(2) by (auto simp: sys_inv_def sys_lm_def)
  obtain q lm1 where u: "UnlockAll (txn\<lparr>txn_state := kCommitted\<rparr>) lm = (q, lm1)" by fastforce
  note U = UnlockAll_holds [OF lm(3) u]
  have r: "r = Inr ()" "txn' = txn\<lparr>txn_state := kCommitted\<rparr>" "tm_lock_manager tm' = Some lm1"
    using assms(3,4) lm(1) u U(1) by (auto simp: tm_Commit_def FinishTransaction_def)
  have "\<not> (\<exists>t. t \<noteq> txn_id other \<and> holds lm1 t rid)"
    using U(2) assms(5) lm(2,4) by auto
  then have "\<exists>lm'. LockExclusive other rid lm1 = (Inr (), lm')"
    using LockExclusive_iff [OF U(3) assms(6), of rid] by simp
  then show ?thesis using r U(2) lm(2,4) by auto
qed

text \<open>A run with two transactions, for the witnesses: the first locks row 7 exclusively.\<close>

definition demo_txn :: "nat \<Rightarrow> Transaction" where
  "demo_txn i = \<lparr>txn_id = i, txn_isolation = kSerializable, txn_state = kActive\<rparr>"

definition demo_sys :: txn_system where
  "demo_sys = \<lparr>sys_tm = \<lparr>tm_lock_manager = Some \<lparr>lock_table = [7 \<mapsto> \<lparr>shared_holders = {}, exclusive_holder = Some 1\<rparr>],
       txn_locks = [1 \<mapsto> {7}]\<rparr>, tm_next_txn_id = 3\<rparr>,
     sys_txns = [1 \<mapsto> demo_txn 1, 2 \<mapsto> demo_txn 2]\<rparr>"

lemma demo_sys_reachable: "reachable demo_sys"
proof -
  let ?s1 = "\<lparr>sys_tm = \<lparr>tm_lock_manager = Some lm_init, tm_next_txn_id = 2\<rparr>, sys_txns = [1 \<mapsto> demo_txn 1]\<rparr>"
  let ?s2 = "\<lparr>sys_tm = \<lparr>tm_lock_manager = Some lm_init, tm_next_txn_id = 3\<rparr>,
    sys_txns = [1 \<mapsto> demo_txn 1, 2 \<mapsto> demo_txn 2]\<rparr>"
  have "sys_step sys_init ?s1"
    using step_begin [of kSerializable sys_init] by (simp add: sys_init_def tm_Begin_def demo_txn_def del: One_nat_def)
  moreover have "sys_step ?s1 ?s2"
    using step_begin [of kSerializable ?s1] by (simp add: tm_Begin_def demo_txn_def)
  moreover have "sys_step ?s2 demo_sys"
    using step_exclusive [of ?s2 1 "demo_txn 1" 7 "Inr ()" "sys_lm demo_sys"]
    by (simp add: LockExclusive_def demo_sys_def sys_lm_def set_lm_def CanAcquireLocks_def demo_txn_def
        entry_of_def lm_init_def grant_def RememberTxnLockOwnership_def)
  ultimately show ?thesis by (metis reach_init reach_step)
qed

lemma demo_sys_lm: "sys_lm demo_sys = \<lparr>lock_table = [7 \<mapsto> \<lparr>shared_holders = {}, exclusive_holder = Some 1\<rparr>],
    txn_locks = [1 \<mapsto> {7}]\<rparr>" "sys_txns demo_sys 1 = Some (demo_txn 1)" "sys_txns demo_sys 2 = Some (demo_txn 2)"
  by (simp_all add: demo_sys_def sys_lm_def)

theorem exclusive_is_exclusive_witness:
  "reachable demo_sys \<and> holds_exclusive (sys_lm demo_sys) 1 7 \<and> \<not> holds (sys_lm demo_sys) 2 7"
proof -
  have "holds_exclusive (sys_lm demo_sys) 1 7" by (simp add: demo_sys_lm holds_exclusive_def entry_of_def)
  then show ?thesis
    using exclusive_is_exclusive [OF demo_sys_reachable, of 1 7 2] demo_sys_reachable by simp
qed

theorem exclusive_granted_iff_witness:
  "reachable demo_sys \<and> sys_txns demo_sys 2 = Some (demo_txn 2) \<and> txn_state (demo_txn 2) = kActive \<and>
   fst (LockExclusive (demo_txn 2) 7 (sys_lm demo_sys)) = Inl kTransactionError"
proof -
  have "holds (sys_lm demo_sys) 1 7" by (simp add: demo_sys_lm holds_def holds_exclusive_def entry_of_def)
  then show ?thesis
    using exclusive_granted_iff [OF demo_sys_reachable demo_sys_lm(3), of 7] demo_sys_reachable demo_sys_lm(3)
    by (auto simp: demo_txn_def)
qed

theorem commit_releases_witness:
  "reachable demo_sys \<and> \<not> holds (sys_lm demo_sys) 2 7 \<and>
   (\<exists>txn' tm' lm lm'. tm_Commit (demo_txn 1) (sys_tm demo_sys) = (Inr (), txn', tm') \<and>
      tm_lock_manager tm' = Some lm \<and> LockExclusive (demo_txn 2) 7 lm = (Inr (), lm'))"
proof -
  have h: "\<forall>t. t \<noteq> 1 \<longrightarrow> \<not> holds (sys_lm demo_sys) t 7"
    by (auto simp: demo_sys_lm holds_def holds_shared_def holds_exclusive_def entry_of_def)
  obtain r txn' tm' where run: "tm_Commit (demo_txn 1) (sys_tm demo_sys) = (r, txn', tm')"
    using prod_cases3 by blast
  show ?thesis
    using commit_releases [OF demo_sys_reachable demo_sys_lm(2) _ run h, of "demo_txn 2"] run h demo_sys_reachable
    by (auto simp: demo_txn_def)
qed


end
