(* ===== verification/Binary_IO.thy ===== *)
theory Binary_IO
  imports Prelude
begin

text \<open>
  The binary codec of \<^verbatim>\<open>src/common/binary_io.cpp\<close>. Writers append to a \<^verbatim>\<open>ByteBuffer\<close>; readers take the
  buffer and an offset and return the value with the advanced offset. The code copies the
  object representation of the integers, which is little-endian on the platforms the
  project builds for.

  Every reader inverts its writer wherever the written bytes stand in the buffer
  (collection \<open>read_at\<close>), and a successful reader has stayed inside the buffer
  (collection \<open>read_bounds\<close>).
\<close>

named_theorems read_at \<open>a reader on the bytes its writer produced\<close>
named_theorems read_bounds \<open>a successful reader stays inside the buffer\<close>

subsection \<open>Object representations\<close>

primrec le_bytes :: "nat \<Rightarrow> nat \<Rightarrow> bytes" where
  "le_bytes 0 n = []"
| "le_bytes (Suc k) n = word_of_nat n # le_bytes k (n div 256)"

primrec le_nat :: "bytes \<Rightarrow> nat" where
  "le_nat [] = 0"
| "le_nat (b # bs) = unat b + 256 * le_nat bs"

definition int64_rep :: "int \<Rightarrow> nat" where
  "int64_rep i = nat (i mod 2 ^ 64)"

definition rep_int64 :: "nat \<Rightarrow> int" where
  "rep_int64 n = (if n < 2 ^ 63 then int n else int n - 2 ^ 64)"

definition char_byte :: "char \<Rightarrow> byte" where
  "char_byte c = word_of_nat (of_char c)"

definition byte_char :: "byte \<Rightarrow> char" where
  "byte_char b = char_of (unat b)"

subsection \<open>Writers\<close>

definition WriteBytes :: "bytes \<Rightarrow> bytes \<Rightarrow> bytes" where
  "WriteBytes buffer data = buffer @ data"

definition WriteUint8 :: "bytes \<Rightarrow> nat \<Rightarrow> bytes" where
  "WriteUint8 buffer value = buffer @ [word_of_nat value]"

definition WriteUint32 :: "bytes \<Rightarrow> nat \<Rightarrow> bytes" where
  "WriteUint32 buffer value = WriteBytes buffer (le_bytes 4 value)"

definition WriteUint64 :: "bytes \<Rightarrow> nat \<Rightarrow> bytes" where
  "WriteUint64 buffer value = WriteBytes buffer (le_bytes 8 value)"

definition WriteInt64 :: "bytes \<Rightarrow> int \<Rightarrow> bytes" where
  "WriteInt64 buffer value = WriteBytes buffer (le_bytes 8 (int64_rep value))"

definition WriteBool :: "bytes \<Rightarrow> bool \<Rightarrow> bytes" where
  "WriteBool buffer value = WriteUint8 buffer (if value then 1 else 0)"

definition WriteString :: "bytes \<Rightarrow> string \<Rightarrow> bytes" where
  "WriteString buffer value =
     WriteBytes (WriteUint32 buffer (length value)) (map char_byte value)"

subsection \<open>Readers\<close>

definition EnsureReadable :: "bytes \<Rightarrow> nat \<Rightarrow> nat \<Rightarrow> unit result" where
  "EnsureReadable bs offset need =
     (if offset > length bs \<or> length bs - offset < need then Inl kInvalidArgument else Inr ())"

definition ReadPod :: "nat \<Rightarrow> bytes \<Rightarrow> nat \<Rightarrow> (nat \<times> nat) result" where
  "ReadPod sz bs offset =
     bindR (EnsureReadable bs offset sz) (\<lambda>_.
       Inr (le_nat (take sz (drop offset bs)), offset + sz))"

definition ReadUint8 :: "bytes \<Rightarrow> nat \<Rightarrow> (nat \<times> nat) result" where
  "ReadUint8 = ReadPod 1"

definition ReadUint32 :: "bytes \<Rightarrow> nat \<Rightarrow> (nat \<times> nat) result" where
  "ReadUint32 = ReadPod 4"

definition ReadUint64 :: "bytes \<Rightarrow> nat \<Rightarrow> (nat \<times> nat) result" where
  "ReadUint64 = ReadPod 8"

definition ReadInt64 :: "bytes \<Rightarrow> nat \<Rightarrow> (int \<times> nat) result" where
  "ReadInt64 bs offset = bindR (ReadPod 8 bs offset) (\<lambda>(n, off). Inr (rep_int64 n, off))"

definition ReadBool :: "bytes \<Rightarrow> nat \<Rightarrow> (bool \<times> nat) result" where
  "ReadBool bs offset =
     bindR (ReadUint8 bs offset) (\<lambda>(raw, off).
       if raw > 1 then Inl kInvalidArgument else Inr (raw = 1, off))"

definition ReadString :: "bytes \<Rightarrow> nat \<Rightarrow> (string \<times> nat) result" where
  "ReadString bs offset =
     bindR (ReadUint32 bs offset) (\<lambda>(sz, off).
     bindR (EnsureReadable bs off sz) (\<lambda>_.
       Inr (map byte_char (take sz (drop off bs)), off + sz)))"

subsection \<open>The writers as appended encodings\<close>

definition enc_string :: "string \<Rightarrow> bytes" where
  "enc_string s = le_bytes 4 (length s) @ map char_byte s"

definition enc_bool :: "bool \<Rightarrow> bytes" where
  "enc_bool b = [if b then 1 else 0]"

lemma le_bytes_1: "le_bytes 1 n = [word_of_nat n]"
  by simp

lemma length_le_bytes [simp]: "length (le_bytes k n) = k"
  by (induction k arbitrary: n) auto

lemma length_enc_string [simp]: "length (enc_string s) = 4 + length s"
  by (simp add: enc_string_def)

lemma length_enc_bool [simp]: "length (enc_bool b) = 1"
  by (simp add: enc_bool_def)

lemma writer_appends:
  "WriteBytes buf bs = buf @ bs"
  "WriteUint8 buf n = buf @ le_bytes 1 n"
  "WriteUint32 buf n = buf @ le_bytes 4 n"
  "WriteUint64 buf n = buf @ le_bytes 8 n"
  "WriteInt64 buf i = buf @ le_bytes 8 (int64_rep i)"
  "WriteBool buf b = buf @ enc_bool b"
  "WriteString buf s = buf @ enc_string s"
  by (simp_all add: WriteBytes_def WriteUint8_def WriteUint32_def WriteUint64_def WriteInt64_def
      WriteBool_def WriteString_def enc_string_def enc_bool_def)

subsection \<open>Object representations are faithful\<close>

lemma le_nat_less: "le_nat bs < 256 ^ length bs"
proof (induction bs)
  case (Cons b bs)
  have "unat b < 256" using unsigned_less [of b] by simp
  with Cons show ?case by simp
qed simp

lemma le_nat_le_bytes: "le_nat (le_bytes k n) = n mod 256 ^ k"
proof (induction k arbitrary: n)
  case (Suc k)
  have "unat (word_of_nat n :: byte) = n mod 256"
    by (simp add: unat_of_nat)
  with Suc show ?case
    by (simp add: mod_mult2_eq)
qed simp

lemma le_bytes_le_nat: "le_bytes (length bs) (le_nat bs) = bs"
proof (induction bs)
  case (Cons b bs)
  have b: "unat b < 256" using unsigned_less [of b] by simp
  have "word_of_nat (unat b + 256 * le_nat bs) = (word_of_nat (unat b) :: byte)"
    using word_of_nat_eq_0_iff [of "256 * le_nat bs", where ?'a = 8] by simp
  moreover have "(unat b + 256 * le_nat bs) div 256 = le_nat bs"
    using b by simp
  ultimately show ?case using Cons by simp
qed simp

lemma byte_char_byte [simp]: "byte_char (char_byte c) = c"
proof -
  have "unat (word_of_nat (of_char c :: nat) :: byte) = of_char c"
    by (simp add: unat_of_nat)
  then show ?thesis by (simp add: byte_char_def char_byte_def)
qed

lemma map_byte_char_byte [simp]: "map (byte_char \<circ> char_byte) s = s"
  by (simp add: o_def)

lemma rep_int64_rep: "- (2 ^ 63) \<le> i \<Longrightarrow> i < 2 ^ 63 \<Longrightarrow> rep_int64 (int64_rep i) = i"
proof (cases "i < 0")
  case True
  assume lo: "- (2 ^ 63) \<le> i"
  have "i mod 2 ^ 64 = (i + 2 ^ 64) mod 2 ^ 64" by simp
  also have "\<dots> = i + 2 ^ 64" using lo True by (intro mod_pos_pos_trivial) auto
  finally show ?thesis using lo True by (simp add: rep_int64_def int64_rep_def)
next
  case False
  assume "i < 2 ^ 63"
  with False have "i mod 2 ^ 64 = i" by (intro mod_pos_pos_trivial) auto
  with False \<open>i < 2 ^ 63\<close> show ?thesis by (simp add: rep_int64_def int64_rep_def)
qed

lemma int64_rep_less: "int64_rep i < 2 ^ 64"
  by (simp add: int64_rep_def nat_less_iff)

lemma rep_int64_range: "n < 2 ^ 64 \<Longrightarrow> - (2 ^ 63) \<le> rep_int64 n \<and> rep_int64 n < 2 ^ 63"
  by (auto simp: rep_int64_def)

subsection \<open>Readers on written bytes\<close>

lemma EnsureReadable_Inr [simp]: "EnsureReadable bs off n = Inr u \<longleftrightarrow> off + n \<le> length bs"
  by (auto simp: EnsureReadable_def)

lemma EnsureReadable_ok: "off + n \<le> length bs \<Longrightarrow> EnsureReadable bs off n = Inr ()"
  by simp

lemma EnsureReadable_fail: "\<not> off + n \<le> length bs \<Longrightarrow> EnsureReadable bs off n = Inl kInvalidArgument"
  by (auto simp: EnsureReadable_def)

lemma ReadPod_at:
  assumes "has_at bs off (le_bytes k n)" and "n < 256 ^ k"
  shows "ReadPod k bs off = Inr (n, off + k)"
  using assms has_at_le [OF assms(1)] has_at_take [OF assms(1)]
  by (simp add: ReadPod_def EnsureReadable_ok le_nat_le_bytes)

lemma ReadUint8_at [read_at]:
  "has_at bs off (le_bytes 1 n) \<Longrightarrow> n < 2 ^ 8 \<Longrightarrow> ReadUint8 bs off = Inr (n, off + 1)"
  by (simp add: ReadUint8_def ReadPod_at)

lemma ReadUint32_at [read_at]:
  "has_at bs off (le_bytes 4 n) \<Longrightarrow> n < 2 ^ 32 \<Longrightarrow> ReadUint32 bs off = Inr (n, off + 4)"
  by (simp add: ReadUint32_def ReadPod_at)

lemma ReadUint64_at [read_at]:
  "has_at bs off (le_bytes 8 n) \<Longrightarrow> n < 2 ^ 64 \<Longrightarrow> ReadUint64 bs off = Inr (n, off + 8)"
  by (simp add: ReadUint64_def ReadPod_at)

lemma ReadInt64_at [read_at]:
  assumes "has_at bs off (le_bytes 8 (int64_rep i))" "- (2 ^ 63) \<le> i" "i < 2 ^ 63"
  shows "ReadInt64 bs off = Inr (i, off + 8)"
  using assms int64_rep_less [of i] by (simp add: ReadInt64_def ReadPod_at rep_int64_rep)

lemma ReadBool_at [read_at]:
  assumes "has_at bs off (enc_bool b)"
  shows "ReadBool bs off = Inr (b, off + 1)"
proof -
  have "enc_bool b = le_bytes 1 (if b then 1 else 0)"
    by (simp add: enc_bool_def le_bytes_1)
  with assms show ?thesis by (simp add: ReadBool_def ReadUint8_at)
qed

lemma ReadString_at [read_at]:
  assumes "has_at bs off (enc_string s)" "length s < 2 ^ 32"
  shows "ReadString bs off = Inr (s, off + 4 + length s)"
proof -
  have "has_at bs off (le_bytes 4 (length s))" and s: "has_at bs (off + 4) (map char_byte s)"
    using assms(1) by (auto simp: enc_string_def)
  then have "ReadUint32 bs off = Inr (length s, off + 4)"
    using assms(2) by (simp add: ReadUint32_at)
  moreover have "take (length s) (drop (off + 4) bs) = map char_byte s"
    using has_at_take [OF s] by simp
  moreover have "off + 4 + length s \<le> length bs"
    using has_at_le [OF s] by simp
  ultimately show ?thesis
    by (simp add: ReadString_def EnsureReadable_ok)
qed

subsection \<open>Successful readers stay inside the buffer\<close>

lemma ReadPod_bounds:
  "ReadPod k bs off = Inr (n, off') \<Longrightarrow> off' = off + k \<and> off' \<le> length bs \<and> n < 256 ^ k"
proof -
  assume r: "ReadPod k bs off = Inr (n, off')"
  then have le: "off + k \<le> length bs" and n: "n = le_nat (take k (drop off bs))" and "off' = off + k"
    by (auto simp: ReadPod_def exec_iffs)
  have "le_nat (take k (drop off bs)) < 256 ^ length (take k (drop off bs))"
    by (rule le_nat_less)
  also have "length (take k (drop off bs)) = k" using le by simp
  finally show ?thesis using le n \<open>off' = off + k\<close> by simp
qed

lemma ReadUint8_bounds [read_bounds]:
  "ReadUint8 bs off = Inr (n, off') \<Longrightarrow> off' = off + 1 \<and> off' \<le> length bs \<and> n < 2 ^ 8"
  unfolding ReadUint8_def by (drule ReadPod_bounds) simp

lemma ReadUint32_bounds [read_bounds]:
  "ReadUint32 bs off = Inr (n, off') \<Longrightarrow> off' = off + 4 \<and> off' \<le> length bs \<and> n < 2 ^ 32"
  unfolding ReadUint32_def by (drule ReadPod_bounds) simp

lemma ReadUint64_bounds [read_bounds]:
  "ReadUint64 bs off = Inr (n, off') \<Longrightarrow> off' = off + 8 \<and> off' \<le> length bs \<and> n < 2 ^ 64"
  unfolding ReadUint64_def by (drule ReadPod_bounds) simp

lemma ReadInt64_bounds [read_bounds]:
  assumes "ReadInt64 bs off = Inr (i, off')"
  shows "off' = off + 8 \<and> off' \<le> length bs \<and> - (2 ^ 63) \<le> i \<and> i < 2 ^ 63"
proof -
  from assms obtain n where "ReadPod 8 bs off = Inr (n, off')" and i: "i = rep_int64 n"
    by (auto simp: ReadInt64_def exec_iffs)
  then have "off' = off + 8 \<and> off' \<le> length bs" and "n < 2 ^ 64"
    by (auto dest: ReadPod_bounds)
  with i rep_int64_range [of n] show ?thesis by simp
qed

lemma ReadBool_bounds [read_bounds]:
  "ReadBool bs off = Inr (b, off') \<Longrightarrow> off' = off + 1 \<and> off' \<le> length bs"
  by (auto simp: ReadBool_def exec_iffs split: if_splits dest: ReadUint8_bounds)

lemma ReadString_bounds [read_bounds]:
  "ReadString bs off = Inr (s, off') \<Longrightarrow> off' = off + 4 + length s \<and> off' \<le> length bs \<and> length s < 2 ^ 32"
  by (auto simp: ReadString_def exec_iffs min_def dest!: ReadUint32_bounds)

subsection \<open>Counted sequences\<close>

text \<open>A loop that reads a counted sequence of elements, used by the catalog and index formats.\<close>

primrec read_n :: "(bytes \<Rightarrow> nat \<Rightarrow> ('a \<times> nat) result) \<Rightarrow> nat \<Rightarrow> bytes \<Rightarrow> nat \<Rightarrow> ('a list \<times> nat) result" where
  "read_n rd 0 bs offset = Inr ([], offset)"
| "read_n rd (Suc n) bs offset =
     bindR (rd bs offset) (\<lambda>(x, off). bindR (read_n rd n bs off) (\<lambda>(xs, off). Inr (x # xs, off)))"

text \<open>
  \<open>decodes rd e x\<close>: wherever the bytes \<open>e\<close> stand in a buffer, the reader \<open>rd\<close> started there returns \<open>x\<close> and stops
  right after them. The rules compose readers along the concatenation of their encodings.
\<close>

definition decodes :: "(bytes \<Rightarrow> nat \<Rightarrow> ('a \<times> nat) result) \<Rightarrow> bytes \<Rightarrow> 'a \<Rightarrow> bool" where
  "decodes rd e x \<longleftrightarrow> (\<forall>bs off. has_at bs off e \<longrightarrow> rd bs off = Inr (x, off + length e))"

named_theorems decodes_intros \<open>readers along the concatenation of their encodings\<close>

lemma decodesD: "decodes rd e x \<Longrightarrow> has_at bs off e \<Longrightarrow> rd bs off = Inr (x, off + length e)"
  by (simp add: decodes_def)

lemma decodes_self: "decodes rd e x \<Longrightarrow> rd e 0 = Inr (x, length e)"
  using decodesD [of rd e x e 0] by (simp add: has_at_def)

lemma decodes_bind:
  assumes "decodes rd e x" "decodes (\<lambda>bs off. f x off bs) e' y"
  shows "decodes (\<lambda>bs off. bindR (rd bs off) (\<lambda>(x, off). f x off bs)) (e @ e') y"
  using assms by (auto simp: decodes_def add.assoc)

lemma decodes_ret [decodes_intros]: "x = y \<Longrightarrow> decodes (\<lambda>bs off. Inr (x, off)) [] y"
  by (auto simp: decodes_def)

lemma decodes_last: "decodes rd e x \<Longrightarrow> e = e' \<Longrightarrow> decodes rd e' x"
  by simp

lemma decodes_bool: "decodes ReadBool (enc_bool b) b"
  by (auto simp: decodes_def ReadBool_at)

lemma decodes_u32: "n < 2 ^ 32 \<Longrightarrow> decodes ReadUint32 (le_bytes 4 n) n"
  by (auto simp: decodes_def ReadUint32_at)

lemma decodes_u64: "n < 2 ^ 64 \<Longrightarrow> decodes ReadUint64 (le_bytes 8 n) n"
  by (auto simp: decodes_def ReadUint64_at)

lemma decodes_string: "length s < 2 ^ 32 \<Longrightarrow> decodes ReadString (enc_string s) s"
  by (auto simp: decodes_def ReadString_at add.assoc)

lemma decodes_read_n [decodes_intros]:
  "n = length xs \<Longrightarrow> (\<And>x. x \<in> set xs \<Longrightarrow> decodes rd (enc x) x) \<Longrightarrow>
    decodes (\<lambda>bs off. read_n rd n bs off) (concat (map enc xs)) xs"
proof (induction xs arbitrary: n)
  case (Cons x xs)
  have "decodes (\<lambda>bs off. read_n rd (Suc (length xs)) bs off) (enc x @ concat (map enc xs) @ []) (x # xs)"
    unfolding read_n.simps using Cons by (intro decodes_bind [where x = x] decodes_bind [where x = xs] decodes_ret) auto
  then show ?case using Cons.prems by simp
qed (simp add: decodes_def)

lemmas decodes_binds [decodes_intros] =
  decodes_bind [OF decodes_bool] decodes_bind [OF decodes_u32] decodes_bind [OF decodes_u64]
  decodes_bind [OF decodes_string] decodes_bind [OF decodes_read_n]

lemma fold_appends:
  "(\<And>x buf. f x buf = buf @ enc x) \<Longrightarrow> fold f xs buf = buf @ concat (map enc xs)"
  by (induction xs arbitrary: buf) simp_all

end
