(* ===== verification/File_System.thy ===== *)
theory File_System
  imports Binary_IO
begin

text \<open>
  The file system the storage code runs on, and \<^verbatim>\<open>src/common/file_utils.cpp\<close> over it.

  A \<open>file_system\<close> holds the contents of the regular files, the directories, and a schedule of
  faults: every system operation consumes one entry of \<open>fs_faults\<close>; \<open>IoFail k\<close> makes it fail, a
  write after \<open>k\<close> of its bytes have reached the file (a torn write), and an exhausted schedule
  means that no further operation fails. Thus each I/O error branch of the code is a branch of
  the model. A write reaches the file when it is issued: the buffering of the streams is not modelled.
\<close>

datatype io_event = IoOk | IoFail nat

record file_system =
  fs_files :: "string \<rightharpoonup> bytes"
  fs_dirs :: "string set"
  fs_faults :: "io_event list"

definition fs_tick :: "file_system \<Rightarrow> nat option \<times> file_system" where
  "fs_tick fs = (case fs_faults fs of
       [] \<Rightarrow> (None, fs)
     | ev # evs \<Rightarrow> (case ev of IoOk \<Rightarrow> None | IoFail k \<Rightarrow> Some k, fs\<lparr>fs_faults := evs\<rparr>))"

subsection \<open>Paths\<close>

definition dir_of :: "string \<Rightarrow> string" where
  "dir_of path = (case dropWhile (\<lambda>c. c \<noteq> CHR ''/'') (rev path) of [] \<Rightarrow> [] | _ # r \<Rightarrow> rev r)"

primrec slash_prefixes :: "string \<Rightarrow> string \<Rightarrow> string list" where
  "slash_prefixes acc [] = [acc]"
| "slash_prefixes acc (c # cs) =
     (if c = CHR ''/'' then acc # slash_prefixes (acc @ [c]) cs else slash_prefixes (acc @ [c]) cs)"

definition path_prefixes :: "string \<Rightarrow> string list" where
  "path_prefixes path = filter (\<lambda>p. p \<noteq> []) (slash_prefixes [] path)"

definition has_dir :: "file_system \<Rightarrow> string \<Rightarrow> bool" where
  "has_dir fs d \<longleftrightarrow> d = [] \<or> d \<in> fs_dirs fs"

subsection \<open>Stream operations\<close>

text \<open>Each returns whether the stream is still good, with the new file system.\<close>

definition stream_seek :: "file_system \<Rightarrow> bool \<times> file_system" where
  "stream_seek fs = (case fs_tick fs of (ev, fs') \<Rightarrow> (ev = None, fs'))"

definition stream_open :: "string \<Rightarrow> file_system \<Rightarrow> bool \<times> file_system" where
  "stream_open path fs = (case fs_tick fs of (ev, fs') \<Rightarrow> (ev = None \<and> path \<in> dom (fs_files fs'), fs'))"

definition stream_create :: "string \<Rightarrow> file_system \<Rightarrow> bool \<times> file_system" where
  "stream_create path fs = (case fs_tick fs of (ev, fs') \<Rightarrow>
     if ev = None \<and> path \<notin> fs_dirs fs' \<and> has_dir fs' (dir_of path)
     then (True, fs'\<lparr>fs_files := (fs_files fs')(path \<mapsto> [])\<rparr>) else (False, fs'))"

definition file_bytes :: "file_system \<Rightarrow> string \<Rightarrow> bytes" where
  "file_bytes fs path = (case fs_files fs path of None \<Rightarrow> [] | Some c \<Rightarrow> c)"

definition stream_write :: "string \<Rightarrow> nat \<Rightarrow> bytes \<Rightarrow> file_system \<Rightarrow> bool \<times> file_system" where
  "stream_write path off data fs = (case fs_tick fs of (ev, fs') \<Rightarrow>
     (ev = None,
      fs'\<lparr>fs_files := (fs_files fs')(path \<mapsto>
        splice (file_bytes fs' path) off (case ev of None \<Rightarrow> data | Some k \<Rightarrow> take k data))\<rparr>))"

definition stream_read :: "string \<Rightarrow> nat \<Rightarrow> nat \<Rightarrow> file_system \<Rightarrow> (bool \<times> bytes) \<times> file_system" where
  "stream_read path off n fs = (case fs_tick fs of (ev, fs') \<Rightarrow>
     let got = take n (drop off (file_bytes fs' path)) in
       (case ev of None \<Rightarrow> (length got = n, got) | Some k \<Rightarrow> (False, take k got), fs'))"

definition ioS :: "StatusCode \<Rightarrow> (file_system \<Rightarrow> bool \<times> file_system) \<Rightarrow> (file_system, unit) stm" where
  "ioS e m fs = (case m fs of (ok, fs') \<Rightarrow> (if ok then Inr () else Inl e, fs'))"

definition readS :: "StatusCode \<Rightarrow> (file_system \<Rightarrow> (bool \<times> bytes) \<times> file_system) \<Rightarrow> (file_system, bytes) stm" where
  "readS e m fs = (case m fs of ((ok, bs), fs') \<Rightarrow> (if ok then Inr bs else Inl e, fs'))"

subsection \<open>The operations of file\_utils.cpp\<close>

definition EnsureDir :: "string \<Rightarrow> (file_system, unit) stm" where
  "EnsureDir path fs = (case fs_tick fs of (ev, fs') \<Rightarrow>
     if ev = None \<and> (\<forall>p \<in> set (path_prefixes path). p \<notin> dom (fs_files fs'))
     then (Inr (), fs'\<lparr>fs_dirs := fs_dirs fs' \<union> set (path_prefixes path)\<rparr>) else (Inl kIoError, fs'))"

definition dir_empty :: "file_system \<Rightarrow> string \<Rightarrow> bool" where
  "dir_empty fs d \<longleftrightarrow> (\<forall>p \<in> dom (fs_files fs) \<union> fs_dirs fs. dir_of p \<noteq> d)"

definition RemoveFile :: "string \<Rightarrow> (file_system, unit) stm" where
  "RemoveFile path fs = (case fs_tick fs of (ev, fs') \<Rightarrow>
     if ev \<noteq> None \<or> (path \<in> fs_dirs fs' \<and> \<not> dir_empty fs' path) then (Inl kInternalError, fs')
     else (Inr (), fs'\<lparr>fs_files := (fs_files fs')(path := None), fs_dirs := fs_dirs fs' - {path}\<rparr>))"

definition FileExists :: "string \<Rightarrow> (file_system, bool) stm" where
  "FileExists path fs = (case fs_tick fs of (ev, fs') \<Rightarrow>
     if ev = None then (Inr (path \<in> dom (fs_files fs') \<or> path \<in> fs_dirs fs'), fs')
     else (Inl kInternalError, fs'))"

definition ReadAllBytes :: "string \<Rightarrow> (file_system, bytes) stm" where
  "ReadAllBytes path =
     bindS (ioS kInternalError (stream_open path)) (\<lambda>_.
     bindS (ioS kInternalError stream_seek) (\<lambda>_.
     bindS (gets (\<lambda>fs. length (file_bytes fs path))) (\<lambda>sz.
     bindS (ioS kInternalError stream_seek) (\<lambda>_.
       if sz > 0 then readS kInternalError (stream_read path 0 sz) else ret []))))"

definition WriteAllBytes :: "string \<Rightarrow> bytes \<Rightarrow> (file_system, unit) stm" where
  "WriteAllBytes path data =
     bindS (ioS kInternalError (stream_create path)) (\<lambda>_.
       ioS kInternalError (stream_write path 0 data))"

subsection \<open>Fault-free runs\<close>

abbreviation no_faults :: "file_system \<Rightarrow> bool" where
  "no_faults fs \<equiv> fs_faults fs = []"

lemma fs_tick_ok [simp]: "no_faults fs \<Longrightarrow> fs_tick fs = (None, fs)"
  by (simp add: fs_tick_def)

lemma stream_seek_ok [simp]: "no_faults fs \<Longrightarrow> stream_seek fs = (True, fs)"
  by (simp add: stream_seek_def)

lemma stream_open_ok [simp]:
  "no_faults fs \<Longrightarrow> stream_open path fs = (path \<in> dom (fs_files fs), fs)"
  by (simp add: stream_open_def)

lemma stream_write_ok:
  "no_faults fs \<Longrightarrow> stream_write path off data fs =
     (True, fs\<lparr>fs_files := (fs_files fs)(path \<mapsto> splice (file_bytes fs path) off data)\<rparr>)"
  by (simp add: stream_write_def)

lemma stream_read_ok:
  "no_faults fs \<Longrightarrow> off + n \<le> length (file_bytes fs path) \<Longrightarrow>
     stream_read path off n fs = ((True, take n (drop off (file_bytes fs path))), fs)"
  by (simp add: stream_read_def Let_def)

lemma file_bytes_Some [simp]: "fs_files fs path = Some c \<Longrightarrow> file_bytes fs path = c"
  by (simp add: file_bytes_def)

lemma file_bytes_upd [simp]:
  "file_bytes (fs\<lparr>fs_files := (fs_files fs)(p \<mapsto> c)\<rparr>) q = (if q = p then c else file_bytes fs q)"
  by (simp add: file_bytes_def)

lemma WriteAllBytes_ok:
  assumes "no_faults fs" "path \<notin> fs_dirs fs" "has_dir fs (dir_of path)"
  shows "WriteAllBytes path data fs = (Inr (), fs\<lparr>fs_files := (fs_files fs)(path \<mapsto> data)\<rparr>)"
  using assms
  by (simp add: WriteAllBytes_def bindS_def ioS_def stream_create_def stream_write_ok file_bytes_def
      splice_def)

lemma ReadAllBytes_ok:
  assumes "no_faults fs" "fs_files fs path = Some c"
  shows "ReadAllBytes path fs = (Inr c, fs)"
  using assms
  by (auto simp: ReadAllBytes_def bindS_def ioS_def readS_def stream_read_ok domI)

subsection \<open>Frame and fault monotonicity\<close>

text \<open>Whatever the faults, a stream operation on one path leaves the other files alone.\<close>

lemma fs_tick_files [simp]:
  "fs_tick fs = (ev, fs') \<Longrightarrow> fs_files fs' = fs_files fs \<and> fs_dirs fs' = fs_dirs fs"
  by (auto simp: fs_tick_def split: list.splits prod.splits)

lemma stream_write_other:
  "stream_write path off data fs = (ok, fs') \<Longrightarrow> q \<noteq> path \<Longrightarrow> fs_files fs' q = fs_files fs q"
  by (auto simp: stream_write_def split: prod.splits dest!: fs_tick_files)

lemma stream_write_torn:
  assumes "stream_write path off data fs = (ok, fs')"
  shows "\<exists>k. fs_files fs' path = Some (splice (file_bytes fs path) off (take k data)) \<and> (ok \<longrightarrow> k = length data)
    \<and> fs_dirs fs' = fs_dirs fs"
proof -
  obtain ev fs1 where t: "fs_tick fs = (ev, fs1)" by fastforce
  have "fs_files fs1 = fs_files fs" "fs_dirs fs1 = fs_dirs fs" using t fs_tick_files by blast+
  then have "file_bytes fs1 path = file_bytes fs path" by (simp add: file_bytes_def)
  then show ?thesis
    using assms t \<open>fs_dirs fs1 = fs_dirs fs\<close>
    by (cases ev) (auto simp: stream_write_def intro: exI [of _ "length data"])
qed

lemma stream_seek_files:
  "stream_seek fs = (ok, fs') \<Longrightarrow> fs_files fs' = fs_files fs \<and> fs_dirs fs' = fs_dirs fs"
  by (auto simp: stream_seek_def split: prod.splits)

lemma stream_read_files:
  "stream_read path off n fs = (r, fs') \<Longrightarrow> fs_files fs' = fs_files fs \<and> fs_dirs fs' = fs_dirs fs"
  by (auto simp: stream_read_def Let_def split: prod.splits option.splits)

end
