(* ===== verification/Page_Manager.thy ===== *)
theory Page_Manager
  imports File_System
begin

text \<open>
  \<^verbatim>\<open>src/storage/page_manager.cpp\<close>: a file of a 32-byte header followed by \<open>page_count\<close> pages of
  \<open>page_size\<close> bytes. The object is the record \<open>page_manager\<close>; its methods run on the pair of the file system
  and the object.

  The interface the stores above rely on is the locale \<open>page_store\<close> (an array of pages), which
  the page manager is shown to provide. \<open>pm_wf\<close> is kept by every method under every fault
  schedule; \<open>pm_clean\<close> is the exact layout, which \<open>Open\<close> accepts.
\<close>

subsection \<open>The file header\<close>

record PageFileHeader =
  hdr_magic :: bytes
  hdr_version :: nat
  hdr_page_size :: nat
  hdr_page_count :: nat

definition kPageFileMagic :: bytes where
  "kPageFileMagic = map char_byte ''CDBPAGE1''"

definition kPageFileVersion :: nat where
  "kPageFileVersion = 1"

text \<open>The object representation of the header on the wire: the compiler pads \<open>version\<close> to 8 bytes.\<close>

definition header_rep :: "PageFileHeader \<Rightarrow> bytes" where
  "header_rep h = hdr_magic h @ le_bytes 4 (hdr_version h) @ replicate 4 0
     @ le_bytes 8 (hdr_page_size h) @ le_bytes 8 (hdr_page_count h)"

definition rep_header :: "bytes \<Rightarrow> PageFileHeader" where
  "rep_header bs = \<lparr>hdr_magic = take 8 bs, hdr_version = le_nat (take 4 (drop 8 bs)),
     hdr_page_size = le_nat (take 8 (drop 16 bs)), hdr_page_count = le_nat (take 8 (drop 24 bs))\<rparr>"

definition HeaderSize :: nat where
  "HeaderSize = 32"

definition MakeHeader :: "nat \<Rightarrow> nat \<Rightarrow> PageFileHeader" where
  "MakeHeader page_size page_count = \<lparr>hdr_magic = kPageFileMagic, hdr_version = kPageFileVersion,
     hdr_page_size = page_size, hdr_page_count = page_count\<rparr>"

definition WriteHeader :: "string \<Rightarrow> nat \<Rightarrow> nat \<Rightarrow> (file_system, unit) stm" where
  "WriteHeader path page_size page_count =
     bindS (ioS kIoError stream_seek) (\<lambda>_.
       ioS kIoError (stream_write path 0 (header_rep (MakeHeader page_size page_count))))"

definition ReadHeader :: "string \<Rightarrow> (file_system, PageFileHeader) stm" where
  "ReadHeader path =
     bindS (ioS kIoError stream_seek) (\<lambda>_.
     bindS (readS kIoError (stream_read path 0 HeaderSize)) (\<lambda>bs. ret (rep_header bs)))"

definition HeaderMagicMatches :: "PageFileHeader \<Rightarrow> bool" where
  "HeaderMagicMatches h \<longleftrightarrow> hdr_magic h = kPageFileMagic"

definition PageOffset :: "nat \<Rightarrow> nat \<Rightarrow> nat" where
  "PageOffset pid page_size = (HeaderSize + pid * page_size) mod 2 ^ 64"

subsection \<open>The object and its methods\<close>

record page_manager =
  pm_file_path :: string
  pm_page_size :: nat
  pm_is_open :: bool
  pm_page_count :: nat

type_synonym pm_state = "file_system \<times> page_manager"

definition PageManager :: "string \<Rightarrow> nat \<Rightarrow> page_manager" where
  "PageManager path page_size =
     \<lparr>pm_file_path = path, pm_page_size = page_size, pm_is_open = False, pm_page_count = 0\<rparr>"

text \<open>A file-system operation inside a method.\<close>

definition on_fs :: "(file_system, 'a) stm \<Rightarrow> (file_system \<times> 'c, 'a) stm" where
  "on_fs m = zoom fst (\<lambda>fs s. (fs, snd s)) m"

definition on_obj :: "('c \<Rightarrow> 'c) \<Rightarrow> (file_system \<times> 'c, unit) stm" where
  "on_obj f = modify (\<lambda>(fs, c). (fs, f c))"

definition ensure_parent :: "string \<Rightarrow> (file_system, unit) stm" where
  "ensure_parent path = (let dir = dir_of path in if dir \<noteq> [] then EnsureDir dir else ret ())"

definition create_page_file :: "string \<Rightarrow> nat \<Rightarrow> (file_system, unit) stm" where
  "create_page_file path page_size =
     bindS (ioS kIoError (stream_create path)) (\<lambda>_.
       ioS kIoError (stream_write path 0 (header_rep (MakeHeader page_size 0))))"

definition check_page_file :: "string \<Rightarrow> nat \<Rightarrow> (file_system, nat) stm" where
  "check_page_file path page_size =
     bindS (ioS kIoError (stream_open path)) (\<lambda>_.
     bindS (ioS kIoError stream_seek) (\<lambda>_.
     bindS (gets (\<lambda>fs. length (file_bytes fs path))) (\<lambda>sz.
     bindS (guardS (sz \<ge> HeaderSize) kInvalidArgument) (\<lambda>_.
     bindS (ReadHeader path) (\<lambda>header.
     bindS (guardS (HeaderMagicMatches header) kInvalidArgument) (\<lambda>_.
     bindS (guardS (hdr_version header = kPageFileVersion) kInvalidArgument) (\<lambda>_.
     bindS (guardS (hdr_page_size header = page_size) kInvalidArgument) (\<lambda>_.
     let payload_size = sz - HeaderSize in
     bindS (guardS (payload_size mod page_size = 0) kInvalidArgument) (\<lambda>_.
     let computed_page_count = payload_size div page_size in
     bindS (guardS (hdr_page_count header = computed_page_count) kInvalidArgument) (\<lambda>_.
       ret computed_page_count))))))))))"

definition pm_Open :: "(pm_state, unit) stm" where
  "pm_Open =
     bindS (gets snd) (\<lambda>pm.
     if pm_is_open pm then ret () else
     bindS (guardS (pm_file_path pm \<noteq> [] \<and> pm_page_size pm \<noteq> 0) kInvalidArgument) (\<lambda>_.
     bindS (on_fs (ensure_parent (pm_file_path pm))) (\<lambda>_.
     bindS (on_fs (FileExists (pm_file_path pm))) (\<lambda>exists.
     bindS (if \<not> exists then on_fs (create_page_file (pm_file_path pm) (pm_page_size pm)) else ret ()) (\<lambda>_.
     bindS (on_fs (check_page_file (pm_file_path pm) (pm_page_size pm))) (\<lambda>count.
       on_obj (\<lambda>pm. pm\<lparr>pm_page_count := count, pm_is_open := True\<rparr>)))))))"

definition ReadPage :: "nat \<Rightarrow> (pm_state, bytes) stm" where
  "ReadPage pid =
     bindS (gets snd) (\<lambda>pm.
     bindS (guardS (pm_is_open pm) kInternalError) (\<lambda>_.
     bindS (guardS (pid < pm_page_count pm) kNotFound) (\<lambda>_.
     let offset = PageOffset pid (pm_page_size pm) in
     bindS (on_fs (ioS kIoError stream_seek)) (\<lambda>_.
       on_fs (readS kIoError (stream_read (pm_file_path pm) offset (pm_page_size pm)))))))"

definition WritePage :: "nat \<Rightarrow> bytes \<Rightarrow> (pm_state, unit) stm" where
  "WritePage pid data =
     bindS (gets snd) (\<lambda>pm.
     bindS (guardS (pm_is_open pm) kInternalError) (\<lambda>_.
     bindS (guardS (pid < pm_page_count pm) kNotFound) (\<lambda>_.
     bindS (guardS (length data = pm_page_size pm) kInvalidArgument) (\<lambda>_.
     let offset = PageOffset pid (pm_page_size pm) in
     bindS (on_fs (ioS kIoError stream_seek)) (\<lambda>_.
       on_fs (ioS kIoError (stream_write (pm_file_path pm) offset data)))))))"

definition AllocatePage :: "(pm_state, nat) stm" where
  "AllocatePage =
     bindS (gets snd) (\<lambda>pm.
     bindS (guardS (pm_is_open pm) kInternalError) (\<lambda>_.
     bindS (on_fs (ioS kIoError stream_seek)) (\<lambda>_.
     bindS (gets (\<lambda>(fs, _). length (file_bytes fs (pm_file_path pm)))) (\<lambda>end_pos.
     bindS (on_fs (ioS kIoError (stream_write (pm_file_path pm) end_pos (replicate (pm_page_size pm) 0)))) (\<lambda>_.
     let out = pm_page_count pm; count = (pm_page_count pm + 1) mod 2 ^ 64 in
     bindS (on_obj (\<lambda>pm. pm\<lparr>pm_page_count := count\<rparr>)) (\<lambda>_.
     bindS (on_fs (WriteHeader (pm_file_path pm) (pm_page_size pm) count)) (\<lambda>_.
       ret out)))))))"

definition pm_Flush :: "(pm_state, unit) stm" where
  "pm_Flush =
     bindS (gets snd) (\<lambda>pm.
     bindS (guardS (pm_is_open pm) kInternalError) (\<lambda>_.
       on_fs (ioS kIoError stream_seek)))"

subsection \<open>The pages a page manager holds\<close>

definition pm_content :: "pm_state \<Rightarrow> bytes" where
  "pm_content s = file_bytes (fst s) (pm_file_path (snd s))"

definition page_at :: "bytes \<Rightarrow> nat \<Rightarrow> nat \<Rightarrow> bytes" where
  "page_at c ps i = take ps (drop (HeaderSize + i * ps) c)"

definition pm_pages :: "pm_state \<Rightarrow> bytes list" where
  "pm_pages s = map (page_at (pm_content s) (pm_page_size (snd s))) [0..<pm_page_count (snd s)]"

definition pm_wf :: "pm_state \<Rightarrow> bool" where
  "pm_wf s \<longleftrightarrow> (case s of (fs, pm) \<Rightarrow> pm_is_open pm \<longrightarrow>
     0 < pm_page_size pm \<and> pm_file_path pm \<in> dom (fs_files fs) \<and>
     HeaderSize + pm_page_count pm * pm_page_size pm \<le> length (pm_content s))"

definition pm_clean :: "pm_state \<Rightarrow> bool" where
  "pm_clean s \<longleftrightarrow> (case s of (fs, pm) \<Rightarrow> no_faults fs \<and> pm_is_open pm \<and>
     0 < pm_page_size pm \<and> pm_page_size pm < 2 ^ 64 \<and> pm_file_path pm \<in> dom (fs_files fs) \<and>
     length (pm_content s) = HeaderSize + pm_page_count pm * pm_page_size pm \<and>
     length (pm_content s) < 2 ^ 64 \<and>
     take HeaderSize (pm_content s) = header_rep (MakeHeader (pm_page_size pm) (pm_page_count pm)))"

text \<open>The file may grow by one more page within the 64-bit offsets.\<close>

definition pm_room :: "nat \<Rightarrow> pm_state \<Rightarrow> bool" where
  "pm_room n s \<longleftrightarrow>
     HeaderSize + (pm_page_count (snd s) + n) * pm_page_size (snd s) < 2 ^ 64"

subsection \<open>The interface: an array of pages\<close>

locale page_store =
  fixes pages :: "'s \<Rightarrow> bytes list"
    and ok :: "'s \<Rightarrow> bool"
    and room :: "nat \<Rightarrow> 's \<Rightarrow> bool"
    and psize :: "'s \<Rightarrow> nat"
    and frame :: "'s \<Rightarrow> 's \<Rightarrow> bool"
    and pread :: "nat \<Rightarrow> ('s, bytes) stm"
    and pwrite :: "nat \<Rightarrow> bytes \<Rightarrow> ('s, unit) stm"
    and palloc :: "('s, nat) stm"
  assumes read_in: "ok s \<Longrightarrow> i < length (pages s) \<Longrightarrow> pread i s = (Inr (pages s ! i), s)"
    and read_out: "ok s \<Longrightarrow> \<not> i < length (pages s) \<Longrightarrow> pread i s = (Inl kNotFound, s)"
    and write_in: "ok s \<Longrightarrow> i < length (pages s) \<Longrightarrow> length d = psize s \<Longrightarrow>
      \<exists>s'. pwrite i d s = (Inr (), s') \<and> ok s' \<and> pages s' = (pages s)[i := d] \<and> frame s s'"
    and alloc_in: "ok s \<Longrightarrow> room (Suc n) s \<Longrightarrow>
      \<exists>s'. palloc s = (Inr (length (pages s)), s') \<and> ok s' \<and>
           pages s' = pages s @ [replicate (psize s) 0] \<and> room n s' \<and> frame s s'"
    and page_length: "ok s \<Longrightarrow> p \<in> set (pages s) \<Longrightarrow> length p = psize s"
    and frame_psize: "frame s s' \<Longrightarrow> psize s' = psize s"
    and frame_refl: "frame s s"
    and frame_trans: "frame s s' \<Longrightarrow> frame s' s'' \<Longrightarrow> frame s s''"
    and room_pages: "frame s s' \<Longrightarrow> length (pages s') = length (pages s) \<Longrightarrow> room n s \<Longrightarrow> room n s'"
begin

text \<open>Reading a run of pages returns exactly those pages and changes nothing.\<close>

lemma read_run:
  assumes "ok s" "j \<le> length (pages s)"
  shows "mapS pread [i..<j] s = (Inr (map (nth (pages s)) [i..<j]), s)"
  using assms by (intro mapS_pure) (auto simp: read_in)

text \<open>What is written is what is read back, and every other page reads as before.\<close>

lemma write_read:
  assumes "ok s" "i < length (pages s)" "length d = psize s" "pwrite i d s = (Inr (), s')"
    "j < length (pages s)"
  shows "pread j s' = (Inr (if j = i then d else pages s ! j), s')"
  using assms write_in [of s i d] by (auto simp: read_in)

text \<open>A fresh page that is then written becomes the last page.\<close>

lemma alloc_write:
  assumes "ok s" "room (Suc n) s" "length d = psize s"
  shows "\<exists>s'. bindS palloc (\<lambda>i. bindS (pwrite i d) (\<lambda>_. ret i)) s = (Inr (length (pages s)), s') \<and>
    ok s' \<and> pages s' = pages s @ [d] \<and> room n s' \<and> frame s s'"
proof -
  obtain s1 where s1: "palloc s = (Inr (length (pages s)), s1)" "ok s1"
    "pages s1 = pages s @ [replicate (psize s) 0]" "room n s1" "frame s s1"
    using alloc_in [OF assms(1,2)] by blast
  then obtain s2 where s2: "pwrite (length (pages s)) d s1 = (Inr (), s2)" "ok s2"
    "pages s2 = (pages s1)[length (pages s) := d]" "frame s1 s2"
    using write_in [of s1 "length (pages s)" d] assms(3) frame_psize by auto
  have "pages s2 = pages s @ [d]" using s2(3) s1(3) by simp
  moreover have "room n s2" using s2 s1(3,4) room_pages by simp
  ultimately show ?thesis
    using s1 s2 frame_trans by (auto simp: exec_simps)
qed

text \<open>Writing a sequence of pages, in order.\<close>

lemma write_run:
  assumes "ok s" "\<And>i d. (i, d) \<in> set ws \<Longrightarrow> i < length (pages s) \<and> length d = psize s"
  shows "\<exists>s'. forS ws (\<lambda>(i, d). pwrite i d) s = (Inr (), s') \<and> ok s' \<and>
    pages s' = foldl (\<lambda>ps (i, d). ps[i := d]) (pages s) ws \<and> frame s s'"
  using assms
proof (induction ws arbitrary: s)
  case Nil
  then show ?case by (auto intro: frame_refl)
next
  case (Cons w ws)
  obtain i d where w: "w = (i, d)" by (cases w)
  obtain s1 where s1: "pwrite i d s = (Inr (), s1)" "ok s1" "pages s1 = (pages s)[i := d]" "frame s s1"
    using write_in [of s i d] Cons.prems w by auto
  have "\<And>i d. (i, d) \<in> set ws \<Longrightarrow> i < length (pages s1) \<and> length d = psize s1"
    using Cons.prems(2) s1(3,4) frame_psize by fastforce
  from Cons.IH [OF s1(2) this] obtain s2 where
    "forS ws (\<lambda>(i, d). pwrite i d) s1 = (Inr (), s2)" "ok s2"
    "pages s2 = foldl (\<lambda>ps (i, d). ps[i := d]) (pages s1) ws" "frame s1 s2"
    by blast
  then show ?case using s1 w frame_trans by (auto simp: exec_simps)
qed

end

subsection \<open>The page manager provides the interface\<close>

definition pm_frame :: "pm_state \<Rightarrow> pm_state \<Rightarrow> bool" where
  "pm_frame s s' \<longleftrightarrow> (case (s, s') of ((fs, pm), (fs', pm')) \<Rightarrow>
     pm_file_path pm' = pm_file_path pm \<and> pm_page_size pm' = pm_page_size pm \<and>
     pm_is_open pm' = pm_is_open pm \<and> fs_dirs fs' = fs_dirs fs \<and>
     (\<forall>q. q \<noteq> pm_file_path pm \<longrightarrow> fs_files fs' q = fs_files fs q))"

lemmas pm_exec = on_fs_def on_obj_def zoom_def ioS_def readS_def bindS_guardS Let_def
  bindS_def [of "zoom _ _ _"] bindS_def [of "ioS _ _"] bindS_def [of "readS _ _"]

lemma length_header_rep [simp]: "length (header_rep (MakeHeader ps n)) = HeaderSize"
  by (simp add: header_rep_def MakeHeader_def kPageFileMagic_def HeaderSize_def)

lemma rep_header_rep:
  assumes "ps < 2 ^ 64" "n < 2 ^ 64"
  shows "rep_header (header_rep (MakeHeader ps n)) = MakeHeader ps n"
  using assms
  by (simp add: rep_header_def header_rep_def MakeHeader_def kPageFileMagic_def kPageFileVersion_def
      le_nat_le_bytes)

lemma rep_header_take: "rep_header (take HeaderSize c) = rep_header c"
  by (simp add: rep_header_def HeaderSize_def drop_take min_def)

lemma page_bound: "i < n \<Longrightarrow> HeaderSize + i * ps + ps \<le> HeaderSize + n * (ps::nat)"
  using mult_le_mono1 [of "Suc i" n ps] by simp

lemma PageOffset_small: "HeaderSize + i * ps < 2 ^ 64 \<Longrightarrow> PageOffset i ps = HeaderSize + i * ps"
  by (simp add: PageOffset_def)

lemma length_pm_pages [simp]: "length (pm_pages s) = pm_page_count (snd s)"
  by (simp add: pm_pages_def)

lemma pm_pages_nth: "i < pm_page_count (snd s) \<Longrightarrow>
    pm_pages s ! i = page_at (pm_content s) (pm_page_size (snd s)) i"
  by (simp add: pm_pages_def)

lemma page_at_length: "i < n \<Longrightarrow> HeaderSize + n * ps \<le> length c \<Longrightarrow> length (page_at c ps i) = ps"
  using page_bound [of i n ps] by (simp add: page_at_def)

lemma ReadPage_in:
  assumes "pm_clean s" "i < length (pm_pages s)"
  shows "ReadPage i s = (Inr (pm_pages s ! i), s)"
proof -
  obtain fs pm where s: "s = (fs, pm)" by (cases s)
  let ?c = "file_bytes fs (pm_file_path pm)" and ?ps = "pm_page_size pm"
  have b: "HeaderSize + i * ?ps + ?ps \<le> length ?c" and l: "length ?c < 2 ^ 64"
    using assms page_bound [of i "pm_page_count pm" ?ps] by (auto simp: s pm_clean_def pm_content_def)
  then have off: "PageOffset i ?ps = HeaderSize + i * ?ps" by (intro PageOffset_small) simp
  have nf: "no_faults fs" and o: "pm_is_open pm" and i: "i < pm_page_count pm"
    using assms by (auto simp: s pm_clean_def)
  show ?thesis
    using b nf o i
    by (simp add: s ReadPage_def pm_exec off stream_read_ok pm_pages_nth page_at_def pm_content_def)
qed

lemma ReadPage_out:
  "pm_clean s \<Longrightarrow> \<not> i < length (pm_pages s) \<Longrightarrow> ReadPage i s = (Inl kNotFound, s)"
  by (cases s) (auto simp: pm_clean_def ReadPage_def pm_exec)

lemma page_at_splice:
  assumes "i < n" "j < n" "length c = HeaderSize + n * ps" "length d = ps"
  shows "page_at (splice c (HeaderSize + i * ps) d) ps j = (if j = i then d else page_at c ps j)"
proof (cases "j = i")
  case True
  then show ?thesis
    using page_bound [OF assms(1), of ps] assms splice_read_same [of "HeaderSize + i * ps" d c]
    by (simp add: page_at_def)
next
  case False
  then have "j < i \<or> i < j" by arith
  then have "HeaderSize + j * ps + ps \<le> HeaderSize + i * ps \<or> HeaderSize + i * ps + ps \<le> HeaderSize + j * ps"
    using page_bound by blast
  then show ?thesis
    using False page_bound [OF assms(1), of ps] page_bound [OF assms(2), of ps] assms
      splice_read_other [of "HeaderSize + i * ps" d c "HeaderSize + j * ps" ps]
    by (simp add: page_at_def)
qed

lemma WritePage_in:
  assumes "pm_clean s" "i < length (pm_pages s)" "length d = pm_page_size (snd s)"
  shows "\<exists>s'. WritePage i d s = (Inr (), s') \<and> pm_clean s' \<and> pm_pages s' = (pm_pages s)[i := d]
    \<and> pm_frame s s'"
proof -
  obtain fs pm where s: "s = (fs, pm)" by (cases s)
  let ?p = "pm_file_path pm" and ?ps = "pm_page_size pm" and ?n = "pm_page_count pm"
  let ?c = "file_bytes fs ?p"
  let ?c' = "splice ?c (HeaderSize + i * ?ps) d"
  let ?s' = "(fs\<lparr>fs_files := (fs_files fs)(?p \<mapsto> ?c')\<rparr>, pm)"
  have i: "i < ?n" and nf: "no_faults fs" and len: "length ?c = HeaderSize + ?n * ?ps"
    and d: "length d = ?ps" and l: "length ?c < 2 ^ 64"
    using assms by (auto simp: s pm_clean_def pm_content_def)
  have b: "HeaderSize + i * ?ps + ?ps \<le> length ?c"
    using page_bound [OF i, of ?ps] len by simp
  then have off: "PageOffset i ?ps = HeaderSize + i * ?ps" using l by (intro PageOffset_small) simp
  have run: "WritePage i d s = (Inr (), ?s')"
    using assms nf i d by (simp add: s pm_clean_def WritePage_def pm_exec off stream_write_ok)
  have len': "length ?c' = length ?c" using b d by (simp add: length_splice)
  have "take HeaderSize ?c' = take HeaderSize ?c"
    using splice_read_other [of "HeaderSize + i * ?ps" d ?c 0 HeaderSize] b d by simp
  then have "pm_clean ?s'"
    using assms(1) len' by (simp add: s pm_clean_def pm_content_def)
  moreover have "pm_pages ?s' = (pm_pages s)[i := d]"
    using page_at_splice [OF i _ len d]
    by (intro nth_equalityI) (auto simp: s pm_pages_nth pm_content_def nth_list_update)
  ultimately show ?thesis using run by (auto simp: s pm_frame_def)
qed

lemma page_at_append: "i < n \<Longrightarrow> HeaderSize + n * ps \<le> length c \<Longrightarrow> page_at (c @ d) ps i = page_at c ps i"
  using page_bound [of i n ps] by (simp add: page_at_def)

lemma page_at_header: "length h = HeaderSize \<Longrightarrow> HeaderSize \<le> length c \<Longrightarrow>
    page_at (splice c 0 h) ps i = page_at c ps i"
  by (simp add: page_at_def splice_def add.commute)

lemma AllocatePage_in:
  assumes "pm_clean s" "pm_room (Suc n) s"
  shows "\<exists>s'. AllocatePage s = (Inr (length (pm_pages s)), s') \<and> pm_clean s' \<and>
    pm_pages s' = pm_pages s @ [replicate (pm_page_size (snd s)) 0] \<and> pm_room n s' \<and> pm_frame s s'"
proof -
  obtain fs pm where s: "s = (fs, pm)" by (cases s)
  let ?p = "pm_file_path pm" and ?ps = "pm_page_size pm" and ?n = "pm_page_count pm"
  let ?c = "file_bytes fs ?p" and ?z = "replicate (pm_page_size pm) (0::byte)"
  let ?h = "header_rep (MakeHeader ?ps (Suc ?n))"
  let ?c' = "splice (?c @ ?z) 0 ?h"
  let ?s' = "(fs\<lparr>fs_files := (fs_files fs)(?p \<mapsto> ?c')\<rparr>, pm\<lparr>pm_page_count := Suc ?n\<rparr>)"
  have nf: "no_faults fs" and len: "length ?c = HeaderSize + ?n * ?ps" and ps: "0 < ?ps"
    using assms(1) by (auto simp: s pm_clean_def pm_content_def)
  have room: "HeaderSize + (?n + Suc n) * ?ps < 2 ^ 64"
    using assms(2) by (simp add: s pm_room_def)
  have "(?n + Suc n) * 1 \<le> (?n + Suc n) * ?ps" using ps by (intro mult_le_mono2) simp
  then have cnt: "Suc ?n mod 2 ^ 64 = Suc ?n" using room by simp
  have run: "AllocatePage s = (Inr ?n, ?s')"
    using assms(1) nf cnt
    by (simp add: s pm_clean_def AllocatePage_def WriteHeader_def pm_exec stream_write_ok
        splice_end del: fun_upd_apply)
  have lenc': "length ?c' = HeaderSize + Suc ?n * ?ps"
    using len by (simp add: length_splice)
  have "Suc ?n * ?ps \<le> (?n + Suc n) * ?ps" by (intro mult_le_mono1) simp
  then have lt: "length ?c' < 2 ^ 64" using room unfolding lenc' by linarith
  have "pm_clean ?s'"
    using assms(1) lenc' lt by (simp add: s pm_clean_def pm_content_def splice_def)
  moreover have "pm_pages ?s' = pm_pages s @ [?z]"
  proof (rule nth_equalityI)
    show "length (pm_pages ?s') = length (pm_pages s @ [?z])" by (simp add: s)
    fix i assume "i < length (pm_pages ?s')"
    then have i: "i < Suc ?n" by simp
    have "pm_pages ?s' ! i = page_at (?c @ ?z) ?ps i"
      using i len by (simp add: pm_pages_nth pm_content_def page_at_header)
    also have "\<dots> = (pm_pages s @ [?z]) ! i"
      using i len by (auto simp: s less_Suc_eq nth_append pm_pages_nth pm_content_def
          page_at_append [of i ?n]) (simp add: page_at_def)
    finally show "pm_pages ?s' ! i = (pm_pages s @ [?z]) ! i" .
  qed
  moreover have "pm_room n ?s'" using room by (simp add: pm_room_def)
  ultimately show ?thesis using run by (auto simp: s pm_frame_def)
qed

interpretation pmi: page_store pm_pages pm_clean pm_room "\<lambda>s. pm_page_size (snd s)" pm_frame
  ReadPage WritePage AllocatePage
proof (unfold_locales, goal_cases)
  case (1 s i)
  then show ?case by (rule ReadPage_in)
next
  case (2 s i)
  then show ?case by (rule ReadPage_out)
next
  case (3 s i d)
  then show ?case by (rule WritePage_in)
next
  case (4 s n)
  then show ?case by (rule AllocatePage_in)
next
  case (5 s p)
  then show ?case
    by (auto simp: pm_pages_def pm_clean_def intro: page_at_length [OF _ eq_imp_le] dest: sym)
next
  case (9 s s' n)
  then show ?case by (auto simp: pm_frame_def pm_room_def)
qed (auto simp: pm_frame_def)

subsection \<open>Opening a page file\<close>

lemma on_fs_run: "m fs = (r, fs') \<Longrightarrow> on_fs m (fs, c) = (r, (fs', c))"
  by (simp add: on_fs_def zoom_def)

lemma on_fs_iff [exec_iffs]:
  "on_fs m s = (r, s') \<longleftrightarrow> (\<exists>fs'. m (fst s) = (r, fs') \<and> s' = (fs', snd s))"
  by (auto simp: on_fs_def exec_iffs)

lemma on_obj_run [simp]: "on_obj f (fs, c) = (Inr (), (fs, f c))"
  by (simp add: on_obj_def)

lemma ioS_iff [exec_iffs]: "ioS e m fs = (Inr u, fs') \<longleftrightarrow> m fs = (True, fs')"
  by (auto simp: ioS_def split: prod.splits if_splits)

lemma readS_iff [exec_iffs]: "readS e m fs = (Inr bs, fs') \<longleftrightarrow> m fs = ((True, bs), fs')"
  by (auto simp: readS_def split: prod.splits if_splits)

lemma guardS_iff [exec_iffs]: "guardS b e s = (Inr u, s') \<longleftrightarrow> b \<and> s' = s"
  by (auto simp: guardS_def)

lemma stream_read_got:
  assumes "stream_read path off n fs = ((True, bs), fs')"
  shows "bs = take n (drop off (file_bytes fs path)) \<and> length bs = n"
proof -
  obtain ev fs1 where t: "fs_tick fs = (ev, fs1)" by fastforce
  then have "file_bytes fs1 path = file_bytes fs path"
    using fs_tick_files by (simp add: file_bytes_def)
  then show ?thesis
    using assms t by (cases ev) (auto simp: stream_read_def Let_def)
qed

text \<open>A successful check means the exact layout, whatever the faults were.\<close>

lemma check_page_file_sound:
  assumes "check_page_file path ps fs = (Inr n, fs')" "0 < ps"
  shows "fs_files fs' = fs_files fs \<and> path \<in> dom (fs_files fs) \<and>
    length (file_bytes fs path) = HeaderSize + n * ps \<and> rep_header (file_bytes fs path) = MakeHeader ps n"
proof -
  obtain fs1 fs2 fs3 bs where
    1: "stream_open path fs = (True, fs1)" and 2: "stream_seek fs1 = (True, fs2)" and
    3: "stream_seek fs2 = (True, fs3)" and 4: "stream_read path 0 HeaderSize fs3 = ((True, bs), fs')" and
    sz: "HeaderSize \<le> length (file_bytes fs2 path)" and
    h: "hdr_magic (rep_header bs) = kPageFileMagic" "hdr_version (rep_header bs) = kPageFileVersion"
      "hdr_page_size (rep_header bs) = ps" and
    m: "(length (file_bytes fs2 path) - HeaderSize) mod ps = 0" and
    n: "hdr_page_count (rep_header bs) = (length (file_bytes fs2 path) - HeaderSize) div ps"
       "n = (length (file_bytes fs2 path) - HeaderSize) div ps"
    using assms(1)
    by (auto simp: check_page_file_def ReadHeader_def exec_iffs Let_def HeaderMagicMatches_def)
  have f1: "fs_files fs1 = fs_files fs" "path \<in> dom (fs_files fs)"
    using 1 by (auto simp: stream_open_def split: prod.splits)
  have f: "fs_files fs2 = fs_files fs" "fs_files fs3 = fs_files fs" "fs_files fs' = fs_files fs"
    using f1 stream_seek_files [OF 2] stream_seek_files [OF 3] stream_read_files [OF 4] by auto
  then have c: "file_bytes fs2 path = file_bytes fs path" "file_bytes fs3 path = file_bytes fs path"
    by (simp_all add: file_bytes_def)
  have bs: "bs = take HeaderSize (file_bytes fs path)"
    using stream_read_got [OF 4] c by simp
  have "rep_header bs = MakeHeader ps n"
    using h n by (simp add: MakeHeader_def)
  then have "rep_header (file_bytes fs path) = MakeHeader ps n"
    using rep_header_take [of "file_bytes fs path"] bs by simp
  moreover have "length (file_bytes fs path) - HeaderSize = n * ps"
    using m n(2) c by (metis add_0_right div_mult_mod_eq)
  ultimately show ?thesis using f f1 sz c by simp
qed

definition dir_free :: "file_system \<Rightarrow> string \<Rightarrow> bool" where
  "dir_free fs path \<longleftrightarrow> (\<forall>p \<in> set (path_prefixes (dir_of path)). p \<notin> dom (fs_files fs))"

definition with_dir :: "file_system \<Rightarrow> string \<Rightarrow> file_system" where
  "with_dir fs path = (if dir_of path \<noteq> [] then
      fs\<lparr>fs_dirs := fs_dirs fs \<union> set (path_prefixes (dir_of path))\<rparr> else fs)"

lemma ensure_parent_ok:
  "no_faults fs \<Longrightarrow> dir_free fs path \<Longrightarrow> ensure_parent path fs = (Inr (), with_dir fs path)"
  by (auto simp: ensure_parent_def EnsureDir_def dir_free_def with_dir_def)

lemma with_dir_simps [simp]:
  "fs_files (with_dir fs path) = fs_files fs" "fs_faults (with_dir fs path) = fs_faults fs"
  "file_bytes (with_dir fs path) q = file_bytes fs q"
  by (simp_all add: with_dir_def file_bytes_def)

lemma check_page_file_ok:
  assumes "no_faults fs" "path \<in> dom (fs_files fs)" "0 < ps"
    "length (file_bytes fs path) = HeaderSize + n * ps" "rep_header (file_bytes fs path) = MakeHeader ps n"
  shows "check_page_file path ps fs = (Inr n, fs)"
proof -
  have "rep_header (take HeaderSize (file_bytes fs path)) = MakeHeader ps n"
    using assms(5) rep_header_take by simp
  then show ?thesis
    using assms
    by (simp add: check_page_file_def ReadHeader_def pm_exec stream_read_ok HeaderMagicMatches_def
        bindS_assoc MakeHeader_def)
qed

lemma pm_clean_header:
  assumes "pm_clean (fs, pm)"
  shows "rep_header (file_bytes fs (pm_file_path pm)) = MakeHeader (pm_page_size pm) (pm_page_count pm)"
proof -
  let ?c = "file_bytes fs (pm_file_path pm)"
  have "0 < pm_page_size pm" "HeaderSize + pm_page_count pm * pm_page_size pm < 2 ^ 64"
    using assms by (auto simp: pm_clean_def pm_content_def)
  then have "pm_page_count pm * 1 \<le> pm_page_count pm * pm_page_size pm"
    by (intro mult_le_mono2) simp
  then have "pm_page_count pm < 2 ^ 64"
    using \<open>HeaderSize + pm_page_count pm * pm_page_size pm < 2 ^ 64\<close> by linarith
  moreover have "take HeaderSize ?c = header_rep (MakeHeader (pm_page_size pm) (pm_page_count pm))"
    "pm_page_size pm < 2 ^ 64"
    using assms by (auto simp: pm_clean_def pm_content_def)
  ultimately show ?thesis
    using rep_header_take [of ?c] rep_header_rep by simp
qed

text \<open>Closing a page manager and opening another on the same file finds the same pages.\<close>

lemma reopen_pages:
  assumes c: "pm_clean (fs, pm)" and d: "dir_free fs (pm_file_path pm)" and "pm_file_path pm \<noteq> []"
  shows "\<exists>s'. pm_Open (fs, PageManager (pm_file_path pm) (pm_page_size pm)) = (Inr (), s') \<and>
    pm_clean s' \<and> pm_pages s' = pm_pages (fs, pm) \<and> fst s' = with_dir fs (pm_file_path pm)"
proof -
  let ?p = "pm_file_path pm" and ?ps = "pm_page_size pm"
  let ?fs = "with_dir fs ?p"
  let ?pm = "\<lparr>pm_file_path = ?p, pm_page_size = ?ps, pm_is_open = True, pm_page_count = pm_page_count pm\<rparr>"
  have f: "no_faults fs" "?p \<in> dom (fs_files fs)" "0 < ?ps"
    "length (file_bytes fs ?p) = HeaderSize + pm_page_count pm * ?ps"
    using c by (auto simp: pm_clean_def pm_content_def)
  have chk: "check_page_file ?p ?ps ?fs = (Inr (pm_page_count pm), ?fs)"
    using f pm_clean_header [OF c] by (intro check_page_file_ok) auto
  have e: "ensure_parent ?p fs = (Inr (), ?fs)"
    using f(1) d by (rule ensure_parent_ok)
  have x: "FileExists ?p ?fs = (Inr True, ?fs)"
    using f by (simp add: FileExists_def)
  have "pm_Open (fs, PageManager ?p ?ps) = (Inr (), (?fs, ?pm))"
    unfolding pm_Open_def PageManager_def
    using f(3) assms(3) e x chk by (simp add: bindS_guardS exec_simps on_fs_run)
  moreover have "pm_clean (?fs, ?pm)"
    using c by (simp add: pm_clean_def pm_content_def)
  moreover have "pm_pages (?fs, ?pm) = pm_pages (fs, pm)"
    by (simp add: pm_pages_def pm_content_def)
  ultimately show ?thesis by auto
qed

text \<open>Opening a path with no file creates a store without pages.\<close>

lemma open_fresh:
  assumes nf: "no_faults fs" and d: "dir_free fs path" and p: "path \<noteq> []" "path \<notin> dom (fs_files fs)"
    "path \<notin> fs_dirs (with_dir fs path)" and dir: "has_dir (with_dir fs path) (dir_of path)"
    and ps: "0 < ps" "ps < 2 ^ 64"
  shows "\<exists>s'. pm_Open (fs, PageManager path ps) = (Inr (), s') \<and> pm_clean s' \<and> pm_pages s' = [] \<and>
    fst s' = (with_dir fs path)\<lparr>fs_files := (fs_files fs)(path \<mapsto> header_rep (MakeHeader ps 0))\<rparr> \<and>
    snd s' = (PageManager path ps)\<lparr>pm_is_open := True\<rparr>"
proof -
  let ?fs = "with_dir fs path"
  let ?fs' = "?fs\<lparr>fs_files := (fs_files fs)(path \<mapsto> header_rep (MakeHeader ps 0))\<rparr>"
  let ?pm = "\<lparr>pm_file_path = path, pm_page_size = ps, pm_is_open = True, pm_page_count = 0\<rparr>"
  have e: "ensure_parent path fs = (Inr (), ?fs)"
    using nf d by (rule ensure_parent_ok)
  have x: "FileExists path ?fs = (Inr False, ?fs)"
    using nf p by (simp add: FileExists_def)
  have "splice [] 0 (header_rep (MakeHeader ps 0)) = header_rep (MakeHeader ps 0)"
    by (simp add: splice_def)
  then have cr: "create_page_file path ps ?fs = (Inr (), ?fs')"
    using nf p dir
    by (simp add: create_page_file_def ioS_def bindS_def stream_create_def stream_write_ok file_bytes_def)
  have fb: "file_bytes ?fs' path = header_rep (MakeHeader ps 0)" by (simp add: file_bytes_def)
  then have chk: "check_page_file path ps ?fs' = (Inr 0, ?fs')"
    using nf ps by (intro check_page_file_ok) (simp_all add: rep_header_rep)
  have "pm_Open (fs, PageManager path ps) = (Inr (), (?fs', ?pm))"
    unfolding pm_Open_def PageManager_def
    using ps p(1) e x cr chk by (simp add: bindS_guardS exec_simps on_fs_run)
  moreover have "pm_clean (?fs', ?pm)"
    using nf ps fb by (simp add: pm_clean_def pm_content_def HeaderSize_def)
  ultimately show ?thesis by (auto simp: pm_pages_def PageManager_def)
qed

subsection \<open>Behaviour under faults\<close>

lemma on_fs_obj: "snd (snd (on_fs m s)) = snd s"
  by (simp add: on_fs_def zoom_def split: prod.splits)

lemma keeps_on_fs_obj: "keeps (\<lambda>s. P (snd s)) (on_fs m)"
  by (simp add: keeps_def on_fs_def zoom_def split: prod.splits)

lemma pm_Open_fields:
  "pm_Open s = (r, s') \<Longrightarrow> pm_page_size (snd s') = pm_page_size (snd s) \<and> pm_file_path (snd s') = pm_file_path (snd s)"
proof -
  assume run: "pm_Open s = (r, s')"
  define P where "P = (\<lambda>pm :: page_manager. pm_page_size pm = pm_page_size (snd s) \<and> pm_file_path pm = pm_file_path (snd s))"
  have "keeps (\<lambda>s. P (snd s)) pm_Open"
    unfolding pm_Open_def by (intro keeps_intros keeps_on_fs_obj) (auto simp: P_def on_obj_def intro!: keeps_modify)
  then have "P (snd s')" by (rule keepsD [of "\<lambda>s. P (snd s)" pm_Open s r s']) (simp_all add: P_def run)
  then show ?thesis by (simp add: P_def)
qed

lemma page_at_torn:
  assumes "i < n" "j < n" "j \<noteq> i" "HeaderSize + n * ps \<le> length c" "length d \<le> ps"
  shows "page_at (splice c (HeaderSize + i * ps) d) ps j = page_at c ps j"
proof -
  have "j < i \<or> i < j" using assms(3) by arith
  then have "HeaderSize + j * ps + ps \<le> HeaderSize + i * ps \<or> HeaderSize + i * ps + ps \<le> HeaderSize + j * ps"
    using page_bound by blast
  then show ?thesis
    using page_bound [OF assms(1), of ps] page_bound [OF assms(2), of ps] assms
      splice_read_other [of "HeaderSize + i * ps" d c "HeaderSize + j * ps" ps]
    by (auto simp: page_at_def)
qed

text \<open>A write whose guards pass ends in the state of a possibly torn write of its own page.\<close>

lemma WritePage_effect:
  assumes w: "WritePage i d (fs, pm) = (r, (fs', pm'))" and wf: "pm_wf (fs, pm)" and o: "pm_is_open pm"
    and small: "HeaderSize + pm_page_count pm * pm_page_size pm < 2 ^ 64"
  shows "pm' = pm \<and> (fs_files fs' = fs_files fs \<and> r \<noteq> Inr () \<or>
    (\<exists>k. i < pm_page_count pm \<and> length d = pm_page_size pm \<and>
      fs_files fs' = (fs_files fs)(pm_file_path pm \<mapsto>
        splice (file_bytes fs (pm_file_path pm)) (HeaderSize + i * pm_page_size pm) (take k d)) \<and>
      (r = Inr () \<longrightarrow> k = length d)))"
proof (cases "i < pm_page_count pm \<and> length d = pm_page_size pm")
  case False
  then show ?thesis using w o by (auto simp: WritePage_def bindS_guardS split: if_splits)
next
  case True
  let ?p = "pm_file_path pm"
  have off: "PageOffset i (pm_page_size pm) = HeaderSize + i * pm_page_size pm"
    using small True page_bound [of i "pm_page_count pm" "pm_page_size pm"]
    by (intro PageOffset_small) linarith
  obtain b fs1 where sk: "stream_seek fs = (b, fs1)" by fastforce
  have f1: "fs_files fs1 = fs_files fs" using stream_seek_files [OF sk] by simp
  then have fb: "file_bytes fs1 ?p = file_bytes fs ?p" by (simp add: file_bytes_def)
  show ?thesis
  proof (cases b)
    case False
    then show ?thesis using w o True sk f1
      by (auto simp: WritePage_def pm_exec)
  next
    case b: True
    obtain ok fs2 where wr: "stream_write ?p (HeaderSize + i * pm_page_size pm) d fs1 = (ok, fs2)" by fastforce
    have "WritePage i d (fs, pm) = (if ok then Inr () else Inl kIoError, (fs2, pm))"
      using o True sk b wr off
      by (simp add: WritePage_def pm_exec)
    then have r: "r = (if ok then Inr () else Inl kIoError)" "fs' = fs2" "pm' = pm" using w by auto
    obtain k where k: "fs_files fs2 ?p = Some (splice (file_bytes fs ?p) (HeaderSize + i * pm_page_size pm) (take k d))"
      "ok \<longrightarrow> k = length d" using stream_write_torn [OF wr] fb by auto
    have "fs_files fs2 = (fs_files fs)(?p \<mapsto> splice (file_bytes fs ?p) (HeaderSize + i * pm_page_size pm) (take k d))"
      using stream_write_other [OF wr] k(1) f1 by (auto simp: fun_eq_iff)
    then show ?thesis using r k(2) True by auto
  qed
qed


text \<open>A file of two pages of four bytes on a disk that fails in the middle of the write.\<close>

definition demo_pages :: pm_state where
  "demo_pages = (\<lparr>fs_files = [''p'' \<mapsto> header_rep (MakeHeader 4 2) @ [1, 2, 3, 4, 5, 6, 7, 8]], fs_dirs = {},
     fs_faults = [IoOk, IoFail 2]\<rparr>, \<lparr>pm_file_path = ''p'', pm_page_size = 4, pm_is_open = True, pm_page_count = 2\<rparr>)"


end
