(* ===== verification/Values.thy ===== *)
theory Values
  imports Binary_IO "HOL-Library.List_Lexorder" "HOL-Library.Char_ord"
begin

text \<open>
  SQL values (\<^verbatim>\<open>src/execution/value.cpp\<close>), tuples and rows, and their serialisations
  (\<^verbatim>\<open>src/common/value_serialization.cpp\<close>, \<^verbatim>\<open>src/common/row_serialization.cpp\<close>).

  The comparison operators of the class make \<open>Value\<close> a linear order: NULL below every integer, integers
  below strings, strings below booleans. The serialisers are shown to be inverted by the deserialisers on all
  values in the range of their C++ types.
\<close>

subsection \<open>Values\<close>

datatype ValueType = kNull | kInt | kString | kBool

datatype Value = VNull | VInt int | VString string | VBool bool

fun value_type :: "Value \<Rightarrow> ValueType" where
  "value_type VNull = kNull"
| "value_type (VInt _) = kInt"
| "value_type (VString _) = kString"
| "value_type (VBool _) = kBool"

fun type_ordinal :: "ValueType \<Rightarrow> nat" where
  "type_ordinal kNull = 0"
| "type_ordinal kInt = 1"
| "type_ordinal kString = 2"
| "type_ordinal kBool = 3"

definition is_null :: "Value \<Rightarrow> bool" where
  "is_null v \<longleftrightarrow> value_type v = kNull"

text \<open>The accessors throw \<^verbatim>\<open>std::logic_error\<close> on a value of another type: \<open>None\<close>.\<close>

fun AsInt :: "Value \<Rightarrow> int option" where
  "AsInt (VInt i) = Some i"
| "AsInt _ = None"

fun AsString :: "Value \<Rightarrow> string option" where
  "AsString (VString s) = Some s"
| "AsString _ = None"

fun AsBool :: "Value \<Rightarrow> bool option" where
  "AsBool (VBool b) = Some b"
| "AsBool _ = None"

definition value_less :: "Value \<Rightarrow> Value \<Rightarrow> bool" where
  "value_less a b = (if value_type a \<noteq> value_type b
     then type_ordinal (value_type a) < type_ordinal (value_type b)
     else (case (a, b) of
        (VInt i, VInt j) \<Rightarrow> i < j
      | (VString s, VString t) \<Rightarrow> s < t
      | (VBool p, VBool q) \<Rightarrow> \<not> p \<and> q
      | _ \<Rightarrow> False))"

definition value_le :: "Value \<Rightarrow> Value \<Rightarrow> bool" where
  "value_le a b \<longleftrightarrow> value_less a b \<or> a = b"

definition value_greater :: "Value \<Rightarrow> Value \<Rightarrow> bool" where
  "value_greater a b \<longleftrightarrow> value_less b a"

definition value_ge :: "Value \<Rightarrow> Value \<Rightarrow> bool" where
  "value_ge a b \<longleftrightarrow> \<not> value_less a b"

text \<open>The operators of the class are those of a linear order, so the order library applies to keys.\<close>

lemma value_less_irrefl: "\<not> value_less a a"
  by (cases a) (auto simp: value_less_def)

lemma value_less_trans: "value_less a b \<Longrightarrow> value_less b c \<Longrightarrow> value_less a c"
  by (cases a; cases b; cases c) (auto simp: value_less_def)

lemma value_less_total: "a = b \<or> value_less a b \<or> value_less b a"
  by (cases a; cases b) (auto simp: value_less_def)

instantiation Value :: linorder
begin

definition less_eq_Value :: "Value \<Rightarrow> Value \<Rightarrow> bool" where
  "less_eq_Value = value_le"

definition less_Value :: "Value \<Rightarrow> Value \<Rightarrow> bool" where
  "less_Value = value_less"

instance
proof (standard, goal_cases)
  case (1 a b)
  then show ?case
    using value_less_trans [of a b a] by (auto simp: less_eq_Value_def less_Value_def value_le_def value_less_irrefl)
next
  case (5 a b)
  then show ?case
    using value_less_total [of a b] by (auto simp: less_eq_Value_def value_le_def)
qed (auto simp: less_eq_Value_def less_Value_def value_le_def value_less_irrefl dest: value_less_trans)

end

lemma value_ops_order:
  "value_less a b \<longleftrightarrow> a < b" "value_le a b \<longleftrightarrow> a \<le> b" "value_greater a b \<longleftrightarrow> a > b" "value_ge a b \<longleftrightarrow> a \<ge> b"
  by (simp_all add: less_Value_def [symmetric] less_eq_Value_def [symmetric] value_greater_def value_ge_def
      not_less)

subsection \<open>Tuples and rows\<close>

type_synonym Tuple = "Value list"

record Row =
  row_rid :: nat
  row_tuple :: Tuple
  row_deleted :: bool

subsection \<open>Serialisation\<close>

fun SerializeValue :: "Value \<Rightarrow> bytes \<Rightarrow> bytes" where
  "SerializeValue VNull buffer = WriteUint32 buffer 0"
| "SerializeValue (VInt i) buffer = WriteInt64 (WriteUint32 buffer 1) i"
| "SerializeValue (VString s) buffer = WriteString (WriteUint32 buffer 2) s"
| "SerializeValue (VBool b) buffer = WriteBool (WriteUint32 buffer 3) b"

definition DeserializeValue :: "bytes \<Rightarrow> nat \<Rightarrow> (Value \<times> nat) result" where
  "DeserializeValue bs offset =
     bindR (ReadUint32 bs offset) (\<lambda>(raw_type, off).
     if raw_type = type_ordinal kNull then Inr (VNull, off)
     else if raw_type = type_ordinal kInt then bindR (ReadInt64 bs off) (\<lambda>(v, off). Inr (VInt v, off))
     else if raw_type = type_ordinal kString then bindR (ReadString bs off) (\<lambda>(v, off). Inr (VString v, off))
     else if raw_type = type_ordinal kBool then bindR (ReadBool bs off) (\<lambda>(v, off). Inr (VBool v, off))
     else Inl kInvalidArgument)"

definition SerializeTuple :: "Tuple \<Rightarrow> bytes \<Rightarrow> bytes" where
  "SerializeTuple tuple buffer =
     fold SerializeValue tuple (WriteUint64 buffer (length tuple))"

primrec DeserializeValues :: "nat \<Rightarrow> bytes \<Rightarrow> nat \<Rightarrow> (Tuple \<times> nat) result" where
  "DeserializeValues 0 bs offset = Inr ([], offset)"
| "DeserializeValues (Suc n) bs offset =
     bindR (DeserializeValue bs offset) (\<lambda>(v, off).
     bindR (DeserializeValues n bs off) (\<lambda>(vs, off). Inr (v # vs, off)))"

definition kMaxTupleValues :: nat where
  "kMaxTupleValues = 2 ^ 20"

definition DeserializeTuple :: "bytes \<Rightarrow> nat \<Rightarrow> (Tuple \<times> nat) result" where
  "DeserializeTuple bs offset =
     bindR (ReadUint64 bs offset) (\<lambda>(num_values, off).
     if num_values > kMaxTupleValues then Inl kInvalidArgument
     else DeserializeValues num_values bs off)"

definition SerializeRow :: "Row \<Rightarrow> bytes \<Rightarrow> bytes" where
  "SerializeRow row buffer =
     (let buffer = WriteBool (WriteUint64 buffer (row_rid row)) (row_deleted row);
          temp = SerializeTuple (row_tuple row) []
      in WriteUint64 buffer (length temp) @ temp)"

definition DeserializeRow :: "bytes \<Rightarrow> nat \<Rightarrow> (Row \<times> nat) result" where
  "DeserializeRow bs offset =
     bindR (ReadUint64 bs offset) (\<lambda>(rid, off).
     bindR (ReadBool bs off) (\<lambda>(deleted, off).
     bindR (ReadUint64 bs off) (\<lambda>(tuple_size, off).
     bindR (EnsureReadable bs off tuple_size) (\<lambda>_.
     bindR (DeserializeTuple bs off) (\<lambda>(tuple, tuple_offset).
     if tuple_offset - off \<noteq> tuple_size then Inl kInvalidArgument
     else Inr (\<lparr>row_rid = rid, row_tuple = tuple, row_deleted = deleted\<rparr>, tuple_offset))))))"

subsection \<open>The values the C++ types can hold\<close>

fun value_wf :: "Value \<Rightarrow> bool" where
  "value_wf (VInt i) \<longleftrightarrow> - (2 ^ 63) \<le> i \<and> i < 2 ^ 63"
| "value_wf (VString s) \<longleftrightarrow> length s < 2 ^ 32"
| "value_wf _ \<longleftrightarrow> True"

definition tuple_wf :: "Tuple \<Rightarrow> bool" where
  "tuple_wf t \<longleftrightarrow> length t \<le> kMaxTupleValues \<and> list_all value_wf t"

definition row_wf :: "Row \<Rightarrow> bool" where
  "row_wf r \<longleftrightarrow> row_rid r < 2 ^ 64 \<and> tuple_wf (row_tuple r)"

subsection \<open>Encodings\<close>

definition enc_value :: "Value \<Rightarrow> bytes" where
  "enc_value v = SerializeValue v []"

definition enc_tuple :: "Tuple \<Rightarrow> bytes" where
  "enc_tuple t = le_bytes 8 (length t) @ concat (map enc_value t)"

definition enc_row :: "Row \<Rightarrow> bytes" where
  "enc_row r = le_bytes 8 (row_rid r) @ enc_bool (row_deleted r) @ le_bytes 8 (length (enc_tuple (row_tuple r)))
     @ enc_tuple (row_tuple r)"

lemma enc_value_simps:
  "enc_value VNull = le_bytes 4 0"
  "enc_value (VInt i) = le_bytes 4 1 @ le_bytes 8 (int64_rep i)"
  "enc_value (VString s) = le_bytes 4 2 @ enc_string s"
  "enc_value (VBool b) = le_bytes 4 3 @ enc_bool b"
  by (simp_all add: enc_value_def writer_appends)

lemma SerializeValue_appends: "SerializeValue v buf = buf @ enc_value v"
  by (cases v) (simp_all add: enc_value_simps writer_appends)

lemma fold_SerializeValue: "fold SerializeValue t buf = buf @ concat (map enc_value t)"
  by (induction t arbitrary: buf) (simp_all add: SerializeValue_appends)

lemma SerializeTuple_appends: "SerializeTuple t buf = buf @ enc_tuple t"
  by (simp add: SerializeTuple_def enc_tuple_def fold_SerializeValue writer_appends)

lemma SerializeRow_appends: "SerializeRow r buf = buf @ enc_row r"
  by (simp add: SerializeRow_def enc_row_def SerializeTuple_appends writer_appends Let_def)

lemma length_enc_value: "value_wf v \<Longrightarrow> length (enc_value v) \<le> 8 + 2 ^ 32"
  by (cases v) (auto simp: enc_value_simps)

lemma length_enc_values: "list_all value_wf t \<Longrightarrow> length (concat (map enc_value t)) \<le> length t * (8 + 2 ^ 32)"
  by (induction t) (use length_enc_value in \<open>fastforce\<close>)+

lemma length_enc_tuple: "tuple_wf t \<Longrightarrow> length (enc_tuple t) < 2 ^ 60"
proof -
  assume t: "tuple_wf t"
  then have "length (concat (map enc_value t)) \<le> length t * (8 + 2 ^ 32)"
    unfolding tuple_wf_def by (blast intro: length_enc_values)
  also have "\<dots> \<le> 2 ^ 20 * (8 + 2 ^ 32)"
    using t by (intro mult_le_mono1) (simp add: tuple_wf_def kMaxTupleValues_def)
  finally show ?thesis by (simp add: enc_tuple_def)
qed

subsection \<open>Readers on encodings\<close>

lemma DeserializeValue_at [read_at]:
  assumes "has_at bs off (enc_value v)" "value_wf v"
  shows "DeserializeValue bs off = Inr (v, off + length (enc_value v))"
proof -
  have small: "type_ordinal t < 2 ^ 32" for t by (cases t) simp_all
  have "has_at bs off (le_bytes 4 (type_ordinal (value_type v)))"
    using assms(1) by (cases v) (auto simp: enc_value_simps)
  then have t: "ReadUint32 bs off = Inr (type_ordinal (value_type v), off + 4)"
    using small by (rule ReadUint32_at)
  then show ?thesis
    using assms
    by (cases v) (auto simp: DeserializeValue_def enc_value_simps ReadInt64_at ReadString_at ReadBool_at)
qed

lemma DeserializeValues_at:
  assumes "has_at bs off (concat (map enc_value t))" "list_all value_wf t"
  shows "DeserializeValues (length t) bs off = Inr (t, off + length (concat (map enc_value t)))"
  using assms
proof (induction t arbitrary: off)
  case (Cons v t)
  then have "DeserializeValue bs off = Inr (v, off + length (enc_value v))"
    by (intro DeserializeValue_at) auto
  then show ?case using Cons by (simp add: add.assoc)
qed simp

lemma DeserializeTuple_at [read_at]:
  assumes "has_at bs off (enc_tuple t)" "tuple_wf t"
  shows "DeserializeTuple bs off = Inr (t, off + length (enc_tuple t))"
proof -
  have "length t \<le> 2 ^ 20" using assms(2) by (simp add: tuple_wf_def kMaxTupleValues_def)
  then have "ReadUint64 bs off = Inr (length t, off + 8)"
    using assms(1) by (intro ReadUint64_at) (auto simp: enc_tuple_def)
  moreover have "DeserializeValues (length t) bs (off + 8) = Inr (t, off + 8 + length (concat (map enc_value t)))"
    using assms by (intro DeserializeValues_at) (auto simp: enc_tuple_def tuple_wf_def)
  ultimately show ?thesis
    using assms(2) by (simp add: DeserializeTuple_def tuple_wf_def enc_tuple_def add.assoc)
qed

lemma DeserializeRow_at [read_at]:
  assumes "has_at bs off (enc_row r)" "row_wf r"
  shows "DeserializeRow bs off = Inr (r, off + length (enc_row r))"
proof -
  have t: "tuple_wf (row_tuple r)" "row_rid r < 2 ^ 64"
    using assms(2) by (auto simp: row_wf_def)
  have l: "length (enc_tuple (row_tuple r)) < 2 ^ 64"
    using length_enc_tuple [OF t(1)] by simp
  have a: "has_at bs off (le_bytes 8 (row_rid r))" "has_at bs (off + 8) (enc_bool (row_deleted r))"
    "has_at bs (off + 8 + 1) (le_bytes 8 (length (enc_tuple (row_tuple r))))"
    "has_at bs (off + 8 + 1 + 8) (enc_tuple (row_tuple r))"
    using assms(1) by (simp_all add: enc_row_def)
  note steps = ReadUint64_at [OF a(1) t(2)] ReadBool_at [OF a(2)] ReadUint64_at [OF a(3) l]
    DeserializeTuple_at [OF a(4) t(1)]
  have "off + 8 + 1 + 8 + length (enc_tuple (row_tuple r)) \<le> length bs"
    using has_at_le [OF a(4)] .
  then show ?thesis
    unfolding DeserializeRow_def steps by (simp add: steps [simplified] enc_row_def EnsureReadable_ok)
qed

subsection \<open>Deserialisers stay in range\<close>

lemma DeserializeValue_bounds [read_bounds]:
  assumes "DeserializeValue bs off = Inr (v, off')"
  shows "off + 4 \<le> off' \<and> off' \<le> length bs \<and> value_wf v"
proof -
  obtain n off1 where "ReadUint32 bs off = Inr (n, off1)"
    using assms by (auto simp: DeserializeValue_def exec_iffs)
  then show ?thesis
    using assms ReadUint32_bounds [of bs off n off1]
    by (auto simp: DeserializeValue_def exec_iffs split: if_splits
        dest: ReadInt64_bounds ReadString_bounds ReadBool_bounds)
qed

lemma DeserializeValues_bounds:
  "DeserializeValues n bs off = Inr (vs, off') \<Longrightarrow> off \<le> length bs \<Longrightarrow>
    off + 4 * n \<le> off' \<and> off' \<le> length bs \<and> length vs = n \<and> list_all value_wf vs"
proof (induction n arbitrary: vs off)
  case (Suc n)
  then obtain v off1 vs' where "DeserializeValue bs off = Inr (v, off1)"
    "DeserializeValues n bs off1 = Inr (vs', off')" "vs = v # vs'"
    by (auto simp: exec_iffs)
  then show ?case
    using Suc.IH [of off1 vs'] DeserializeValue_bounds [of bs off v off1] by auto
qed simp

lemma DeserializeTuple_bounds [read_bounds]:
  "DeserializeTuple bs off = Inr (t, off') \<Longrightarrow> off + 8 \<le> off' \<and> off' \<le> length bs \<and> tuple_wf t"
  by (auto simp: DeserializeTuple_def tuple_wf_def exec_iffs not_less split: if_splits
      dest!: ReadUint64_bounds DeserializeValues_bounds)

lemma DeserializeRow_bounds [read_bounds]:
  "DeserializeRow bs off = Inr (r, off') \<Longrightarrow> off + 25 \<le> off' \<and> off' \<le> length bs \<and> row_wf r"
  by (auto simp: DeserializeRow_def row_wf_def exec_iffs split: if_splits
      dest!: ReadUint64_bounds ReadBool_bounds DeserializeTuple_bounds)

lemma decodes_tuple: "tuple_wf t \<Longrightarrow> decodes DeserializeTuple (enc_tuple t) t"
  by (auto simp: decodes_def DeserializeTuple_at)

end
