(* ===== verification/Row_Store.thy ===== *)
theory Row_Store
  imports Page_Manager Values
begin

text \<open>
  \<^verbatim>\<open>src/storage/row_store.cpp\<close>: the heap file of a table. Page 0 holds the metadata, pages
  \<open>1 .. data_page_count\<close> hold the rows; deleted rows stay in their page as tombstones.

  The model runs on the file system and the object, at the level of the bytes of the pages. The relation
  \<open>rs_rep s bs\<close> says that the state \<open>s\<close> represents the batches of rows \<open>bs\<close>, one per data page; every
  operation is shown to simulate the corresponding operation on the abstract table.
\<close>

subsection \<open>Metadata and page headers\<close>

definition kRowStoreMagic :: bytes where
  "kRowStoreMagic = map char_byte ''CDBRSTR1''"

definition kRowStoreDataPageMagic :: bytes where
  "kRowStoreDataPageMagic = map char_byte ''CDBRPAGE''"

definition kRowStoreVersion :: nat where
  "kRowStoreVersion = 1"

record RowStoreMetadata =
  md_version :: nat
  md_next_row_id :: nat
  md_data_page_count :: nat
  md_active_row_count :: nat

record DataPageHeader =
  dp_version :: nat
  dp_entry_count :: nat
  dp_used_bytes :: nat

definition kMetadataPageId :: nat where
  "kMetadataPageId = 0"

definition MetadataPagePayloadOffset :: nat where
  "MetadataPagePayloadOffset = length kRowStoreMagic"

definition DataPagePayloadOffset :: nat where
  "DataPagePayloadOffset = length kRowStoreDataPageMagic"

definition page_header_size :: nat where
  "page_header_size = DataPagePayloadOffset + 4 * 3"

definition SerializeMetadata :: "RowStoreMetadata \<Rightarrow> bytes" where
  "SerializeMetadata md =
     WriteUint64 (WriteUint64 (WriteUint64 (WriteUint32 ([] @ kRowStoreMagic) (md_version md))
       (md_next_row_id md)) (md_data_page_count md)) (md_active_row_count md)"

definition DeserializeMetadata :: "bytes \<Rightarrow> RowStoreMetadata result" where
  "DeserializeMetadata bs =
     (if length bs < MetadataPagePayloadOffset then Inl kInvalidArgument
      else if take (length kRowStoreMagic) bs \<noteq> kRowStoreMagic then Inl kInvalidArgument
      else bindR (ReadUint32 bs MetadataPagePayloadOffset) (\<lambda>(version, off).
           bindR (ReadUint64 bs off) (\<lambda>(next_row_id, off).
           bindR (ReadUint64 bs off) (\<lambda>(data_page_count, off).
           bindR (ReadUint64 bs off) (\<lambda>(active_row_count, off).
             Inr \<lparr>md_version = version, md_next_row_id = next_row_id,
               md_data_page_count = data_page_count, md_active_row_count = active_row_count\<rparr>)))))"

definition SerializeDataPageHeader :: "DataPageHeader \<Rightarrow> bytes" where
  "SerializeDataPageHeader h =
     WriteUint32 (WriteUint32 (WriteUint32 ([] @ kRowStoreDataPageMagic) (dp_version h))
       (dp_entry_count h)) (dp_used_bytes h)"

definition DeserializeDataPageHeader :: "bytes \<Rightarrow> DataPageHeader result" where
  "DeserializeDataPageHeader bs =
     (if length bs < DataPagePayloadOffset then Inl kInvalidArgument
      else if take (length kRowStoreDataPageMagic) bs \<noteq> kRowStoreDataPageMagic then Inl kInvalidArgument
      else bindR (ReadUint32 bs DataPagePayloadOffset) (\<lambda>(version, off).
           bindR (ReadUint32 bs off) (\<lambda>(entry_count, off).
           bindR (ReadUint32 bs off) (\<lambda>(used_bytes, off).
             Inr \<lparr>dp_version = version, dp_entry_count = entry_count, dp_used_bytes = used_bytes\<rparr>))))"

definition SerializeRowEntry :: "Row \<Rightarrow> bytes" where
  "SerializeRowEntry row =
     (let row_payload = SerializeRow row [] in WriteUint32 [] (length row_payload) @ row_payload)"

definition DeserializeRowEntry :: "bytes \<Rightarrow> nat \<Rightarrow> (Row \<times> nat) result" where
  "DeserializeRowEntry bs offset =
     bindR (ReadUint32 bs offset) (\<lambda>(row_size, off).
     bindR (EnsureReadable bs off row_size) (\<lambda>_.
     bindR (DeserializeRow bs off) (\<lambda>(row, row_offset).
     if row_offset - off \<noteq> row_size then Inl kInvalidArgument else Inr (row, row_offset))))"

definition DataPageIdFromOrdinal :: "nat \<Rightarrow> nat" where
  "DataPageIdFromOrdinal ordinal = (ordinal + 1) mod 2 ^ 64"

subsection \<open>The object\<close>

record row_store =
  rs_file_path :: string
  rs_page_size :: nat
  rs_page_manager :: page_manager
  rs_is_open :: bool
  rs_next_row_id :: nat
  rs_data_page_count :: nat
  rs_active_row_count :: nat

type_synonym rs_state = "file_system \<times> row_store"

definition RowStore :: "string \<Rightarrow> nat \<Rightarrow> row_store" where
  "RowStore path page_size = \<lparr>rs_file_path = path, rs_page_size = page_size,
     rs_page_manager = PageManager path page_size, rs_is_open = False, rs_next_row_id = 0,
     rs_data_page_count = 0, rs_active_row_count = 0\<rparr>"

definition rs_pm :: "rs_state \<Rightarrow> pm_state" where
  "rs_pm s = (fst s, rs_page_manager (snd s))"

definition rs_upd_pm :: "pm_state \<Rightarrow> rs_state \<Rightarrow> rs_state" where
  "rs_upd_pm p s = (fst p, (snd s)\<lparr>rs_page_manager := snd p\<rparr>)"

definition on_pm :: "(pm_state, 'a) stm \<Rightarrow> (rs_state, 'a) stm" where
  "on_pm = zoom rs_pm rs_upd_pm"

text \<open>A page-sized buffer of zeros with a payload copied to its start.\<close>

definition padded :: "nat \<Rightarrow> bytes \<Rightarrow> bytes" where
  "padded n bs = bs @ replicate (n - length bs) 0"

definition rs_metadata :: "row_store \<Rightarrow> RowStoreMetadata" where
  "rs_metadata rs = \<lparr>md_version = kRowStoreVersion, md_next_row_id = rs_next_row_id rs,
     md_data_page_count = rs_data_page_count rs, md_active_row_count = rs_active_row_count rs\<rparr>"

subsection \<open>Pages of rows\<close>

primrec read_entries :: "nat \<Rightarrow> bytes \<Rightarrow> nat \<Rightarrow> nat \<Rightarrow> (Row list \<times> nat) result" where
  "read_entries 0 data used_end offset = Inr ([], offset)"
| "read_entries (Suc n) data used_end offset =
     (if offset \<ge> used_end then Inl kInvalidArgument
      else bindR (DeserializeRowEntry data offset) (\<lambda>(row, off).
           bindR (read_entries n data used_end off) (\<lambda>(rows, off). Inr (row # rows, off))))"

definition parse_page_rows :: "bytes \<Rightarrow> Row list result" where
  "parse_page_rows data =
     bindR (DeserializeDataPageHeader data) (\<lambda>header.
     bindR (guardR (dp_version header = kRowStoreVersion) kInvalidArgument) (\<lambda>_.
     bindR (guardR (page_header_size + dp_used_bytes header \<le> length data) kInvalidArgument) (\<lambda>_.
     let used_end = page_header_size + dp_used_bytes header in
     bindR (read_entries (dp_entry_count header) data used_end page_header_size) (\<lambda>(rows, offset).
     if offset \<noteq> used_end then Inl kInvalidArgument else Inr rows))))"

definition LoadPageRows :: "nat \<Rightarrow> (rs_state, Row list) stm" where
  "LoadPageRows pid = bindS (on_pm (ReadPage pid)) (\<lambda>data. liftR (parse_page_rows data))"

definition entries_payload :: "Row list \<Rightarrow> bytes" where
  "entries_payload rows = fold (\<lambda>row acc. acc @ SerializeRowEntry row) rows []"

definition WritePageRows :: "nat \<Rightarrow> Row list \<Rightarrow> (rs_state, unit) stm" where
  "WritePageRows pid rows =
     (let payload = entries_payload rows;
          header = SerializeDataPageHeader \<lparr>dp_version = kRowStoreVersion, dp_entry_count = length rows,
            dp_used_bytes = length payload\<rparr>
      in bindS (gets (\<lambda>s. rs_page_size (snd s))) (\<lambda>ps.
         bindS (guardS (length header + length payload \<le> ps) kInvalidArgument) (\<lambda>_.
           on_pm (WritePage pid (padded ps (header @ payload))))))"

definition write_metadata :: "(rs_state, unit) stm" where
  "write_metadata =
     bindS (gets snd) (\<lambda>rs.
     let metadata_bytes = SerializeMetadata (rs_metadata rs) in
     bindS (guardS (length metadata_bytes \<le> rs_page_size rs) kInternalError) (\<lambda>_.
       on_pm (WritePage kMetadataPageId (padded (rs_page_size rs) metadata_bytes))))"

definition WriteMetadataPage :: "(rs_state, unit) stm" where
  "WriteMetadataPage =
     bindS (gets snd) (\<lambda>rs. bindS (guardS (rs_is_open rs) kInternalError) (\<lambda>_. write_metadata))"

definition LoadAllRows :: "(rs_state, Row list) stm" where
  "LoadAllRows =
     bindS (gets snd) (\<lambda>rs.
     bindS (guardS (rs_is_open rs) kInternalError) (\<lambda>_.
     bindS (mapS (\<lambda>ordinal. LoadPageRows (DataPageIdFromOrdinal ordinal)) [0..<rs_data_page_count rs]) (\<lambda>pages.
       ret (concat pages))))"

fun build_batches :: "nat \<Rightarrow> Row list \<Rightarrow> Row list list \<Rightarrow> Row list \<Rightarrow> nat \<Rightarrow> Row list list result" where
  "build_batches ps [] batches current current_size =
     Inr (if current \<noteq> [] then batches @ [current] else batches)"
| "build_batches ps (row # rows) batches current current_size =
     (let entry_size = length (SerializeRowEntry row) in
      if page_header_size + entry_size > ps then Inl kInvalidArgument
      else if current \<noteq> [] \<and> page_header_size + current_size + entry_size > ps
      then build_batches ps rows (batches @ [current]) [row] entry_size
      else build_batches ps rows batches (current @ [row]) (current_size + entry_size))"

definition rs_alloc :: "(rs_state, nat) stm" where
  "rs_alloc =
     bindS (on_pm AllocatePage) (\<lambda>pid.
     bindS (on_obj (\<lambda>rs. rs\<lparr>rs_data_page_count := (rs_data_page_count rs + 1) mod 2 ^ 64\<rparr>)) (\<lambda>_. ret pid))"

definition RewriteAllRows :: "Row list \<Rightarrow> (rs_state, unit) stm" where
  "RewriteAllRows rows =
     bindS (gets snd) (\<lambda>rs.
     bindS (guardS (rs_is_open rs) kInternalError) (\<lambda>_.
     bindS (liftR (build_batches (rs_page_size rs) rows [] [] 0)) (\<lambda>batches.
     bindS (forS [rs_data_page_count rs..<length batches] (\<lambda>_. bindS rs_alloc (\<lambda>_. ret ()))) (\<lambda>_.
     bindS (gets (\<lambda>s. rs_data_page_count (snd s))) (\<lambda>count.
     bindS (forS [0..<count] (\<lambda>i. WritePageRows (DataPageIdFromOrdinal i)
              (if i < length batches then batches ! i else []))) (\<lambda>_.
       write_metadata))))))"

primrec find_free_page :: "nat list \<Rightarrow> nat \<Rightarrow> (rs_state, nat option) stm" where
  "find_free_page [] sz = ret None"
| "find_free_page (ordinal # ordinals) sz =
     (let pid = DataPageIdFromOrdinal ordinal in
      bindS (on_pm (ReadPage pid)) (\<lambda>data.
      bindS (liftR (DeserializeDataPageHeader data)) (\<lambda>header.
      bindS (gets (\<lambda>s. rs_page_size (snd s))) (\<lambda>ps.
        if page_header_size + dp_used_bytes header + sz \<le> ps then ret (Some pid)
        else find_free_page ordinals sz))))"

definition FindPageWithFreeSpace :: "nat \<Rightarrow> (rs_state, nat) stm" where
  "FindPageWithFreeSpace sz =
     bindS (gets snd) (\<lambda>rs.
     bindS (guardS (rs_is_open rs) kInternalError) (\<lambda>_.
     bindS (guardS (page_header_size + sz \<le> rs_page_size rs) kInvalidArgument) (\<lambda>_.
     bindS (find_free_page [0..<rs_data_page_count rs] sz) (\<lambda>found.
     case found of
       Some pid \<Rightarrow> ret pid
     | None \<Rightarrow> bindS rs_alloc (\<lambda>pid. bindS (WritePageRows pid []) (\<lambda>_. ret pid))))))"

definition FindRowIndexById :: "Row list \<Rightarrow> nat \<Rightarrow> nat result" where
  "FindRowIndexById rows rid =
     (let i = length (takeWhile (\<lambda>row. row_rid row \<noteq> rid) rows)
      in if i = length rows then Inl kNotFound else Inr i)"

subsection \<open>The public methods\<close>

definition InitializeStore :: "(rs_state, unit) stm" where
  "InitializeStore =
     bindS (on_pm AllocatePage) (\<lambda>pid.
     bindS (guardS (pid = kMetadataPageId) kInternalError) (\<lambda>_.
     let metadata_bytes = SerializeMetadata \<lparr>md_version = kRowStoreVersion, md_next_row_id = 0,
       md_data_page_count = 0, md_active_row_count = 0\<rparr> in
     bindS (gets (\<lambda>s. rs_page_size (snd s))) (\<lambda>ps.
     bindS (guardS (length metadata_bytes \<le> ps) kInternalError) (\<lambda>_.
     bindS (on_pm (WritePage pid (padded ps metadata_bytes))) (\<lambda>_.
       on_obj (\<lambda>rs. rs\<lparr>rs_next_row_id := 0, rs_data_page_count := 0, rs_active_row_count := 0\<rparr>))))))"

definition rs_load_metadata :: "(rs_state, unit) stm" where
  "rs_load_metadata s =
     (case on_pm (ReadPage kMetadataPageId) s of
        (Inl e, s') \<Rightarrow> if e \<noteq> kNotFound then (Inl e, s') else InitializeStore s'
      | (Inr data, s') \<Rightarrow>
          bindS (liftR (DeserializeMetadata data)) (\<lambda>md.
          bindS (guardS (md_version md = kRowStoreVersion) kInvalidArgument) (\<lambda>_.
            on_obj (\<lambda>rs. rs\<lparr>rs_next_row_id := md_next_row_id md,
              rs_data_page_count := md_data_page_count md,
              rs_active_row_count := md_active_row_count md\<rparr>))) s')"

definition rs_Open :: "(rs_state, unit) stm" where
  "rs_Open =
     bindS (gets snd) (\<lambda>rs.
     if rs_is_open rs then ret () else
     bindS (on_pm pm_Open) (\<lambda>_.
     bindS rs_load_metadata (\<lambda>_.
       on_obj (\<lambda>rs. rs\<lparr>rs_is_open := True\<rparr>))))"

definition rs_Flush :: "(rs_state, unit) stm" where
  "rs_Flush =
     bindS (gets snd) (\<lambda>rs. bindS (guardS (rs_is_open rs) kInternalError) (\<lambda>_. on_pm pm_Flush))"

definition rs_Insert :: "Row \<Rightarrow> (rs_state, nat) stm" where
  "rs_Insert row =
     bindS (gets snd) (\<lambda>rs.
     bindS (guardS (rs_is_open rs) kInternalError) (\<lambda>_.
     let row = row\<lparr>row_rid := rs_next_row_id rs, row_deleted := False\<rparr> in
     bindS (FindPageWithFreeSpace (length (SerializeRowEntry row))) (\<lambda>pid.
     bindS (LoadPageRows pid) (\<lambda>page_rows.
     bindS (WritePageRows pid (page_rows @ [row])) (\<lambda>_.
     bindS (on_obj (\<lambda>rs. rs\<lparr>rs_next_row_id := (rs_next_row_id rs + 1) mod 2 ^ 64,
              rs_active_row_count := (rs_active_row_count rs + 1) mod 2 ^ 64\<rparr>)) (\<lambda>_.
     bindS WriteMetadataPage (\<lambda>_. ret (row_rid row))))))))"

definition GetIncludingDeleted :: "nat \<Rightarrow> (rs_state, Row) stm" where
  "GetIncludingDeleted rid =
     bindS (gets snd) (\<lambda>rs.
     bindS (guardS (rs_is_open rs) kInternalError) (\<lambda>_.
     bindS LoadAllRows (\<lambda>rows.
     bindS (liftR (FindRowIndexById rows rid)) (\<lambda>index. ret (rows ! index)))))"

definition rs_Get :: "nat \<Rightarrow> (rs_state, Row) stm" where
  "rs_Get rid =
     bindS (gets snd) (\<lambda>rs.
     bindS (guardS (rs_is_open rs) kInternalError) (\<lambda>_.
     bindS (GetIncludingDeleted rid) (\<lambda>row.
     bindS (guardS (\<not> row_deleted row) kNotFound) (\<lambda>_. ret row))))"

definition rs_Update :: "nat \<Rightarrow> Tuple \<Rightarrow> (rs_state, unit) stm" where
  "rs_Update rid tuple =
     bindS (gets snd) (\<lambda>rs.
     bindS (guardS (rs_is_open rs) kInternalError) (\<lambda>_.
     bindS LoadAllRows (\<lambda>rows.
     bindS (liftR (FindRowIndexById rows rid)) (\<lambda>index.
     bindS (guardS (\<not> row_deleted (rows ! index)) kNotFound) (\<lambda>_.
       RewriteAllRows (rows[index := (rows ! index)\<lparr>row_tuple := tuple\<rparr>]))))))"

definition rs_Delete :: "nat \<Rightarrow> (rs_state, unit) stm" where
  "rs_Delete rid =
     bindS (gets snd) (\<lambda>rs.
     bindS (guardS (rs_is_open rs) kInternalError) (\<lambda>_.
     bindS LoadAllRows (\<lambda>rows.
     bindS (liftR (FindRowIndexById rows rid)) (\<lambda>index.
     if row_deleted (rows ! index) then ret () else
     bindS (on_obj (\<lambda>rs. rs\<lparr>rs_active_row_count := (rs_active_row_count rs + 2 ^ 64 - 1) mod 2 ^ 64\<rparr>)) (\<lambda>_.
       RewriteAllRows (rows[index := (rows ! index)\<lparr>row_deleted := True\<rparr>]))))))"

definition rs_Scan :: "(rs_state, Row list) stm" where
  "rs_Scan =
     bindS (gets snd) (\<lambda>rs.
     bindS (guardS (rs_is_open rs) kInternalError) (\<lambda>_.
     bindS LoadAllRows (\<lambda>rows. ret (filter (\<lambda>row. \<not> row_deleted row) rows))))"

definition ScanIncludingDeleted :: "(rs_state, Row list) stm" where
  "ScanIncludingDeleted =
     bindS (gets snd) (\<lambda>rs. bindS (guardS (rs_is_open rs) kInternalError) (\<lambda>_. LoadAllRows))"

definition rs_inc_active :: "bool \<Rightarrow> (rs_state, unit) stm" where
  "rs_inc_active b = on_obj (\<lambda>rs. if b
     then rs\<lparr>rs_active_row_count := (rs_active_row_count rs + 1) mod 2 ^ 64\<rparr> else rs)"

definition rs_Restore :: "Row \<Rightarrow> (rs_state, unit) stm" where
  "rs_Restore row =
     bindS (gets snd) (\<lambda>rs.
     bindS (guardS (rs_is_open rs) kInternalError) (\<lambda>_.
     bindS LoadAllRows (\<lambda>rows.
     bindS (case FindRowIndexById rows (row_rid row) of
         Inr index \<Rightarrow> bindS (rs_inc_active (row_deleted (rows ! index))) (\<lambda>_.
           ret (rows[index := row\<lparr>row_deleted := False\<rparr>]))
       | Inl e \<Rightarrow> if e = kNotFound then bindS (rs_inc_active True) (\<lambda>_. ret (rows @ [row\<lparr>row_deleted := False\<rparr>]))
           else throw e) (\<lambda>rows.
     bindS (on_obj (\<lambda>rs. rs\<lparr>rs_next_row_id := max (rs_next_row_id rs) ((row_rid row + 1) mod 2 ^ 64)\<rparr>)) (\<lambda>_.
       RewriteAllRows rows)))))"

subsection \<open>Codec of the pages\<close>

lemma length_row_magics [simp]: "length kRowStoreMagic = 8" "length kRowStoreDataPageMagic = 8"
  by (simp_all add: kRowStoreMagic_def kRowStoreDataPageMagic_def)

lemma length_page_header [simp]: "length (SerializeDataPageHeader h) = page_header_size"
  by (simp add: SerializeDataPageHeader_def page_header_size_def DataPagePayloadOffset_def writer_appends)

lemma length_metadata [simp]: "length (SerializeMetadata md) = 36"
  by (simp add: SerializeMetadata_def writer_appends)

lemma length_padded [simp]: "length bs \<le> n \<Longrightarrow> length (padded n bs) = n"
  by (simp add: padded_def)

lemma has_at_padded: "has_at (padded n bs) 0 bs"
  by (simp add: has_at_def padded_def)

definition md_wf :: "RowStoreMetadata \<Rightarrow> bool" where
  "md_wf md \<longleftrightarrow> md_version md < 2 ^ 32 \<and> md_next_row_id md < 2 ^ 64 \<and>
     md_data_page_count md < 2 ^ 64 \<and> md_active_row_count md < 2 ^ 64"

lemma DeserializeMetadata_padded:
  assumes "36 \<le> n" "md_wf md"
  shows "DeserializeMetadata (padded n (SerializeMetadata md)) = Inr md"
proof -
  let ?p = "padded n (SerializeMetadata md)"
  have "has_at ?p 0 (SerializeMetadata md)" by (rule has_at_padded)
  then have a: "has_at ?p 0 kRowStoreMagic" "has_at ?p 8 (le_bytes 4 (md_version md))"
    "has_at ?p (8 + 4) (le_bytes 8 (md_next_row_id md))"
    "has_at ?p (8 + 4 + 8) (le_bytes 8 (md_data_page_count md))"
    "has_at ?p (8 + 4 + 8 + 8) (le_bytes 8 (md_active_row_count md))"
    by (simp_all add: SerializeMetadata_def writer_appends)
  have w: "md_version md < 2 ^ 32" "md_next_row_id md < 2 ^ 64" "md_data_page_count md < 2 ^ 64"
    "md_active_row_count md < 2 ^ 64"
    using assms(2) by (auto simp: md_wf_def)
  have "take (length kRowStoreMagic) ?p = kRowStoreMagic"
    using has_at_take [OF a(1)] by simp
  moreover have off: "MetadataPagePayloadOffset = 8"
    by (simp add: MetadataPagePayloadOffset_def)
  moreover have "length ?p = n" using assms(1) by simp
  ultimately show ?thesis
    using assms(1)
    unfolding DeserializeMetadata_def off
    by (simp add: ReadUint32_at [OF a(2) w(1), simplified] ReadUint64_at [OF a(3) w(2), simplified]
        ReadUint64_at [OF a(4) w(3), simplified] ReadUint64_at [OF a(5) w(4), simplified])
qed

definition dp_wf :: "DataPageHeader \<Rightarrow> bool" where
  "dp_wf h \<longleftrightarrow> dp_version h < 2 ^ 32 \<and> dp_entry_count h < 2 ^ 32 \<and> dp_used_bytes h < 2 ^ 32"

lemma DeserializeDataPageHeader_at:
  assumes "has_at bs 0 (SerializeDataPageHeader h)" "dp_wf h"
  shows "DeserializeDataPageHeader bs = Inr h"
proof -
  have a: "has_at bs 0 kRowStoreDataPageMagic" "has_at bs 8 (le_bytes 4 (dp_version h))"
    "has_at bs (8 + 4) (le_bytes 4 (dp_entry_count h))"
    "has_at bs (8 + 4 + 4) (le_bytes 4 (dp_used_bytes h))"
    using assms(1) by (simp_all add: SerializeDataPageHeader_def writer_appends)
  have w: "dp_version h < 2 ^ 32" "dp_entry_count h < 2 ^ 32" "dp_used_bytes h < 2 ^ 32"
    using assms(2) by (auto simp: dp_wf_def)
  have "take (length kRowStoreDataPageMagic) bs = kRowStoreDataPageMagic"
    using has_at_take [OF a(1)] by simp
  moreover have off: "DataPagePayloadOffset = 8"
    by (simp add: DataPagePayloadOffset_def)
  moreover have "8 \<le> length bs"
    using has_at_le [OF a(1)] by simp
  ultimately show ?thesis
    unfolding DeserializeDataPageHeader_def off
    by (simp add: ReadUint32_at [OF a(2) w(1), simplified] ReadUint32_at [OF a(3) w(2), simplified]
        ReadUint32_at [OF a(4) w(3), simplified])
qed

lemma SerializeRowEntry_eq: "SerializeRowEntry r = le_bytes 4 (length (enc_row r)) @ enc_row r"
  by (simp add: SerializeRowEntry_def SerializeRow_appends writer_appends Let_def)

lemma length_enc_row: "length (enc_row r) = 17 + length (enc_tuple (row_tuple r))"
  by (simp add: enc_row_def)

lemma length_entry: "length (SerializeRowEntry r) = 21 + length (enc_tuple (row_tuple r))"
  by (simp add: SerializeRowEntry_eq length_enc_row)

lemma DeserializeRowEntry_at:
  assumes "has_at bs off (SerializeRowEntry r)" "row_wf r" "length (SerializeRowEntry r) < 2 ^ 32"
  shows "DeserializeRowEntry bs off = Inr (r, off + length (SerializeRowEntry r))"
proof -
  have a: "has_at bs off (le_bytes 4 (length (enc_row r)))" "has_at bs (off + 4) (enc_row r)"
    using assms(1) by (simp_all add: SerializeRowEntry_eq)
  have l: "length (enc_row r) < 2 ^ 32"
    using assms(3) by (simp add: SerializeRowEntry_eq)
  have "off + 4 + length (enc_row r) \<le> length bs"
    using has_at_le [OF a(2)] by simp
  then show ?thesis
    unfolding DeserializeRowEntry_def
    by (simp add: ReadUint32_at [OF a(1) l] DeserializeRow_at [OF a(2) assms(2)] EnsureReadable_ok
        SerializeRowEntry_eq)
qed

lemma entries_payload_concat: "entries_payload rows = concat (map SerializeRowEntry rows)"
proof -
  have "fold (\<lambda>row acc. acc @ SerializeRowEntry row) rows acc = acc @ concat (map SerializeRowEntry rows)" for acc
    by (induction rows arbitrary: acc) simp_all
  then show ?thesis by (simp add: entries_payload_def)
qed

lemma entries_payload_simps [simp]:
  "entries_payload [] = []"
  "entries_payload (r # rs) = SerializeRowEntry r @ entries_payload rs"
  "entries_payload (rs @ rs') = entries_payload rs @ entries_payload rs'"
  by (simp_all add: entries_payload_concat)

lemma length_entries_payload: "21 * length rows \<le> length (entries_payload rows)"
  by (induction rows) (simp_all add: length_entry)

lemma read_entries_at:
  assumes "has_at bs off (entries_payload rows)" "list_all row_wf rows"
    "off + length (entries_payload rows) \<le> used_end" "length (entries_payload rows) < 2 ^ 32"
  shows "read_entries (length rows) bs used_end off = Inr (rows, off + length (entries_payload rows))"
  using assms
proof (induction rows arbitrary: off)
  case (Cons r rows)
  then have "DeserializeRowEntry bs off = Inr (r, off + length (SerializeRowEntry r))"
    by (intro DeserializeRowEntry_at) auto
  moreover have "\<not> used_end \<le> off" using Cons.prems(3) by (simp add: length_entry)
  ultimately show ?case using Cons by (simp add: add.assoc)
qed simp

subsection \<open>Pages of rows\<close>

definition data_header :: "Row list \<Rightarrow> DataPageHeader" where
  "data_header rows = \<lparr>dp_version = kRowStoreVersion, dp_entry_count = length rows,
     dp_used_bytes = length (entries_payload rows)\<rparr>"

definition data_page :: "nat \<Rightarrow> Row list \<Rightarrow> bytes" where
  "data_page ps rows = padded ps (SerializeDataPageHeader (data_header rows) @ entries_payload rows)"

definition batch_ok :: "nat \<Rightarrow> Row list \<Rightarrow> bool" where
  "batch_ok ps rows \<longleftrightarrow> list_all row_wf rows \<and> page_header_size + length (entries_payload rows) \<le> ps"

lemma page_header_size_20: "page_header_size = 20"
  by (simp add: page_header_size_def DataPagePayloadOffset_def)

lemma length_data_page [simp]: "batch_ok ps rows \<Longrightarrow> length (data_page ps rows) = ps"
  by (simp add: data_page_def batch_ok_def)

lemma batch_ok_Nil: "36 \<le> ps \<Longrightarrow> batch_ok ps []"
  by (simp add: batch_ok_def page_header_size_20)

lemma data_header_wf: "batch_ok ps rows \<Longrightarrow> ps < 2 ^ 32 \<Longrightarrow> dp_wf (data_header rows)"
  using length_entries_payload [of rows]
  by (simp add: batch_ok_def dp_wf_def data_header_def kRowStoreVersion_def)

lemma header_data_page:
  assumes "batch_ok ps rows" "ps < 2 ^ 32"
  shows "DeserializeDataPageHeader (data_page ps rows) = Inr (data_header rows)"
proof (rule DeserializeDataPageHeader_at)
  show "has_at (data_page ps rows) 0 (SerializeDataPageHeader (data_header rows))"
    using has_at_padded [of ps "SerializeDataPageHeader (data_header rows) @ entries_payload rows"]
    by (simp add: data_page_def)
qed (rule data_header_wf [OF assms])

lemma parse_data_page:
  assumes "batch_ok ps rows" "ps < 2 ^ 32"
  shows "parse_page_rows (data_page ps rows) = Inr rows"
proof -
  have p: "has_at (data_page ps rows) page_header_size (entries_payload rows)"
    using has_at_padded [of ps "SerializeDataPageHeader (data_header rows) @ entries_payload rows"]
    by (simp add: data_page_def)
  have "read_entries (length rows) (data_page ps rows) (page_header_size + length (entries_payload rows))
      page_header_size = Inr (rows, page_header_size + length (entries_payload rows))"
    using assms by (intro read_entries_at [OF p]) (auto simp: batch_ok_def)
  then show ?thesis
    using assms
    by (simp add: parse_page_rows_def header_data_page Let_def data_header_def batch_ok_def)
qed

subsection \<open>Packing rows into batches\<close>

text \<open>The size of a batch, and the abstract packing: the longest prefixes that fit, in order.\<close>

abbreviation payload_len :: "Row list \<Rightarrow> nat" where
  "payload_len rows \<equiv> length (entries_payload rows)"

definition row_fits :: "nat \<Rightarrow> Row \<Rightarrow> bool" where
  "row_fits ps r \<longleftrightarrow> page_header_size + length (SerializeRowEntry r) \<le> ps"

lemma build_batches_error:
  "\<not> list_all (row_fits ps) rows \<Longrightarrow> build_batches ps rows acc cur sz = Inl kInvalidArgument"
  by (induction ps rows acc cur sz rule: build_batches.induct) (auto simp: Let_def row_fits_def)

lemma build_batches_total:
  "list_all (row_fits ps) rows \<Longrightarrow> \<exists>bs. build_batches ps rows acc cur sz = Inr bs"
  by (induction ps rows acc cur sz rule: build_batches.induct) (auto simp: Let_def row_fits_def)

lemma build_batches_concat:
  "build_batches ps rows acc cur sz = Inr bs \<Longrightarrow> concat bs = concat acc @ cur @ rows"
  by (induction ps rows acc cur sz rule: build_batches.induct) (auto simp: Let_def split: if_splits)

lemma build_batches_ok:
  assumes "build_batches ps rows acc cur sz = Inr bs" "list_all (batch_ok ps) acc" "batch_ok ps cur"
    "sz = payload_len cur" "list_all row_wf rows"
  shows "list_all (batch_ok ps) bs"
  using assms
proof (induction ps rows acc cur sz rule: build_batches.induct)
  case (2 ps row rows acc cur sz)
  then show ?case
    by (auto simp: Let_def batch_ok_def split: if_splits)
qed (auto split: if_splits)

text \<open>
  Greedy packing is optimal: no other split of the same rows into fitting batches, in the same order, uses
  fewer batches. In the induction the competitor's split of the rows still to place is \<open>c # cs\<close>, where
  \<open>c\<close> is the rest of its open batch; when \<open>c\<close> does not fit into the current batch, the packing is ahead.
\<close>

abbreviation fits :: "nat \<Rightarrow> Row list \<Rightarrow> bool" where
  "fits ps b \<equiv> page_header_size + payload_len b \<le> ps"

lemma concat_eq_ConsD:
  "concat cs = x # xs \<Longrightarrow> \<exists>es d ds. cs = es @ (x # d) # ds \<and> xs = d @ concat ds"
proof (induction cs)
  case (Cons c cs)
  then show ?case by (cases c) (auto simp: Cons_eq_append_conv)
qed simp

lemma build_batches_min:
  assumes "build_batches ps rows acc cur sz = Inr bs" "sz = payload_len cur" "cur \<noteq> []"
    "list_all (fits ps) (c # cs)" "rows = concat (c # cs)"
  shows "length bs \<le> length acc + 1 + (if c = [] \<or> fits ps (cur @ c) then 0 else 1) + length cs"
  using assms
proof (induction ps rows acc cur sz arbitrary: c cs rule: build_batches.induct)
  case (2 ps row rows acc cur sz)
  let ?e = "length (SerializeRowEntry row)"
  have new: "length bs \<le> length acc + 2 + length ds"
    if "page_header_size + sz + ?e > ps" "rows = concat (d # ds)" "list_all (fits ps) ((row # d) # ds)" for d ds
  proof -
    have "length bs \<le> length (acc @ [cur]) + 1 + (if d = [] \<or> fits ps ([row] @ d) then 0 else 1) + length ds"
      using that "2.prems" by (intro "2.IH"(1)) (auto simp: Let_def split: if_splits)
    then show ?thesis using that(3) by simp
  qed
  have stay: "length bs \<le> length acc + 1 + (if d = [] \<or> fits ps ((cur @ [row]) @ d) then 0 else 1) + length ds"
    if "page_header_size + sz + ?e \<le> ps" "rows = concat (d # ds)" "list_all (fits ps) ((row # d) # ds)" for d ds
    using that "2.prems" by (intro "2.IH"(2)) (auto simp: Let_def split: if_splits)
  show ?case
  proof (cases c)
    case (Cons r c')
    then have "row = r" "rows = concat (c' # cs)" using "2.prems"(5) by auto
    then show ?thesis
      using new [of c' cs] stay [of c' cs] "2.prems"(2,4) Cons
      by (cases "page_header_size + sz + ?e \<le> ps") (auto simp: add.assoc split: if_splits)
  next
    case Nil
    then obtain es d ds where cs: "cs = es @ (row # d) # ds" "rows = d @ concat ds"
      using "2.prems"(5) concat_eq_ConsD [of cs row rows] by auto
    then show ?thesis
      using new [of d ds] stay [of d ds] "2.prems"(4) Nil
      by (cases "page_header_size + sz + ?e \<le> ps") (auto split: if_splits)
  qed
qed (auto split: if_splits)

lemma build_batches_optimal:
  assumes "build_batches ps (concat cs) [] [] 0 = Inr bs" "list_all (fits ps) cs"
  shows "length bs \<le> length cs"
proof (cases "concat cs")
  case Nil
  have "build_batches ps [] [] [] 0 = Inr bs" using assms(1) by (simp only: Nil)
  then show ?thesis by simp
next
  case (Cons r rows)
  obtain es d ds where cs: "cs = es @ (r # d) # ds" "rows = d @ concat ds"
    using concat_eq_ConsD [OF Cons] by blast
  have "build_batches ps rows [] [r] (payload_len [r]) = Inr bs"
    using assms(1) Cons by (simp add: Let_def split: if_splits)
  from build_batches_min [OF this refl, of d ds]
  have "length bs \<le> 1 + length ds" using cs assms(2) by simp
  then show ?thesis by (simp add: cs(1))
qed

subsection \<open>The layout of the pages of an open store\<close>

text \<open>\<open>rs_lay s mp pgs\<close>: page 0 is \<open>mp\<close> and the data pages are \<open>pgs\<close>, whatever they contain.\<close>

definition rs_lay :: "rs_state \<Rightarrow> bytes \<Rightarrow> bytes list \<Rightarrow> bool" where
  "rs_lay s mp pgs \<longleftrightarrow> pm_clean (rs_pm s) \<and> rs_is_open (snd s) \<and>
     pm_page_size (rs_page_manager (snd s)) = rs_page_size (snd s) \<and>
     36 \<le> rs_page_size (snd s) \<and> rs_page_size (snd s) < 2 ^ 32 \<and>
     pm_pages (rs_pm s) = mp # pgs \<and> rs_data_page_count (snd s) = length pgs"

text \<open>What no operation below the public methods changes.\<close>

definition rs_same :: "rs_state \<Rightarrow> rs_state \<Rightarrow> bool" where
  "rs_same s s' \<longleftrightarrow> pm_frame (rs_pm s) (rs_pm s') \<and> rs_file_path (snd s') = rs_file_path (snd s) \<and>
     rs_page_size (snd s') = rs_page_size (snd s) \<and> rs_is_open (snd s') = rs_is_open (snd s) \<and>
     rs_next_row_id (snd s') = rs_next_row_id (snd s) \<and>
     rs_active_row_count (snd s') = rs_active_row_count (snd s)"

lemma rs_same_refl [simp]: "rs_same s s"
  by (simp add: rs_same_def pmi.frame_refl)

lemma rs_same_trans: "rs_same s s' \<Longrightarrow> rs_same s' s'' \<Longrightarrow> rs_same s s''"
  by (auto simp: rs_same_def intro: pmi.frame_trans)

lemma rs_pm_upd [simp]: "rs_pm (rs_upd_pm p s) = p" "rs_pm (fs, rs) = (fs, rs_page_manager rs)"
  by (simp_all add: rs_pm_def rs_upd_pm_def)

lemma rs_upd_pm_simps [simp]:
  "rs_is_open (snd (rs_upd_pm p s)) = rs_is_open (snd s)"
  "rs_page_size (snd (rs_upd_pm p s)) = rs_page_size (snd s)"
  "rs_file_path (snd (rs_upd_pm p s)) = rs_file_path (snd s)"
  "rs_next_row_id (snd (rs_upd_pm p s)) = rs_next_row_id (snd s)"
  "rs_active_row_count (snd (rs_upd_pm p s)) = rs_active_row_count (snd s)"
  "rs_data_page_count (snd (rs_upd_pm p s)) = rs_data_page_count (snd s)"
  "rs_page_manager (snd (rs_upd_pm p s)) = snd p"
  by (simp_all add: rs_upd_pm_def)

lemma rs_upd_pm_id [simp]: "rs_upd_pm (rs_pm s) s = s"
  by (simp add: rs_upd_pm_def rs_pm_def)

lemma on_pm_run: "m (rs_pm s) = (r, p) \<Longrightarrow> on_pm m s = (r, rs_upd_pm p s)"
  by (simp add: on_pm_def zoom_def)

lemma pm_frame_psize: "pm_frame p q \<Longrightarrow> pm_page_size (snd q) = pm_page_size (snd p)"
  by (rule pmi.frame_psize)

lemma rs_lay_small: "rs_lay s mp pgs \<Longrightarrow> length pgs + 1 < 2 ^ 64"
proof -
  assume a: "rs_lay s mp pgs"
  let ?pm = "rs_page_manager (snd s)"
  have n: "pm_page_count ?pm = Suc (length pgs)"
    using a length_pm_pages [of "rs_pm s"] by (simp add: rs_lay_def rs_pm_def)
  have "HeaderSize + pm_page_count ?pm * pm_page_size ?pm < 2 ^ 64" "0 < pm_page_size ?pm"
    using a by (auto simp: rs_lay_def rs_pm_def pm_clean_def)
  moreover have "pm_page_count ?pm * 1 \<le> pm_page_count ?pm * pm_page_size ?pm"
    using calculation(2) by (intro mult_le_mono2) simp
  ultimately show ?thesis using n by linarith
qed

lemma DataPageId_small: "rs_lay s mp pgs \<Longrightarrow> i \<le> length pgs \<Longrightarrow> DataPageIdFromOrdinal i = Suc i"
  using rs_lay_small [of s mp pgs] by (simp add: DataPageIdFromOrdinal_def)

lemma read_data_page:
  assumes "rs_lay s mp pgs" "i < length pgs"
  shows "on_pm (ReadPage (DataPageIdFromOrdinal i)) s = (Inr (pgs ! i), s)"
  using assms pmi.read_in [of "rs_pm s" "Suc i"]
  by (simp add: DataPageId_small rs_lay_def on_pm_run)

lemma write_page_lay:
  assumes "rs_lay s mp pgs" "i \<le> length pgs" "length d = rs_page_size (snd s)"
  shows "\<exists>s'. on_pm (WritePage i d) s = (Inr (), s') \<and>
    rs_lay s' (if i = 0 then d else mp) (if i = 0 then pgs else pgs[i - 1 := d]) \<and> rs_same s s' \<and>
    pm_page_count (rs_page_manager (snd s')) = pm_page_count (rs_page_manager (snd s))"
proof -
  have "i < length (pm_pages (rs_pm s))" "pm_clean (rs_pm s)"
    "length d = pm_page_size (snd (rs_pm s))"
    using assms by (auto simp: rs_lay_def rs_pm_def)
  then obtain p where p: "WritePage i d (rs_pm s) = (Inr (), p)" "pm_clean p"
    "pm_pages p = (pm_pages (rs_pm s))[i := d]" "pm_frame (rs_pm s) p"
    using pmi.write_in by blast
  have ps: "pm_page_size (snd p) = pm_page_size (rs_page_manager (snd s))"
    using pm_frame_psize [OF p(4)] by (simp add: rs_pm_def)
  have cnt: "pm_page_count (snd p) = pm_page_count (rs_page_manager (snd s))"
    using arg_cong [OF p(3), of length] by (simp add: rs_pm_def)
  have "rs_lay (rs_upd_pm p s) (if i = 0 then d else mp) (if i = 0 then pgs else pgs[i - 1 := d])"
    using assms(1) p(2,3) ps by (cases i) (auto simp: rs_lay_def)
  moreover have "rs_same s (rs_upd_pm p s)" using p(4) by (simp add: rs_same_def)
  ultimately show ?thesis using on_pm_run [of "WritePage i d" s, OF p(1)] cnt by auto
qed

definition rs_room :: "nat \<Rightarrow> rs_state \<Rightarrow> bool" where
  "rs_room n s = pm_room n (rs_pm s)"

lemma rs_room_mono: "rs_room n s \<Longrightarrow> m \<le> n \<Longrightarrow> rs_room m s"
  using mult_le_mono1 [of "pm_page_count (snd (rs_pm s)) + m" "pm_page_count (snd (rs_pm s)) + n"
      "pm_page_size (snd (rs_pm s))"]
  unfolding rs_room_def pm_room_def by linarith

lemma rs_room_same:
  "rs_room n s \<Longrightarrow> rs_same s s' \<Longrightarrow> pm_page_count (rs_page_manager (snd s')) = pm_page_count (rs_page_manager (snd s))
    \<Longrightarrow> rs_room n s'"
  unfolding rs_room_def rs_same_def
  by (rule pmi.room_pages [of "rs_pm s" "rs_pm s'"]) (auto simp: rs_pm_def)

lemma rs_alloc_lay:
  assumes "rs_lay s mp pgs" "rs_room (Suc n) s"
  shows "\<exists>s'. rs_alloc s = (Inr (Suc (length pgs)), s') \<and>
    rs_lay s' mp (pgs @ [replicate (rs_page_size (snd s)) 0]) \<and> rs_same s s' \<and> rs_room n s'"
proof -
  have c: "pm_clean (rs_pm s)" "length (pm_pages (rs_pm s)) = Suc (length pgs)"
    "pm_page_size (snd (rs_pm s)) = rs_page_size (snd s)"
    using assms(1) by (auto simp: rs_lay_def rs_pm_def)
  then obtain p where p: "AllocatePage (rs_pm s) = (Inr (Suc (length pgs)), p)" "pm_clean p"
    "pm_pages p = pm_pages (rs_pm s) @ [replicate (rs_page_size (snd s)) 0]" "pm_room n p"
    "pm_frame (rs_pm s) p"
    using pmi.alloc_in [OF c(1), of n] assms(2) by (auto simp: rs_room_def)
  let ?s = "rs_upd_pm p s"
  let ?s' = "(fst ?s, (snd ?s)\<lparr>rs_data_page_count := Suc (length pgs)\<rparr>)"
  have cnt: "Suc (length pgs) mod 2 ^ 64 = Suc (length pgs)"
    using rs_lay_small [OF assms(1)] by simp
  have run: "rs_alloc s = (Inr (Suc (length pgs)), ?s')"
    using assms(1) on_pm_run [of AllocatePage s, OF p(1)] cnt
    by (simp add: rs_alloc_def exec_simps rs_lay_def rs_upd_pm_def)
  have pm: "rs_pm ?s' = p" by (simp add: rs_upd_pm_def)
  have ps: "pm_page_size (snd p) = pm_page_size (rs_page_manager (snd s))"
    using pm_frame_psize [OF p(5)] by (simp add: rs_pm_def)
  have "rs_lay ?s' mp (pgs @ [replicate (rs_page_size (snd s)) 0])"
    using assms(1) p ps pm by (auto simp: rs_lay_def)
  moreover have "rs_same s ?s'" using p(5) pm by (auto simp: rs_same_def)
  moreover have "rs_room n ?s'" using p(4) pm by (simp add: rs_room_def)
  ultimately show ?thesis using run by blast
qed

lemma WritePageRows_lay:
  assumes "rs_lay s mp pgs" "i < length pgs" "batch_ok (rs_page_size (snd s)) rows"
  shows "\<exists>s'. WritePageRows (Suc i) rows s = (Inr (), s') \<and>
    rs_lay s' mp (pgs[i := data_page (rs_page_size (snd s)) rows]) \<and> rs_same s s' \<and>
    pm_page_count (rs_page_manager (snd s')) = pm_page_count (rs_page_manager (snd s))"
proof -
  let ?ps = "rs_page_size (snd s)"
  have "WritePageRows (Suc i) rows s = on_pm (WritePage (Suc i) (data_page ?ps rows)) s"
    using assms(3)
    by (simp add: WritePageRows_def Let_def bindS_guardS batch_ok_def data_page_def data_header_def)
  then show ?thesis
    using write_page_lay [OF assms(1), of "Suc i" "data_page ?ps rows"] assms(2,3) by simp
qed

lemma write_metadata_lay:
  assumes "rs_lay s mp pgs"
  shows "\<exists>s'. write_metadata s = (Inr (), s') \<and>
    rs_lay s' (padded (rs_page_size (snd s)) (SerializeMetadata (rs_metadata (snd s)))) pgs \<and> rs_same s s' \<and>
    pm_page_count (rs_page_manager (snd s')) = pm_page_count (rs_page_manager (snd s))"
proof -
  have "36 \<le> rs_page_size (snd s)" using assms by (simp add: rs_lay_def)
  then show ?thesis
    using write_page_lay [OF assms, of 0 "padded (rs_page_size (snd s)) (SerializeMetadata (rs_metadata (snd s)))"]
    by (simp add: write_metadata_def Let_def bindS_guardS kMetadataPageId_def)
qed

subsection \<open>Loading and rewriting all rows\<close>

lemma LoadPageRows_lay:
  assumes "rs_lay s mp (map (data_page ps) bs)" "ps = rs_page_size (snd s)" "list_all (batch_ok ps) bs"
    "i < length bs"
  shows "LoadPageRows (DataPageIdFromOrdinal i) s = (Inr (bs ! i), s)"
proof -
  have "batch_ok ps (bs ! i)" "ps < 2 ^ 32" using assms by (auto simp: list_all_length rs_lay_def)
  then show ?thesis
    using read_data_page [OF assms(1), of i] assms(4)
    by (simp add: LoadPageRows_def exec_simps parse_data_page)
qed

lemma LoadAllRows_lay:
  assumes "rs_lay s mp (map (data_page ps) bs)" "ps = rs_page_size (snd s)" "list_all (batch_ok ps) bs"
  shows "LoadAllRows s = (Inr (concat bs), s)"
proof -
  have o: "rs_is_open (snd s)" "rs_data_page_count (snd s) = length bs"
    using assms(1) by (auto simp: rs_lay_def)
  have "mapS (\<lambda>i. LoadPageRows (DataPageIdFromOrdinal i)) [0..<length bs] s
      = (Inr (map (nth bs) [0..<length bs]), s)"
    using LoadPageRows_lay [OF assms] by (intro mapS_pure) auto
  then show ?thesis using o by (simp add: LoadAllRows_def bindS_guardS exec_simps map_nth)
qed

lemma alloc_loop:
  assumes "rs_lay s mp pgs" "rs_room (length xs) s"
  shows "\<exists>s'. forS xs (\<lambda>_. bindS rs_alloc (\<lambda>_. ret ())) s = (Inr (), s') \<and>
    rs_lay s' mp (pgs @ replicate (length xs) (replicate (rs_page_size (snd s)) 0)) \<and> rs_same s s'"
  using assms
proof (induction xs arbitrary: s pgs)
  case (Cons x xs)
  let ?z = "replicate (rs_page_size (snd s)) 0"
  obtain s1 where s1: "rs_alloc s = (Inr (Suc (length pgs)), s1)" "rs_lay s1 mp (pgs @ [?z])"
    "rs_same s s1" "rs_room (length xs) s1"
    using rs_alloc_lay [OF Cons.prems(1), of "length xs"] Cons.prems(2) by auto
  have ps: "rs_page_size (snd s1) = rs_page_size (snd s)" using s1(3) by (simp add: rs_same_def)
  obtain s2 where s2: "forS xs (\<lambda>_. bindS rs_alloc (\<lambda>_. ret ())) s1 = (Inr (), s2)"
    "rs_lay s2 mp ((pgs @ [?z]) @ replicate (length xs) ?z)" "rs_same s1 s2"
    using Cons.IH [OF s1(2,4)] unfolding ps by blast
  have "forS (x # xs) (\<lambda>_. bindS rs_alloc (\<lambda>_. ret ())) s = (Inr (), s2)"
    using s1(1) s2(1) by (simp add: exec_simps)
  moreover have "rs_lay s2 mp (pgs @ replicate (length (x # xs)) ?z)" using s2(2) by simp
  ultimately show ?case using rs_same_trans [OF s1(3) s2(3)] by blast
qed auto

lemma write_loop:
  assumes "rs_lay s mp pgs" "n \<le> length pgs" "i \<le> n" "\<And>j. j < n \<Longrightarrow> batch_ok (rs_page_size (snd s)) (f j)"
  shows "\<exists>s' pgs'. forS [i..<n] (\<lambda>i. WritePageRows (DataPageIdFromOrdinal i) (f i)) s = (Inr (), s') \<and>
    rs_lay s' mp pgs' \<and> rs_same s s' \<and> length pgs' = length pgs \<and>
    (\<forall>j < length pgs. pgs' ! j = (if i \<le> j \<and> j < n then data_page (rs_page_size (snd s)) (f j) else pgs ! j))"
  using assms(3,1,2,4)
proof (induction i arbitrary: s pgs rule: inc_induct)
  case base
  then show ?case by auto
next
  case (step i)
  let ?ps = "rs_page_size (snd s)"
  have i: "i < length pgs" using step by simp
  obtain s1 where s1: "WritePageRows (Suc i) (f i) s = (Inr (), s1)"
    "rs_lay s1 mp (pgs[i := data_page ?ps (f i)])" "rs_same s s1"
    using WritePageRows_lay [OF step.prems(1) i] step by blast
  have ps: "rs_page_size (snd s1) = ?ps" using s1(3) by (simp add: rs_same_def)
  obtain s2 pgs2 where s2: "forS [Suc i..<n] (\<lambda>i. WritePageRows (DataPageIdFromOrdinal i) (f i)) s1 = (Inr (), s2)"
    "rs_lay s2 mp pgs2" "rs_same s1 s2" "length pgs2 = length pgs"
    "\<forall>j < length pgs. pgs2 ! j = (if Suc i \<le> j \<and> j < n then data_page ?ps (f j) else pgs[i := data_page ?ps (f i)] ! j)"
    using step.IH [OF s1(2)] step.prems ps by auto
  have "forS [i..<n] (\<lambda>i. WritePageRows (DataPageIdFromOrdinal i) (f i)) s = (Inr (), s2)"
    using s1(1) s2(1) step(2) DataPageId_small [OF step.prems(1), of i] i
    by (simp add: upt_conv_Cons exec_simps)
  moreover have "\<forall>j < length pgs. pgs2 ! j = (if i \<le> j \<and> j < n then data_page ?ps (f j) else pgs ! j)"
    using s2(5) step(2) by (auto simp: nth_list_update not_less_eq_eq dest: le_antisym)
  ultimately show ?case using s2 rs_same_trans [OF s1(3) s2(3)] by blast
qed

lemma RewriteAllRows_lay:
  assumes lay: "rs_lay s mp pgs" and ps: "ps = rs_page_size (snd s)"
    and bb: "build_batches ps rows [] [] 0 = Inr bs" and wf: "list_all row_wf rows"
    and room: "rs_room (length bs - length pgs) s"
  defines "bs' \<equiv> bs @ replicate (length pgs - length bs) []"
  shows "\<exists>s'. RewriteAllRows rows s = (Inr (), s') \<and>
    rs_lay s' (padded ps (SerializeMetadata (rs_metadata (snd s')))) (map (data_page ps) bs') \<and>
    rs_same s s' \<and> list_all (batch_ok ps) bs' \<and> concat bs' = rows"
proof -
  let ?z = "replicate ps (0::byte)"
  let ?f = "\<lambda>i. if i < length bs then bs ! i else []"
  have o: "rs_is_open (snd s)" "rs_data_page_count (snd s) = length pgs" "36 \<le> ps"
    using lay ps by (auto simp: rs_lay_def)
  have ok: "list_all (batch_ok ps) bs"
    using build_batches_ok [OF bb] wf o(3) by (simp add: batch_ok_Nil)
  have ok': "list_all (batch_ok ps) bs'" "concat bs' = rows"
    using ok o(3) build_batches_concat [OF bb] by (auto simp: bs'_def list_all_iff batch_ok_Nil)
  have len': "length bs' = length pgs + (length bs - length pgs)" by (simp add: bs'_def)
  obtain s1 where s1: "forS [length pgs..<length bs] (\<lambda>_. bindS rs_alloc (\<lambda>_. ret ())) s = (Inr (), s1)"
    "rs_lay s1 mp (pgs @ replicate (length bs - length pgs) ?z)" "rs_same s s1"
    using alloc_loop [OF lay, of "[length pgs..<length bs]"] room unfolding ps length_upt by blast
  have c1: "rs_data_page_count (snd s1) = length bs'" "rs_page_size (snd s1) = ps"
    using s1(2,3) ps len' by (auto simp: rs_lay_def rs_same_def)
  have "batch_ok ps (?f j)" for j
    using ok o(3) by (simp add: list_all_length batch_ok_Nil)
  then obtain s2 pgs2 where s2: "forS [0..<length bs'] (\<lambda>i. WritePageRows (DataPageIdFromOrdinal i) (?f i)) s1 = (Inr (), s2)"
    "rs_lay s2 mp pgs2" "rs_same s1 s2" "length pgs2 = length bs'"
    "\<forall>j < length bs'. pgs2 ! j = data_page ps (?f j)"
    using write_loop [OF s1(2), of "length bs'" 0 ?f] c1(2) len' by auto
  have "pgs2 = map (data_page ps) bs'"
    using s2(4,5) by (intro nth_equalityI) (auto simp: bs'_def nth_append)
  moreover obtain s3 where s3: "write_metadata s2 = (Inr (), s3)"
    "rs_lay s3 (padded ps (SerializeMetadata (rs_metadata (snd s2)))) pgs2" "rs_same s2 s3"
    using write_metadata_lay [OF s2(2)] s2(3) c1(2) by (auto simp: rs_same_def)
  moreover have "rs_metadata (snd s3) = rs_metadata (snd s2)"
    using s3(2,3) s2(2) by (simp add: rs_metadata_def rs_same_def rs_lay_def)
  moreover have "RewriteAllRows rows s = (Inr (), s3)"
    using o bb ps s1(1) s2(1) s3(1) c1 by (simp add: RewriteAllRows_def bindS_guardS bindS_liftR exec_simps)
  ultimately show ?thesis
    using ok' rs_same_trans [OF rs_same_trans [OF s1(3) s2(3)] s3(3)] by auto
qed

subsection \<open>The abstract table\<close>

text \<open>
  \<open>rs_rep s bs\<close>: the state represents the batches \<open>bs\<close>, the metadata page on disk agrees with the object,
  row ids are unique and below the next one, and the active count is the number of live rows.
\<close>

definition live :: "Row list \<Rightarrow> Row list" where
  "live rows = filter (\<lambda>r. \<not> row_deleted r) rows"

definition rows_ok :: "Row list \<Rightarrow> nat \<Rightarrow> bool" where
  "rows_ok rows next \<longleftrightarrow> distinct (map row_rid rows) \<and> list_all (\<lambda>r. row_rid r < next) rows"

definition rs_rep :: "rs_state \<Rightarrow> Row list list \<Rightarrow> bool" where
  "rs_rep s bs \<longleftrightarrow> (let ps = rs_page_size (snd s) in
     rs_lay s (padded ps (SerializeMetadata (rs_metadata (snd s)))) (map (data_page ps) bs) \<and>
     list_all (batch_ok ps) bs \<and> rows_ok (concat bs) (rs_next_row_id (snd s)) \<and>
     rs_next_row_id (snd s) < 2 ^ 64 \<and> rs_active_row_count (snd s) = length (live (concat bs)))"

lemma rs_repD:
  assumes "rs_rep s bs"
  shows "rs_lay s (padded (rs_page_size (snd s)) (SerializeMetadata (rs_metadata (snd s))))
      (map (data_page (rs_page_size (snd s))) bs)"
    "list_all (batch_ok (rs_page_size (snd s))) bs" "rows_ok (concat bs) (rs_next_row_id (snd s))"
    "rs_next_row_id (snd s) < 2 ^ 64" "rs_active_row_count (snd s) = length (live (concat bs))"
    "rs_is_open (snd s)" "rs_data_page_count (snd s) = length bs"
  using assms by (auto simp: rs_rep_def Let_def rs_lay_def)

lemma rs_rep_load: "rs_rep s bs \<Longrightarrow> LoadAllRows s = (Inr (concat bs), s)"
  by (rule LoadAllRows_lay [OF rs_repD(1) refl rs_repD(2)])

lemma rs_rep_wf: "rs_rep s bs \<Longrightarrow> list_all row_wf (concat bs)"
  using rs_repD(2) by (fastforce simp: batch_ok_def list_all_iff)

lemma rs_rep_fits: "rs_rep s bs \<Longrightarrow> list_all (fits (rs_page_size (snd s))) bs"
  using rs_repD(2) by (fastforce simp: batch_ok_def list_all_iff)

lemma fits_rows: "list_all (fits ps) bs \<Longrightarrow> list_all (row_fits ps) (concat bs)"
proof (induction bs)
  case (Cons b bs)
  have "r \<in> set b \<Longrightarrow> length (SerializeRowEntry r) \<le> payload_len b" for r
    by (induction b) auto
  then show ?case using Cons by (fastforce simp: row_fits_def list_all_iff)
qed simp

text \<open>A method that loads all rows, changes them and the counters, and rewrites the store.\<close>

lemma rewrite_rep:
  assumes rep: "rs_rep s bs" and s': "fst s' = fst s" "snd s' = (snd s)\<lparr>rs_next_row_id := nx, rs_active_row_count := length (live rows)\<rparr>"
    and wf: "list_all row_wf rows" and ok: "rows_ok rows nx" "nx < 2 ^ 64"
    and bb: "build_batches (rs_page_size (snd s)) rows [] [] 0 = Inr bs'"
    and room: "rs_room (length bs' - length bs) s"
  shows "\<exists>s'' bs''. RewriteAllRows rows s' = (Inr (), s'') \<and> rs_rep s'' bs'' \<and> concat bs'' = rows \<and>
    rs_same s' s'' \<and> length bs \<le> length bs''"
proof -
  have pm: "rs_pm s' = rs_pm s" using s' by (simp add: rs_pm_def)
  have lay: "rs_lay s' (padded (rs_page_size (snd s)) (SerializeMetadata (rs_metadata (snd s))))
      (map (data_page (rs_page_size (snd s))) bs)"
    using rs_repD(1) [OF rep] s' pm by (simp add: rs_lay_def)
  have ps: "rs_page_size (snd s') = rs_page_size (snd s)" using s' by simp
  have "rs_room (length bs' - length (map (data_page (rs_page_size (snd s))) bs)) s'"
    using room pm by (simp add: rs_room_def)
  from RewriteAllRows_lay [OF lay ps [symmetric] bb wf this]
  obtain s'' where "RewriteAllRows rows s' = (Inr (), s'')"
    and "rs_lay s'' (padded (rs_page_size (snd s)) (SerializeMetadata (rs_metadata (snd s''))))
      (map (data_page (rs_page_size (snd s))) (bs' @ replicate (length bs - length bs') []))"
    and same: "rs_same s' s''"
    and "list_all (batch_ok (rs_page_size (snd s))) (bs' @ replicate (length bs - length bs') [])"
    and "concat (bs' @ replicate (length bs - length bs') []) = rows"
    by auto
  moreover have "rs_page_size (snd s'') = rs_page_size (snd s)" "rs_next_row_id (snd s'') = nx"
    "rs_active_row_count (snd s'') = length (live rows)"
    using same s' by (auto simp: rs_same_def)
  ultimately have "rs_rep s'' (bs' @ replicate (length bs - length bs') [])"
    using ok by (simp add: rs_rep_def Let_def)
  then show ?thesis
    using \<open>RewriteAllRows rows s' = (Inr (), s'')\<close> same
      \<open>concat (bs' @ replicate (length bs - length bs') []) = rows\<close>
    by (intro exI [of _ s''] exI [of _ "bs' @ replicate (length bs - length bs') []"]) auto
qed

subsection \<open>Looking rows up\<close>

lemma FindRowIndexById_eq:
  "FindRowIndexById rows rid =
     (if rid \<in> row_rid ` set rows then Inr (length (takeWhile (\<lambda>r. row_rid r \<noteq> rid) rows)) else Inl kNotFound)"
proof (cases "rid \<in> row_rid ` set rows")
  case True
  then have "takeWhile (\<lambda>r. row_rid r \<noteq> rid) rows \<noteq> rows" by (auto simp: takeWhile_eq_all_conv)
  then have "length (takeWhile (\<lambda>r. row_rid r \<noteq> rid) rows) \<noteq> length rows"
    by (metis takeWhile_eq_take take_all order_refl)
  with True show ?thesis by (simp add: FindRowIndexById_def Let_def)
next
  case False
  then have "takeWhile (\<lambda>r. row_rid r \<noteq> rid) rows = rows" by (auto simp: takeWhile_eq_all_conv)
  with False show ?thesis by (simp only: FindRowIndexById_def Let_def if_True if_False simp_thms)
qed

lemma FindRowIndexById_Inr:
  "FindRowIndexById rows rid = Inr i \<Longrightarrow> i < length rows \<and> row_rid (rows ! i) = rid"
proof -
  assume a: "FindRowIndexById rows rid = Inr i"
  then have i: "i = length (takeWhile (\<lambda>r. row_rid r \<noteq> rid) rows)" "i \<noteq> length rows"
    by (auto simp: FindRowIndexById_def Let_def split: if_splits)
  then have "i < length rows" by (metis le_neq_implies_less length_takeWhile_le)
  then show ?thesis using nth_length_takeWhile [of "\<lambda>r. row_rid r \<noteq> rid" rows] i by auto
qed

definition lookup_row :: "Row list \<Rightarrow> nat \<Rightarrow> Row option" where
  "lookup_row rows rid = find (\<lambda>r. row_rid r = rid) rows"

lemma FindRowIndexById_lookup:
  "(case FindRowIndexById rows rid of Inl e \<Rightarrow> None | Inr i \<Rightarrow> Some (rows ! i)) = lookup_row rows rid"
  by (induction rows) (auto simp: FindRowIndexById_def lookup_row_def Let_def split: if_splits)

lemma FindRowIndexById_cases:
  obtains (found) i where "FindRowIndexById rows rid = Inr i" "i < length rows" "row_rid (rows ! i) = rid"
      "lookup_row rows rid = Some (rows ! i)"
    | (missing) "FindRowIndexById rows rid = Inl kNotFound" "lookup_row rows rid = None"
      "rid \<notin> row_rid ` set rows"
proof (cases "FindRowIndexById rows rid")
  case (Inl e)
  then have "e = kNotFound" "rid \<notin> row_rid ` set rows" by (auto simp: FindRowIndexById_eq split: if_splits)
  then show ?thesis using missing Inl FindRowIndexById_lookup [of rows rid] by simp
next
  case (Inr i)
  then show ?thesis using found FindRowIndexById_Inr [OF Inr] FindRowIndexById_lookup [of rows rid] by simp
qed

subsection \<open>Finding a page\<close>

lemma find_free_lay:
  assumes "rs_lay s mp (map (data_page ps) bs)" "ps = rs_page_size (snd s)" "list_all (batch_ok ps) bs"
    "\<forall>j \<in> set xs. j < length bs"
  shows "\<exists>r. find_free_page xs sz s = (Inr r, s) \<and>
    (r = None \<longrightarrow> (\<forall>j \<in> set xs. ps < page_header_size + payload_len (bs ! j) + sz)) \<and>
    (\<forall>p. r = Some p \<longrightarrow> (\<exists>j < length bs. p = Suc j \<and> page_header_size + payload_len (bs ! j) + sz \<le> ps))"
  using assms(4)
proof (induction xs)
  case (Cons j xs)
  have j: "j < length bs" "ps < 2 ^ 32" "batch_ok ps (bs ! j)"
    using Cons.prems assms(1,2,3) by (auto simp: rs_lay_def list_all_length)
  have rd: "on_pm (ReadPage (DataPageIdFromOrdinal j)) s = (Inr (data_page ps (bs ! j)), s)"
    using read_data_page [OF assms(1), of j] j by simp
  have hd: "DeserializeDataPageHeader (data_page ps (bs ! j)) = Inr (data_header (bs ! j))"
    using header_data_page [OF j(3,2)] .
  have id: "DataPageIdFromOrdinal j = Suc j"
    using DataPageId_small [OF assms(1), of j] j(1) by simp
  have step: "find_free_page (j # xs) sz s =
      (if page_header_size + payload_len (bs ! j) + sz \<le> ps then (Inr (Some (Suc j)), s) else find_free_page xs sz s)"
    using rd hd assms(2) id by (simp add: exec_simps data_header_def)
  show ?case
  proof (cases "page_header_size + payload_len (bs ! j) + sz \<le> ps")
    case True
    then have "find_free_page (j # xs) sz s = (Inr (Some (Suc j)), s)" using step by (simp only: if_True)
    then show ?thesis using True j(1) by blast
  next
    case False
    then have "find_free_page (j # xs) sz s = find_free_page xs sz s" using step by (simp only: if_False)
    moreover have "ps < page_header_size + payload_len (bs ! j) + sz" using False by simp
    ultimately show ?thesis using Cons by (metis list.set_intros(2) set_ConsD)
  qed
qed simp

lemma FindPageWithFreeSpace_lay:
  assumes lay: "rs_lay s mp (map (data_page ps) bs)" and ps: "ps = rs_page_size (snd s)"
    and ok: "list_all (batch_ok ps) bs" and sz: "page_header_size + sz \<le> ps" and room: "rs_room 1 s"
  shows "\<exists>s' bs' j. FindPageWithFreeSpace sz s = (Inr (Suc j), s') \<and>
    rs_lay s' mp (map (data_page ps) bs') \<and> rs_same s s' \<and> list_all (batch_ok ps) bs' \<and> j < length bs' \<and>
    page_header_size + payload_len (bs' ! j) + sz \<le> ps \<and> concat bs' = concat bs \<and>
    (bs' = bs \<or> bs' = bs @ [[]])"
proof -
  have o: "rs_is_open (snd s)" "rs_data_page_count (snd s) = length bs" "36 \<le> ps"
    using lay ps by (auto simp: rs_lay_def)
  obtain r where r: "find_free_page [0..<length bs] sz s = (Inr r, s)"
    "\<forall>p. r = Some p \<longrightarrow> (\<exists>j < length bs. p = Suc j \<and> page_header_size + payload_len (bs ! j) + sz \<le> ps)"
    using find_free_lay [OF lay ps ok, of "[0..<length bs]" sz] by auto
  show ?thesis
  proof (cases r)
    case (Some p)
    then obtain j where j: "j < length bs" "p = Suc j" "page_header_size + payload_len (bs ! j) + sz \<le> ps"
      using r(2) by auto
    have "FindPageWithFreeSpace sz s = (Inr (Suc j), s)"
      using o r(1) sz ps Some j(2) by (simp add: FindPageWithFreeSpace_def bindS_guardS exec_simps)
    then show ?thesis using j lay ok by auto
  next
    case None
    obtain s1 where s1: "rs_alloc s = (Inr (Suc (length bs)), s1)"
      "rs_lay s1 mp (map (data_page ps) bs @ [replicate (rs_page_size (snd s)) 0])" "rs_same s s1"
      using rs_alloc_lay [OF lay, of 0] room by auto
    have ps1: "rs_page_size (snd s1) = ps" using s1(3) ps by (simp add: rs_same_def)
    obtain s2 where s2: "WritePageRows (Suc (length bs)) [] s1 = (Inr (), s2)"
      "rs_lay s2 mp ((map (data_page ps) bs @ [replicate (rs_page_size (snd s)) 0])[length bs := data_page ps []])"
      "rs_same s1 s2"
      using WritePageRows_lay [OF s1(2), of "length bs" "[]"] ps1 o(3) by (auto simp: batch_ok_Nil)
    have "FindPageWithFreeSpace sz s = (Inr (Suc (length bs)), s2)"
      using o r(1) sz ps None s1(1) s2(1) by (simp add: FindPageWithFreeSpace_def bindS_guardS exec_simps)
    moreover have "rs_lay s2 mp (map (data_page ps) (bs @ [[]]))"
      using s2(2) list_update_length [of "map (data_page ps) bs" _ "[]"] by simp
    moreover have "list_all (batch_ok ps) (bs @ [[]])" using ok o(3) by (simp add: batch_ok_Nil)
    ultimately show ?thesis
      using rs_same_trans [OF s1(3) s2(3)] sz
      by (intro exI [of _ s2] exI [of _ "bs @ [[]]"] exI [of _ "length bs"]) simp
  qed
qed

lemma concat_update_snoc:
  assumes "j < length bs"
  shows "\<exists>pre post. concat bs = pre @ post \<and> concat (bs[j := bs ! j @ [r]]) = pre @ r # post"
proof -
  have "concat bs = concat (take j bs) @ bs ! j @ concat (drop (Suc j) bs)"
    using assms by (metis append.assoc concat.simps(2) concat_append id_take_nth_drop)
  moreover have "concat (bs[j := bs ! j @ [r]]) = concat (take j bs) @ (bs ! j @ [r]) @ concat (drop (Suc j) bs)"
    using assms by (simp add: upd_conv_take_nth_drop)
  ultimately show ?thesis
    by (intro exI [of _ "concat (take j bs) @ bs ! j"] exI [of _ "concat (drop (Suc j) bs)"]) simp
qed

lemma rows_ok_length: "rows_ok rows next \<Longrightarrow> length rows \<le> next"
proof -
  assume a: "rows_ok rows next"
  have "length rows = card (row_rid ` set rows)"
    using a distinct_card [of "map row_rid rows"] by (simp add: rows_ok_def)
  also have "\<dots> \<le> card {..<next}"
    using a by (intro card_mono) (auto simp: rows_ok_def list_all_iff)
  finally show ?thesis by simp
qed

lemma live_length: "length (live rows) \<le> length rows"
  by (simp add: live_def)

lemma rows_ok_insert: "rows_ok (pre @ post) n \<Longrightarrow> row_rid r = n \<Longrightarrow> rows_ok (pre @ r # post) (Suc n)"
  by (auto simp: rows_ok_def list_all_iff intro: less_SucI)

text \<open>Writing the metadata of a consistent object completes the representation.\<close>

lemma metadata_rep:
  assumes "rs_lay s mp (map (data_page ps) bs)" "ps = rs_page_size (snd s)" "list_all (batch_ok ps) bs"
    "rows_ok (concat bs) (rs_next_row_id (snd s))" "rs_next_row_id (snd s) < 2 ^ 64"
    "rs_active_row_count (snd s) = length (live (concat bs))"
  shows "\<exists>s'. WriteMetadataPage s = (Inr (), s') \<and> rs_rep s' bs \<and> rs_same s s'"
proof -
  obtain s' where s': "write_metadata s = (Inr (), s')"
    "rs_lay s' (padded ps (SerializeMetadata (rs_metadata (snd s)))) (map (data_page ps) bs)" "rs_same s s'"
    using write_metadata_lay [OF assms(1)] assms(2) by blast
  have md: "rs_metadata (snd s') = rs_metadata (snd s)"
    using s'(2,3) assms(1) by (simp add: rs_metadata_def rs_same_def rs_lay_def)
  have "rs_rep s' bs"
    using s'(2,3) md assms(2-6) by (simp add: rs_rep_def Let_def rs_same_def)
  moreover have "rs_is_open (snd s)" using assms(1) by (simp add: rs_lay_def)
  ultimately show ?thesis
    using s'(1,3) by (auto simp: WriteMetadataPage_def bindS_guardS)
qed

text \<open>A row that gets the next id, into the first page with room or a fresh one.\<close>

definition new_row :: "rs_state \<Rightarrow> Tuple \<Rightarrow> Row" where
  "new_row s t = \<lparr>row_rid = rs_next_row_id (snd s), row_tuple = t, row_deleted = False\<rparr>"

definition rs_other :: "rs_state \<Rightarrow> rs_state \<Rightarrow> bool" where
  "rs_other s s' \<longleftrightarrow> pm_frame (rs_pm s) (rs_pm s') \<and> rs_file_path (snd s') = rs_file_path (snd s) \<and>
     rs_page_size (snd s') = rs_page_size (snd s)"

lemma rs_same_other: "rs_same s s' \<Longrightarrow> rs_other s s'"
  by (simp add: rs_same_def rs_other_def)

lemma rs_other_trans: "rs_other s s' \<Longrightarrow> rs_other s' s'' \<Longrightarrow> rs_other s s''"
  by (auto simp: rs_other_def intro: pmi.frame_trans)

lemma rs_Insert_rep:
  assumes rep: "rs_rep s bs" and wf: "tuple_wf (row_tuple row)"
    and fit: "row_fits (rs_page_size (snd s)) (new_row s (row_tuple row))"
    and room: "rs_room 1 s" and nx: "rs_next_row_id (snd s) + 1 < 2 ^ 64"
  shows "\<exists>s' bs' pre post. rs_Insert row s = (Inr (rs_next_row_id (snd s)), s') \<and> rs_rep s' bs' \<and>
    concat bs = pre @ post \<and> concat bs' = pre @ new_row s (row_tuple row) # post \<and> rs_other s s' \<and>
    rs_next_row_id (snd s') = rs_next_row_id (snd s) + 1"
proof -
  let ?ps = "rs_page_size (snd s)" and ?r = "new_row s (row_tuple row)" and ?n = "rs_next_row_id (snd s)"
  let ?mp = "padded ?ps (SerializeMetadata (rs_metadata (snd s)))"
  note R = rs_repD [OF rep]
  have rr: "row\<lparr>row_rid := ?n, row_deleted := False\<rparr> = ?r" by (cases row) (simp add: new_row_def)
  have rwf: "row_wf ?r" using wf R(4) by (simp add: row_wf_def new_row_def)
  obtain s1 bs1 j where s1: "FindPageWithFreeSpace (length (SerializeRowEntry ?r)) s = (Inr (Suc j), s1)"
    "rs_lay s1 ?mp (map (data_page ?ps) bs1)" "rs_same s s1" "list_all (batch_ok ?ps) bs1" "j < length bs1"
    "page_header_size + payload_len (bs1 ! j) + length (SerializeRowEntry ?r) \<le> ?ps" "concat bs1 = concat bs"
    using FindPageWithFreeSpace_lay [OF R(1) refl R(2) _ room, of "length (SerializeRowEntry ?r)"] fit
    unfolding row_fits_def by blast
  have ps1: "?ps = rs_page_size (snd s1)" using s1(3) by (simp add: rs_same_def)
  have ld: "LoadPageRows (Suc j) s1 = (Inr (bs1 ! j), s1)"
    using LoadPageRows_lay [OF s1(2) ps1 s1(4,5)] DataPageId_small [OF s1(2), of j] s1(5) by simp
  have bok: "batch_ok ?ps (bs1 ! j @ [?r])"
    using s1(4,5,6) rwf by (auto simp: batch_ok_def list_all_iff)
  obtain s2 where s2: "WritePageRows (Suc j) (bs1 ! j @ [?r]) s1 = (Inr (), s2)"
    "rs_lay s2 ?mp ((map (data_page ?ps) bs1)[j := data_page ?ps (bs1 ! j @ [?r])])" "rs_same s1 s2"
    using WritePageRows_lay [OF s1(2), of j "bs1 ! j @ [?r]"] s1(5) bok ps1 by auto
  let ?bs' = "bs1[j := bs1 ! j @ [?r]]"
  obtain pre post where pp: "concat bs = pre @ post" "concat ?bs' = pre @ ?r # post"
    using concat_update_snoc [OF s1(5), of ?r] s1(7) by auto
  have same2: "rs_same s s2" using rs_same_trans [OF s1(3) s2(3)] .
  have act: "rs_active_row_count (snd s2) = length (live (concat bs))" "length (live (concat bs)) + 1 < 2 ^ 64"
    using same2 R(3,5) nx rows_ok_length [OF R(3)] live_length [of "concat bs"] by (auto simp: rs_same_def)
  let ?s3 = "(fst s2, (snd s2)\<lparr>rs_next_row_id := ?n + 1, rs_active_row_count := rs_active_row_count (snd s2) + 1\<rparr>)"
  have lay3: "rs_lay ?s3 ?mp (map (data_page ?ps) ?bs')"
    using s2(2) by (simp add: rs_lay_def rs_pm_def map_update)
  have "rows_ok (concat ?bs') (?n + 1)"
    using rows_ok_insert [of pre post ?n ?r] R(3) unfolding pp by (simp add: new_row_def)
  moreover have "list_all (batch_ok ?ps) ?bs'"
    using s1(4,5) bok by (auto simp: list_all_length nth_list_update)
  moreover have "length (live (concat ?bs')) = length (live (concat bs)) + 1"
    unfolding pp by (simp add: live_def new_row_def)
  ultimately obtain s4 where s4: "WriteMetadataPage ?s3 = (Inr (), s4)" "rs_rep s4 ?bs'" "rs_same ?s3 s4"
    using metadata_rep [OF lay3] act nx same2 by (auto simp: rs_same_def)
  have "rs_Insert row s = (Inr ?n, s4)"
    using R(6) s1(1) ld s2(1) act nx s4(1) same2
    by (cases s2) (simp add: rs_Insert_def bindS_guardS Let_def rr exec_simps new_row_def [of s] rs_same_def)
  moreover have "rs_other s ?s3" using same2 by (simp add: rs_same_def rs_other_def rs_pm_def)
  ultimately show ?thesis
    using s4 pp rs_other_trans [OF _ rs_same_other [OF s4(3)]] by (auto simp: rs_same_def)
qed

subsection \<open>The methods on the abstract table\<close>

lemma rs_Insert_too_large:
  assumes "rs_rep s bs" "\<not> row_fits (rs_page_size (snd s)) (new_row s (row_tuple row))"
  shows "rs_Insert row s = (Inl kInvalidArgument, s)"
proof -
  have "row\<lparr>row_rid := rs_next_row_id (snd s), row_deleted := False\<rparr> = new_row s (row_tuple row)"
    by (cases row) (simp add: new_row_def)
  then show ?thesis
    using assms rs_repD(6) [OF assms(1)]
    by (simp add: rs_Insert_def FindPageWithFreeSpace_def bindS_guardS Let_def row_fits_def exec_simps)
qed

lemma rs_Scan_rep: "rs_rep s bs \<Longrightarrow> rs_Scan s = (Inr (live (concat bs)), s)"
  using rs_repD(6) [of s bs] rs_rep_load [of s bs]
  by (simp add: rs_Scan_def bindS_guardS exec_simps live_def)

lemma GetIncludingDeleted_rep:
  assumes "rs_rep s bs"
  shows "GetIncludingDeleted rid s =
    ((case lookup_row (concat bs) rid of None \<Rightarrow> Inl kNotFound | Some r \<Rightarrow> Inr r), s)"
  using rs_repD(6) [OF assms] rs_rep_load [OF assms]
  by (cases rule: FindRowIndexById_cases [of "concat bs" rid])
    (simp_all add: GetIncludingDeleted_def bindS_guardS bindS_liftR exec_simps)

lemma rs_Get_rep:
  assumes "rs_rep s bs"
  shows "rs_Get rid s =
    ((case lookup_row (concat bs) rid of None \<Rightarrow> Inl kNotFound
      | Some r \<Rightarrow> if row_deleted r then Inl kNotFound else Inr r), s)"
  using rs_repD(6) [OF assms] GetIncludingDeleted_rep [OF assms, of rid]
  by (cases "lookup_row (concat bs) rid") (auto simp: rs_Get_def bindS_guardS exec_simps)

lemma rows_ok_update:
  assumes "rows_ok rows n" "i < length rows" "row_rid r = row_rid (rows ! i)"
  shows "rows_ok (rows[i := r]) n"
proof -
  have m: "map row_rid (rows[i := r]) = map row_rid rows"
    using assms(2,3) by (simp add: map_update list_update_same_conv)
  have "list_all (\<lambda>k. k < n) (map row_rid rows)" "distinct (map row_rid rows)"
    using assms(1) by (auto simp: rows_ok_def list_all_iff)
  then have "list_all (\<lambda>k. k < n) (map row_rid (rows[i := r]))" "distinct (map row_rid (rows[i := r]))"
    unfolding m by auto
  then show ?thesis by (simp add: rows_ok_def list_all_iff)
qed

lemma live_update:
  assumes "i < length rows"
  shows "length (live (rows[i := r])) + (if row_deleted (rows ! i) then 0 else 1) =
    length (live rows) + (if row_deleted r then 0 else 1)"
proof -
  have "rows = take i rows @ rows ! i # drop (Suc i) rows" using assms by (rule id_take_nth_drop)
  then have "live rows = live (take i rows @ rows ! i # drop (Suc i) rows)" by simp
  moreover have "rows[i := r] = take i rows @ r # drop (Suc i) rows" using assms by (rule upd_conv_take_nth_drop)
  ultimately show ?thesis by (simp add: live_def)
qed

lemma lookup_wf:
  assumes "rs_rep s bs" "i < length (concat bs)"
  shows "row_wf (concat bs ! i)" "row_rid (concat bs ! i) < 2 ^ 64"
  using rs_rep_wf [OF assms(1)] assms(2) by (auto simp: list_all_length row_wf_def)

lemma list_all_update: "list_all P xs \<Longrightarrow> P x \<Longrightarrow> list_all P (xs[i := x])"
  by (auto simp: list_all_iff dest!: set_update_subset_insert [THEN subsetD])

text \<open>
  An update whose new tuple fits a page succeeds when there is room for the pages the repacking may need;
  an unknown or deleted row is an error that changes nothing.
\<close>

lemma rs_Update_rep:
  assumes rep: "rs_rep s bs" and r: "lookup_row (concat bs) rid = Some r" "\<not> row_deleted r"
    and wf: "tuple_wf t" and fit: "row_fits (rs_page_size (snd s)) (r\<lparr>row_tuple := t\<rparr>)"
    and room: "rs_room (length (concat bs)) s"
  shows "\<exists>s' bs' i. rs_Update rid t s = (Inr (), s') \<and> rs_rep s' bs' \<and> i < length (concat bs) \<and>
    concat bs ! i = r \<and> concat bs' = (concat bs)[i := r\<lparr>row_tuple := t\<rparr>] \<and> rs_same s s'"
proof -
  let ?rows = "concat bs" and ?ps = "rs_page_size (snd s)"
  note R = rs_repD [OF rep]
  obtain i where i: "FindRowIndexById ?rows rid = Inr i" "i < length ?rows" "?rows ! i = r"
    using r(1) by (cases rule: FindRowIndexById_cases [of ?rows rid]) auto
  let ?rows' = "?rows[i := r\<lparr>row_tuple := t\<rparr>]"
  have wf': "list_all row_wf ?rows'"
    using rs_rep_wf [OF rep] lookup_wf [OF rep i(2)] i(3) wf
    by (intro list_all_update) (auto simp: row_wf_def)
  have fits': "list_all (row_fits ?ps) ?rows'"
    using fits_rows [OF rs_rep_fits [OF rep]] fit by (rule list_all_update)
  then obtain bs' where bb: "build_batches ?ps ?rows' [] [] 0 = Inr bs'"
    using build_batches_total by blast
  have ok: "rows_ok ?rows' (rs_next_row_id (snd s))"
    using R(3) i by (intro rows_ok_update) auto
  have lv: "length (live ?rows') = length (live ?rows)"
    using live_update [OF i(2), of "r\<lparr>row_tuple := t\<rparr>"] i(3) r(2) by simp
  have "length bs' \<le> length ?rows"
    using build_batches_optimal [of ?ps "map (\<lambda>r. [r]) ?rows'" bs'] bb fits'
    by (simp add: list_all_iff row_fits_def concat_map_singleton)
  then have "rs_room (length bs' - length bs) s" by (intro rs_room_mono [OF room]) simp
  then obtain s' bs'' where "RewriteAllRows ?rows' s = (Inr (), s')" "rs_rep s' bs''" "concat bs'' = ?rows'" "rs_same s s'"
    using rewrite_rep [OF rep refl _ wf' ok R(4) bb] lv R(5) by auto
  moreover have "rs_Update rid t s = RewriteAllRows ?rows' s"
    using R(6) rs_rep_load [OF rep] i r(2) by (simp add: rs_Update_def bindS_guardS bindS_liftR exec_simps)
  ultimately show ?thesis using i by auto
qed

lemma rs_Update_missing:
  assumes "rs_rep s bs" "lookup_row (concat bs) rid = None \<or> (\<exists>r. lookup_row (concat bs) rid = Some r \<and> row_deleted r)"
  shows "rs_Update rid t s = (Inl kNotFound, s)"
  using rs_repD(6) [OF assms(1)] rs_rep_load [OF assms(1)] assms(2)
  by (cases rule: FindRowIndexById_cases [of "concat bs" rid])
    (auto simp: rs_Update_def bindS_guardS bindS_liftR exec_simps)

lemma split_like:
  "map f ys = map f (concat bs) \<Longrightarrow> \<exists>bs'. concat bs' = ys \<and> map (map f) bs' = map (map f) bs"
proof (induction bs arbitrary: ys)
  case (Cons b bs)
  then obtain ys1 ys2 where "ys = ys1 @ ys2" "map f ys1 = map f b" "map f ys2 = map f (concat bs)"
    by (auto simp: map_eq_append_conv)
  with Cons.IH [of ys2] show ?case by (metis concat.simps(2) list.map(2))
qed simp

lemma payload_len_sum: "payload_len b = sum_list (map (\<lambda>r. length (SerializeRowEntry r)) b)"
  by (induction b) simp_all

lemma build_batches_same_sizes:
  assumes "map (\<lambda>r. length (SerializeRowEntry r)) rows = map (\<lambda>r. length (SerializeRowEntry r)) (concat bs)"
    "list_all (fits ps) bs"
  shows "\<exists>bs'. build_batches ps rows [] [] 0 = Inr bs' \<and> length bs' \<le> length bs"
proof -
  obtain bs2 where bs2: "concat bs2 = rows"
    "map (map (\<lambda>r. length (SerializeRowEntry r))) bs2 = map (map (\<lambda>r. length (SerializeRowEntry r))) bs"
    using split_like [OF assms(1)] by blast
  have "map payload_len bs2 = map payload_len bs"
    using arg_cong [OF bs2(2), of "map sum_list"] by (simp add: payload_len_sum [abs_def] o_def)
  then have f: "list_all (fits ps) bs2" "length bs2 = length bs"
    using assms(2) by (auto simp: list_all_length dest: map_eq_imp_length_eq)
      (metis length_map nth_map)
  then show ?thesis
    using build_batches_total [of ps rows "[]" "[]" 0] fits_rows [OF f(1)] build_batches_optimal [of ps bs2] bs2(1)
    by fastforce
qed

text \<open>A tombstone has the size of the row, so a delete repacks into at most the pages there are.\<close>

lemma rs_Delete_rep:
  assumes rep: "rs_rep s bs" and r: "lookup_row (concat bs) rid = Some r" "\<not> row_deleted r"
  shows "\<exists>s' bs' i. rs_Delete rid s = (Inr (), s') \<and> rs_rep s' bs' \<and> i < length (concat bs) \<and>
    concat bs ! i = r \<and> concat bs' = (concat bs)[i := r\<lparr>row_deleted := True\<rparr>] \<and> rs_other s s' \<and>
    rs_next_row_id (snd s') = rs_next_row_id (snd s)"
proof -
  let ?rows = "concat bs" and ?ps = "rs_page_size (snd s)"
  note R = rs_repD [OF rep]
  obtain i where i: "FindRowIndexById ?rows rid = Inr i" "i < length ?rows" "?rows ! i = r"
    using r(1) by (cases rule: FindRowIndexById_cases [of ?rows rid]) auto
  let ?rows' = "?rows[i := r\<lparr>row_deleted := True\<rparr>]"
  let ?s = "(fst s, (snd s)\<lparr>rs_next_row_id := rs_next_row_id (snd s), rs_active_row_count := length (live ?rows')\<rparr>)"
  have wf': "list_all row_wf ?rows'"
    using rs_rep_wf [OF rep] lookup_wf [OF rep i(2)] i(3)
    by (intro list_all_update) (auto simp: row_wf_def)
  have ok: "rows_ok ?rows' (rs_next_row_id (snd s))"
    using R(3) i by (intro rows_ok_update) auto
  have lv: "length (live ?rows) = length (live ?rows') + 1"
    using live_update [OF i(2), of "r\<lparr>row_deleted := True\<rparr>"] i(3) r(2) by simp
  have lt: "length (live ?rows) < 2 ^ 64"
    using live_length [of ?rows] rows_ok_length [OF R(3)] R(4) by linarith
  have "map (\<lambda>r. length (SerializeRowEntry r)) ?rows' = map (\<lambda>r. length (SerializeRowEntry r)) ?rows"
    using i(2,3) by (simp add: map_update list_update_same_conv length_entry)
  then obtain bs' where bs': "build_batches ?ps ?rows' [] [] 0 = Inr bs'" "length bs' \<le> length bs"
    using build_batches_same_sizes rs_rep_fits [OF rep] by blast
  then have "rs_room (length bs' - length bs) s"
    using R(1) by (simp add: rs_room_def pm_room_def rs_lay_def pm_clean_def split: prod.splits)
  then obtain s' bs'' where s': "RewriteAllRows ?rows' ?s = (Inr (), s')" "rs_rep s' bs''" "concat bs'' = ?rows'" "rs_same ?s s'"
    using rewrite_rep [OF rep _ _ wf' ok R(4) bs'(1), of ?s] by auto
  have "(rs_active_row_count (snd s) + 2 ^ 64 - 1) mod 2 ^ 64 = length (live ?rows')"
    using R(5) lv lt by simp
  then have "rs_Delete rid s = RewriteAllRows ?rows' ?s"
    using R(6) rs_rep_load [OF rep] i r(2)
    by (cases s) (simp add: rs_Delete_def bindS_guardS bindS_liftR exec_simps)
  moreover have "rs_other s s'" using s'(4) by (auto simp: rs_same_def rs_other_def rs_pm_def)
  ultimately show ?thesis using s' i by (auto simp: rs_same_def)
qed

lemma rs_Delete_missing:
  assumes "rs_rep s bs" "lookup_row (concat bs) rid = None"
  shows "rs_Delete rid s = (Inl kNotFound, s)"
  using rs_repD(6) [OF assms(1)] rs_rep_load [OF assms(1)] assms(2)
  by (cases rule: FindRowIndexById_cases [of "concat bs" rid])
    (auto simp: rs_Delete_def bindS_guardS bindS_liftR exec_simps)

lemma rs_Delete_deleted:
  assumes "rs_rep s bs" "lookup_row (concat bs) rid = Some r" "row_deleted r"
  shows "rs_Delete rid s = (Inr (), s)"
  using rs_repD(6) [OF assms(1)] rs_rep_load [OF assms(1)] assms(2,3)
  by (cases rule: FindRowIndexById_cases [of "concat bs" rid])
    (auto simp: rs_Delete_def bindS_guardS bindS_liftR exec_simps)

text \<open>Restoring puts the row back under its id, live, whether it was deleted, overwritten or lost.\<close>

definition restored :: "Row list \<Rightarrow> Row \<Rightarrow> Row list" where
  "restored rows r = (case FindRowIndexById rows (row_rid r) of
     Inr i \<Rightarrow> rows[i := r\<lparr>row_deleted := False\<rparr>] | Inl _ \<Rightarrow> rows @ [r\<lparr>row_deleted := False\<rparr>])"

lemma rows_ok_mono: "rows_ok rows n \<Longrightarrow> n \<le> m \<Longrightarrow> rows_ok rows m"
  by (auto simp: rows_ok_def list_all_iff)

lemma restored_ok:
  assumes "rows_ok rows n"
  shows "rows_ok (restored rows r) (max n (row_rid r + 1))"
proof (cases rule: FindRowIndexById_cases [of rows "row_rid r"])
  case (found i)
  then have "rows_ok (rows[i := r\<lparr>row_deleted := False\<rparr>]) n"
    using assms by (intro rows_ok_update) auto
  then show ?thesis using found by (auto simp: restored_def intro: rows_ok_mono)
next
  case missing
  then show ?thesis using assms by (auto simp: restored_def rows_ok_def list_all_iff image_iff)
qed

lemma restored_length: "length (restored rows r) \<le> length rows + 1"
  by (auto simp: restored_def split: sum.splits)

lemma restored_all: "list_all P rows \<Longrightarrow> P (r\<lparr>row_deleted := False\<rparr>) \<Longrightarrow> list_all P (restored rows r)"
  by (auto simp: restored_def list_all_update split: sum.splits)

lemma restored_live:
  "length (live (restored rows r)) = length (live rows) +
    (case lookup_row rows (row_rid r) of Some q \<Rightarrow> if row_deleted q then 1 else 0 | None \<Rightarrow> 1)"
proof (cases rule: FindRowIndexById_cases [of rows "row_rid r"])
  case (found i)
  then show ?thesis using live_update [of i rows "r\<lparr>row_deleted := False\<rparr>"] by (auto simp: restored_def)
next
  case missing
  then show ?thesis by (simp add: restored_def live_def)
qed

lemma rs_Restore_run:
  assumes rep: "rs_rep s bs" and small: "row_rid row + 1 < 2 ^ 64" and lt: "length (concat bs) + 1 < 2 ^ 64"
  shows "rs_Restore row s = RewriteAllRows (restored (concat bs) row)
    (fst s, (snd s)\<lparr>rs_next_row_id := max (rs_next_row_id (snd s)) (row_rid row + 1),
       rs_active_row_count := length (live (restored (concat bs) row))\<rparr>)"
proof -
  note R = rs_repD [OF rep]
  have c: "length (live (concat bs)) + 1 < 2 ^ 64" using live_length [of "concat bs"] lt by linarith
  have ld: "LoadAllRows s = (Inr (concat bs), s)" by (rule rs_rep_load [OF rep])
  obtain fs rs where s: "s = (fs, rs)" by (cases s)
  show ?thesis
  proof (cases rule: FindRowIndexById_cases [of "concat bs" "row_rid row"])
    case (found i)
    then show ?thesis
      using R(5,6) ld c small restored_live [of "concat bs" row]
      unfolding s by (cases rs) (auto simp: rs_Restore_def restored_def rs_inc_active_def bindS_guardS exec_simps bindS_assoc)
  next
    case missing
    then show ?thesis
      using R(5,6) ld c small restored_live [of "concat bs" row]
      unfolding s by (cases rs) (auto simp: rs_Restore_def restored_def rs_inc_active_def bindS_guardS exec_simps bindS_assoc)
  qed
qed

lemma rs_Restore_rep:
  assumes rep: "rs_rep s bs" and wf: "row_wf row" and small: "row_rid row + 1 < 2 ^ 64"
    and fit: "row_fits (rs_page_size (snd s)) (row\<lparr>row_deleted := False\<rparr>)"
    and room: "rs_room (length (concat bs) + 1) s" and lt: "length (concat bs) + 1 < 2 ^ 64"
  shows "\<exists>s' bs'. rs_Restore row s = (Inr (), s') \<and> rs_rep s' bs' \<and> concat bs' = restored (concat bs) row \<and>
    rs_other s s' \<and> rs_next_row_id (snd s') = max (rs_next_row_id (snd s)) (row_rid row + 1)"
proof -
  let ?rows' = "restored (concat bs) row" and ?ps = "rs_page_size (snd s)"
  let ?nx = "max (rs_next_row_id (snd s)) (row_rid row + 1)"
  let ?s = "(fst s, (snd s)\<lparr>rs_next_row_id := ?nx, rs_active_row_count := length (live ?rows')\<rparr>)"
  note R = rs_repD [OF rep]
  have wf': "list_all row_wf ?rows'"
    using rs_rep_wf [OF rep] wf by (intro restored_all) (auto simp: row_wf_def)
  have fits': "list_all (row_fits ?ps) ?rows'"
    using fits_rows [OF rs_rep_fits [OF rep]] fit by (intro restored_all) auto
  then obtain bs' where bb: "build_batches ?ps ?rows' [] [] 0 = Inr bs'"
    using build_batches_total by blast
  have "length bs' \<le> length ?rows'"
    using build_batches_optimal [of ?ps "map (\<lambda>r. [r]) ?rows'" bs'] bb fits'
    by (simp add: list_all_iff row_fits_def concat_map_singleton)
  then have rm: "rs_room (length bs' - length bs) s"
    using restored_length [of "concat bs" row] by (intro rs_room_mono [OF room]) simp
  have "?nx < 2 ^ 64" using R(4) small by simp
  then obtain s' bs'' where s': "RewriteAllRows ?rows' ?s = (Inr (), s')" "rs_rep s' bs''" "concat bs'' = ?rows'"
    "rs_same ?s s'"
    using rewrite_rep [OF rep _ _ wf' restored_ok [OF R(3)] _ bb rm, of ?s] by auto
  moreover have "rs_other s s'" using s'(4) by (auto simp: rs_same_def rs_other_def rs_pm_def)
  ultimately show ?thesis
    using rs_Restore_run [OF rep small lt] by (auto simp: rs_same_def)
qed

subsection \<open>Opening a store\<close>

lemma rs_rep_md_wf: "rs_rep s bs \<Longrightarrow> md_wf (rs_metadata (snd s))"
proof -
  assume rep: "rs_rep s bs"
  note R = rs_repD [OF rep]
  have "length bs < 2 ^ 64" using rs_lay_small [OF R(1)] by simp
  moreover have "length (live (concat bs)) < 2 ^ 64"
    using live_length [of "concat bs"] rows_ok_length [OF R(3)] R(4) by linarith
  ultimately show ?thesis using R(4,5,7) by (simp add: md_wf_def rs_metadata_def kRowStoreVersion_def)
qed

text \<open>The two paths of an object agree: the constructor passes its own path to the page manager.\<close>

definition rs_paths :: "row_store \<Rightarrow> bool" where
  "rs_paths rs \<longleftrightarrow> pm_file_path (rs_page_manager rs) = rs_file_path rs \<and> rs_file_path rs \<noteq> []"

lemma rs_reopen:
  assumes rep: "rs_rep (fs, rs) bs" and p: "rs_paths rs" and d: "dir_free fs (rs_file_path rs)"
  shows "\<exists>s'. rs_Open (fs, RowStore (rs_file_path rs) (rs_page_size rs)) = (Inr (), s') \<and> rs_rep s' bs \<and>
    rs_next_row_id (snd s') = rs_next_row_id rs"
proof -
  let ?path = "rs_file_path rs" and ?ps = "rs_page_size rs"
  let ?s0 = "(fs, RowStore ?path ?ps)"
  let ?mp = "padded ?ps (SerializeMetadata (rs_metadata rs))"
  note R = rs_repD [OF rep]
  have l: "pm_clean (fs, rs_page_manager rs)" "pm_page_size (rs_page_manager rs) = ?ps" "36 \<le> ?ps" "?ps < 2 ^ 32"
    "pm_pages (fs, rs_page_manager rs) = ?mp # map (data_page ?ps) bs"
    using R(1) by (auto simp: rs_lay_def)
  obtain q where q: "pm_Open (fs, PageManager ?path ?ps) = (Inr (), q)" "pm_clean q"
    "pm_pages q = ?mp # map (data_page ?ps) bs"
    using reopen_pages [of fs "rs_page_manager rs"] l p d by (auto simp: rs_paths_def)
  let ?s1 = "rs_upd_pm q ?s0"
  have op: "on_pm pm_Open ?s0 = (Inr (), ?s1)"
    using q(1) by (intro on_pm_run) (simp add: RowStore_def)
  have rd: "on_pm (ReadPage kMetadataPageId) ?s1 = (Inr ?mp, ?s1)"
    using on_pm_run [of "ReadPage kMetadataPageId" ?s1 _ q] pmi.read_in [of q 0] q(2,3)
    by (simp add: kMetadataPageId_def rs_upd_pm_def)
  have md: "DeserializeMetadata ?mp = Inr (rs_metadata rs)"
    using DeserializeMetadata_padded [OF l(3)] rs_rep_md_wf [OF rep] by simp
  let ?s2 = "(fst q, (snd ?s1)\<lparr>rs_next_row_id := rs_next_row_id rs, rs_data_page_count := rs_data_page_count rs,
    rs_active_row_count := rs_active_row_count rs, rs_is_open := True\<rparr>)"
  have "rs_Open ?s0 = (Inr (), ?s2)"
    using op rd md
    by (simp add: rs_Open_def exec_simps rs_load_metadata_def bindS_liftR bindS_guardS rs_metadata_def
        rs_upd_pm_def RowStore_def)
  moreover have "pm_page_size (snd q) = ?ps"
    using pm_Open_fields [of "(fs, PageManager ?path ?ps)"] q(1) by (simp add: PageManager_def)
  then have "rs_rep ?s2 bs"
    using R q(2,3) l(3,4)
    by (simp add: rs_rep_def Let_def rs_lay_def rs_upd_pm_def RowStore_def rs_metadata_def)
  ultimately show ?thesis by auto
qed

lemma rs_open_fresh:
  assumes nf: "no_faults fs" and d: "dir_free fs path" and p: "path \<noteq> []" "path \<notin> dom (fs_files fs)"
    "path \<notin> fs_dirs (with_dir fs path)" and dir: "has_dir (with_dir fs path) (dir_of path)"
    and ps: "36 \<le> ps" "ps < 2 ^ 32"
  shows "\<exists>s'. rs_Open (fs, RowStore path ps) = (Inr (), s') \<and> rs_rep s' [] \<and> rs_next_row_id (snd s') = 0 \<and>
    rs_page_size (snd s') = ps \<and> pm_page_count (rs_page_manager (snd s')) = 1 \<and> rs_paths (snd s')"
proof -
  let ?s0 = "(fs, RowStore path ps)"
  let ?m0 = "\<lparr>md_version = kRowStoreVersion, md_next_row_id = 0, md_data_page_count = 0, md_active_row_count = 0\<rparr>"
  let ?mp = "padded ps (SerializeMetadata ?m0)"
  obtain q where q: "pm_Open (fs, PageManager path ps) = (Inr (), q)" "pm_clean q" "pm_pages q = []"
    "snd q = (PageManager path ps)\<lparr>pm_is_open := True\<rparr>"
    using open_fresh [OF nf d p dir, of ps] ps by auto
  have qp: "pm_page_size (snd q) = ps" "pm_page_count (snd q) = 0" "pm_file_path (snd q) = path"
    using q(4) by (auto simp: PageManager_def)
  have "pm_room (Suc 0) q" using qp ps by (simp add: pm_room_def HeaderSize_def)
  then obtain q2 where q2: "bindS AllocatePage (\<lambda>i. bindS (WritePage i ?mp) (\<lambda>_. ret i)) q = (Inr 0, q2)"
    "pm_clean q2" "pm_pages q2 = [?mp]" "pm_frame q q2"
    using pmi.alloc_write [OF q(2), of 0 ?mp] ps q(3) qp by auto
  obtain q1 where q1: "AllocatePage q = (Inr 0, q1)" "WritePage 0 ?mp q1 = (Inr (), q2)"
    using q2(1) by (auto simp: exec_iffs)
  let ?s1 = "rs_upd_pm q ?s0"
  have op: "on_pm pm_Open ?s0 = (Inr (), ?s1)"
    using q(1) by (intro on_pm_run) (simp add: RowStore_def)
  have rd: "on_pm (ReadPage kMetadataPageId) ?s1 = (Inl kNotFound, ?s1)"
    using on_pm_run [of "ReadPage kMetadataPageId" ?s1 _ q] pmi.read_out [of q 0] q(2,3)
    by (simp add: kMetadataPageId_def rs_upd_pm_def)
  have al: "on_pm AllocatePage ?s1 = (Inr 0, rs_upd_pm q1 ?s1)"
    and wr: "on_pm (WritePage 0 ?mp) (rs_upd_pm q1 ?s1) = (Inr (), rs_upd_pm q2 (rs_upd_pm q1 ?s1))"
    using q1 by (auto intro!: on_pm_run)
  let ?s2 = "(fst q2, (RowStore path ps)\<lparr>rs_page_manager := snd q2, rs_is_open := True\<rparr>)"
  have "rs_Open ?s0 = (Inr (), ?s2)"
    using op rd al wr ps(1)
    by (simp add: rs_Open_def exec_simps rs_load_metadata_def InitializeStore_def bindS_guardS Let_def
        kMetadataPageId_def rs_upd_pm_def RowStore_def)
  moreover have f2: "pm_page_size (snd q2) = ps" "pm_file_path (snd q2) = path" "pm_page_count (snd q2) = 1"
    using q2(3,4) qp length_pm_pages [of q2] by (auto simp: pm_frame_def split: prod.splits)
  moreover have "rs_rep ?s2 []"
    using q2(2,3) f2 ps
    by (simp add: rs_rep_def Let_def rs_lay_def RowStore_def rs_metadata_def rows_ok_def live_def)
  ultimately show ?thesis using p(1) by (auto simp: RowStore_def rs_paths_def)
qed

subsection \<open>The live rows as a map\<close>

definition live_table :: "Row list \<Rightarrow> nat \<Rightarrow> Tuple option" where
  "live_table rows rid = (case lookup_row rows rid of
     Some r \<Rightarrow> if row_deleted r then None else Some (row_tuple r) | None \<Rightarrow> None)"

lemma lookup_row_unique:
  assumes "distinct (map row_rid rows)" "r \<in> set rows"
  shows "lookup_row rows (row_rid r) = Some r"
  using assms by (induction rows) (auto simp: lookup_row_def image_iff)

lemma lookup_row_Some: "lookup_row rows rid = Some r \<Longrightarrow> r \<in> set rows \<and> row_rid r = rid"
  by (auto simp: lookup_row_def find_Some_iff)

lemma lookup_row_append: "lookup_row (xs @ ys) rid = (case lookup_row xs rid of None \<Rightarrow> lookup_row ys rid | Some r \<Rightarrow> Some r)"
  by (induction xs) (auto simp: lookup_row_def)

lemma lookup_row_Cons: "lookup_row (r # rows) rid = (if row_rid r = rid then Some r else lookup_row rows rid)"
  by (simp add: lookup_row_def)

lemma lookup_row_None: "rid \<notin> row_rid ` set rows \<Longrightarrow> lookup_row rows rid = None"
  by (auto simp: lookup_row_def find_None_iff)

lemma live_table_insert:
  assumes "rows_ok (pre @ post) n" "row_rid r = n" "\<not> row_deleted r"
  shows "live_table (pre @ r # post) = (live_table (pre @ post))(n \<mapsto> row_tuple r)" "live_table (pre @ post) n = None"
proof -
  have "n \<notin> row_rid ` set (pre @ post)" using assms(1) by (auto simp: rows_ok_def list_all_iff)
  then have n: "lookup_row pre n = None" "lookup_row post n = None" by (auto intro: lookup_row_None)
  then show "live_table (pre @ r # post) = (live_table (pre @ post))(n \<mapsto> row_tuple r)"
    using assms(2,3) by (auto simp: fun_eq_iff live_table_def lookup_row_append lookup_row_Cons split: option.splits)
  show "live_table (pre @ post) n = None"
    using n by (simp add: live_table_def lookup_row_append)
qed

lemma lookup_row_update:
  assumes "distinct (map row_rid rows)" "i < length rows" "row_rid r = row_rid (rows ! i)"
  shows "lookup_row (rows[i := r]) = (lookup_row rows)(row_rid r \<mapsto> r)"
proof
  fix rid
  have m: "map row_rid (rows[i := r]) = map row_rid rows"
    using assms(2,3) by (simp add: map_update list_update_same_conv)
  show "lookup_row (rows[i := r]) rid = ((lookup_row rows)(row_rid r \<mapsto> r)) rid"
  proof (cases "rid = row_rid r")
    case True
    have "r \<in> set (rows[i := r])" using assms(2) by (simp add: set_update_memI)
    then show ?thesis using lookup_row_unique [of "rows[i := r]" r] assms(1) m True by simp
  next
    case False
    then show ?thesis
      using assms(2,3)
    proof (induction rows arbitrary: i)
      case (Cons q rows)
      then show ?case by (cases i) (auto simp: lookup_row_Cons)
    qed simp
  qed
qed

text \<open>The rows a state holds, decoded from its pages, and the map of its live tuples.\<close>

definition rs_rows :: "rs_state \<Rightarrow> Row list" where
  "rs_rows s = concat (map (\<lambda>p. case parse_page_rows p of Inr rows \<Rightarrow> rows | Inl _ \<Rightarrow> []) (tl (pm_pages (rs_pm s))))"

definition rs_ok :: "rs_state \<Rightarrow> bool" where
  "rs_ok s \<longleftrightarrow> (\<exists>bs. rs_rep s bs)"

definition rs_table :: "rs_state \<Rightarrow> nat \<Rightarrow> Tuple option" where
  "rs_table s = live_table (rs_rows s)"

lemma rs_rows_rep: "rs_rep s bs \<Longrightarrow> rs_rows s = concat bs"
proof -
  assume rep: "rs_rep s bs"
  let ?ps = "rs_page_size (snd s)"
  have lay: "pm_pages (rs_pm s) = padded ?ps (SerializeMetadata (rs_metadata (snd s))) # map (data_page ?ps) bs"
    "?ps < 2 ^ 32" using rs_repD(1) [OF rep] by (auto simp: rs_lay_def)
  have "map (\<lambda>p. case parse_page_rows p of Inr rows \<Rightarrow> rows | Inl _ \<Rightarrow> []) (map (data_page ?ps) bs) = bs"
    using rs_repD(2) [OF rep] lay(2) by (auto simp: list_all_iff parse_data_page intro!: map_idI)
  then show ?thesis by (simp add: rs_rows_def lay(1))
qed

lemma rs_okE:
  assumes "rs_ok s"
  obtains bs where "rs_rep s bs" "rs_rows s = concat bs" "rs_table s = live_table (concat bs)"
    "rows_ok (concat bs) (rs_next_row_id (snd s))"
  using assms rs_rows_rep rs_repD(3) unfolding rs_ok_def rs_table_def by metis

lemma rs_okI: "rs_rep s bs \<Longrightarrow> rs_ok s \<and> rs_rows s = concat bs \<and> rs_table s = live_table (concat bs)"
  using rs_rows_rep unfolding rs_ok_def rs_table_def by metis

text \<open>
  Capacity: the tuple is within the ranges of its C++ types and fits one data page, there is room for the
  pages the operation may allocate, and the row id counter does not wrap.
\<close>

definition tuple_fits :: "nat \<Rightarrow> Tuple \<Rightarrow> bool" where
  "tuple_fits ps t \<longleftrightarrow> tuple_wf t \<and> page_header_size + 21 + length (enc_tuple t) \<le> ps"

definition can_insert :: "Tuple \<Rightarrow> rs_state \<Rightarrow> bool" where
  "can_insert t s \<longleftrightarrow> tuple_fits (rs_page_size (snd s)) t \<and> rs_room 1 s \<and> rs_next_row_id (snd s) + 1 < 2 ^ 64"

definition can_update :: "Tuple \<Rightarrow> rs_state \<Rightarrow> bool" where
  "can_update t s \<longleftrightarrow> tuple_fits (rs_page_size (snd s)) t \<and> rs_room (length (rs_rows s)) s"

definition can_restore :: "Row \<Rightarrow> rs_state \<Rightarrow> bool" where
  "can_restore row s \<longleftrightarrow> tuple_fits (rs_page_size (snd s)) (row_tuple row) \<and> row_rid row + 1 < 2 ^ 64 \<and>
     rs_room (length (rs_rows s) + 1) s \<and> length (rs_rows s) + 1 < 2 ^ 64"

lemma tuple_fits_row: "row_fits ps r \<longleftrightarrow> page_header_size + 21 + length (enc_tuple (row_tuple r)) \<le> ps"
  by (simp add: row_fits_def length_entry add.assoc)

subsection \<open>The interface of a table of rows\<close>

locale row_table =
  fixes ok :: "'s \<Rightarrow> bool"
    and tab :: "'s \<Rightarrow> nat \<Rightarrow> Tuple option"
    and can_ins :: "Tuple \<Rightarrow> 's \<Rightarrow> bool"
    and can_upd :: "Tuple \<Rightarrow> 's \<Rightarrow> bool"
    and can_res :: "Row \<Rightarrow> 's \<Rightarrow> bool"
    and ins :: "Row \<Rightarrow> ('s, nat) stm"
    and get :: "nat \<Rightarrow> ('s, Row) stm"
    and upd :: "nat \<Rightarrow> Tuple \<Rightarrow> ('s, unit) stm"
    and del :: "nat \<Rightarrow> ('s, unit) stm"
    and res :: "Row \<Rightarrow> ('s, unit) stm"
    and scan :: "('s, Row list) stm"
  assumes ins_in: "ok s \<Longrightarrow> can_ins (row_tuple row) s \<Longrightarrow>
      \<exists>s' rid. ins row s = (Inr rid, s') \<and> ok s' \<and> tab s rid = None \<and> tab s' = (tab s)(rid \<mapsto> row_tuple row)"
    and get_in: "ok s \<Longrightarrow> tab s rid = Some t \<Longrightarrow>
      get rid s = (Inr \<lparr>row_rid = rid, row_tuple = t, row_deleted = False\<rparr>, s)"
    and get_out: "ok s \<Longrightarrow> tab s rid = None \<Longrightarrow> get rid s = (Inl kNotFound, s)"
    and upd_in: "ok s \<Longrightarrow> tab s rid = Some t0 \<Longrightarrow> can_upd t s \<Longrightarrow>
      \<exists>s'. upd rid t s = (Inr (), s') \<and> ok s' \<and> tab s' = (tab s)(rid \<mapsto> t)"
    and upd_out: "ok s \<Longrightarrow> tab s rid = None \<Longrightarrow> can_upd t s \<Longrightarrow> upd rid t s = (Inl kNotFound, s)"
    and del_in: "ok s \<Longrightarrow> tab s rid = Some t \<Longrightarrow>
      \<exists>s'. del rid s = (Inr (), s') \<and> ok s' \<and> tab s' = (tab s)(rid := None)"
    and res_in: "ok s \<Longrightarrow> can_res row s \<Longrightarrow>
      \<exists>s'. res row s = (Inr (), s') \<and> ok s' \<and> tab s' = (tab s)(row_rid row \<mapsto> row_tuple row)"
    and scan_in: "ok s \<Longrightarrow> \<exists>rows. scan s = (Inr rows, s) \<and> distinct (map row_rid rows) \<and>
      list_all (\<lambda>r. \<not> row_deleted r) rows \<and> map_of (map (\<lambda>r. (row_rid r, row_tuple r)) rows) = tab s"
begin

lemma insert_get:
  assumes "ok s" "can_ins (row_tuple row) s" "ins row s = (Inr rid, s')"
  shows "get rid s' = (Inr \<lparr>row_rid = rid, row_tuple = row_tuple row, row_deleted = False\<rparr>, s')"
  using ins_in [OF assms(1,2)] assms(3) get_in [of s' rid "row_tuple row"] by auto

lemma insert_other:
  assumes "ok s" "can_ins (row_tuple row) s" "ins row s = (Inr rid, s')" "tab s k = Some t"
  shows "k \<noteq> rid" "get k s' = (Inr \<lparr>row_rid = k, row_tuple = t, row_deleted = False\<rparr>, s')"
proof -
  have s': "ok s'" "tab s rid = None" "tab s' = (tab s)(rid \<mapsto> row_tuple row)"
    using ins_in [OF assms(1,2)] assms(3) by auto
  then show "k \<noteq> rid" using assms(4) by auto
  then show "get k s' = (Inr \<lparr>row_rid = k, row_tuple = t, row_deleted = False\<rparr>, s')"
    using s' assms(4) by (intro get_in) auto
qed

lemma update_get:
  assumes "ok s" "tab s rid = Some t0" "can_upd t s" "upd rid t s = (Inr (), s')" "k \<noteq> rid"
  shows "get rid s' = (Inr \<lparr>row_rid = rid, row_tuple = t, row_deleted = False\<rparr>, s')"
    "fst (get k s') = fst (get k s)"
proof -
  have s': "ok s'" "tab s' = (tab s)(rid \<mapsto> t)" using upd_in [OF assms(1-3)] assms(4) by auto
  then show "get rid s' = (Inr \<lparr>row_rid = rid, row_tuple = t, row_deleted = False\<rparr>, s')"
    by (simp add: get_in)
  show "fst (get k s') = fst (get k s)"
    using s' assms(1,5) by (cases "tab s k") (auto simp: get_in get_out)
qed

lemma delete_get:
  assumes "ok s" "tab s rid = Some t" "del rid s = (Inr (), s')" "k \<noteq> rid"
  shows "get rid s' = (Inl kNotFound, s')" "fst (get k s') = fst (get k s)"
proof -
  have s': "ok s'" "tab s' = (tab s)(rid := None)" using del_in [OF assms(1,2)] assms(3) by auto
  then show "get rid s' = (Inl kNotFound, s')" by (simp add: get_out)
  show "fst (get k s') = fst (get k s)"
    using s' assms(1,4) by (cases "tab s k") (auto simp: get_in get_out)
qed

text \<open>Deleting a row and restoring it gives back the table.\<close>

lemma delete_restore:
  assumes "ok s" "tab s rid = Some t" "del rid s = (Inr (), s')" "can_res \<lparr>row_rid = rid, row_tuple = t, row_deleted = d\<rparr> s'"
  shows "\<exists>s''. res \<lparr>row_rid = rid, row_tuple = t, row_deleted = d\<rparr> s' = (Inr (), s'') \<and> ok s'' \<and> tab s'' = tab s"
  using del_in [OF assms(1,2)] assms(2,3) res_in [OF _ assms(4)] by (auto simp: fun_upd_idem_iff)

lemma insert_delete:
  assumes "ok s" "can_ins (row_tuple row) s" "ins row s = (Inr rid, s')"
  shows "\<exists>s''. del rid s' = (Inr (), s'') \<and> ok s'' \<and> tab s'' = tab s"
  using ins_in [OF assms(1,2)] assms(3) del_in [of s' rid "row_tuple row"] by (auto simp: fun_upd_idem_iff)

end

lemma live_table_map_of:
  assumes "distinct (map row_rid rows)"
  shows "map_of (map (\<lambda>r. (row_rid r, row_tuple r)) (live rows)) = live_table rows"
proof
  fix rid
  show "map_of (map (\<lambda>r. (row_rid r, row_tuple r)) (live rows)) rid = live_table rows rid"
    using assms
  proof (induction rows)
    case (Cons r rows)
    have "row_rid r = rid \<Longrightarrow> rid \<notin> fst ` set (map (\<lambda>r. (row_rid r, row_tuple r)) (live rows))"
      using Cons.prems by (auto simp: live_def image_iff)
    then have "row_rid r = rid \<Longrightarrow> map_of (map (\<lambda>r. (row_rid r, row_tuple r)) (live rows)) rid = None"
      by (simp add: map_of_eq_None_iff)
    then show ?case using Cons by (auto simp: live_def live_table_def lookup_row_Cons)
  qed (simp add: live_def live_table_def lookup_row_def)
qed

lemma live_table_Some:
  assumes "live_table rows rid = Some t"
  obtains r where "lookup_row rows rid = Some r" "\<not> row_deleted r" "row_rid r = rid" "row_tuple r = t"
  using assms by (auto simp: live_table_def split: option.splits if_splits dest: lookup_row_Some)

lemma live_table_None:
  "live_table rows rid = None \<Longrightarrow> lookup_row rows rid = None \<or> (\<exists>r. lookup_row rows rid = Some r \<and> row_deleted r)"
  by (auto simp: live_table_def split: option.splits if_splits)

lemma live_table_update:
  assumes "distinct (map row_rid rows)" "i < length rows" "row_rid r = row_rid (rows ! i)"
  shows "live_table (rows[i := r]) = (live_table rows)(row_rid r := if row_deleted r then None else Some (row_tuple r))"
  by (auto simp: fun_eq_iff live_table_def lookup_row_update [OF assms])

lemma live_table_restored:
  assumes "distinct (map row_rid rows)"
  shows "live_table (restored rows r) = (live_table rows)(row_rid r \<mapsto> row_tuple r)"
proof (cases rule: FindRowIndexById_cases [of rows "row_rid r"])
  case (found i)
  then show ?thesis using live_table_update [OF assms, of i "r\<lparr>row_deleted := False\<rparr>"] by (simp add: restored_def)
next
  case missing
  then show ?thesis
    by (auto simp: restored_def fun_eq_iff live_table_def lookup_row_append lookup_row_Cons lookup_row_def [of "[]"]
        split: option.splits)
qed

lemma lookup_row_full: "lookup_row rows rid = Some r \<Longrightarrow> \<not> row_deleted r \<Longrightarrow>
    r = \<lparr>row_rid = rid, row_tuple = row_tuple r, row_deleted = False\<rparr>"
  by (cases r) (auto dest: lookup_row_Some)

lemma rs_Insert_table:
  assumes "rs_ok s" "can_insert (row_tuple row) s"
  shows "\<exists>s' rid. rs_Insert row s = (Inr rid, s') \<and> rs_ok s' \<and> rs_table s rid = None \<and>
    rs_table s' = (rs_table s)(rid \<mapsto> row_tuple row)"
proof -
  obtain bs where bs: "rs_rep s bs" "rs_table s = live_table (concat bs)"
    "rows_ok (concat bs) (rs_next_row_id (snd s))" using assms(1) by (rule rs_okE)
  let ?r = "new_row s (row_tuple row)"
  obtain s' bs' pre post where "rs_Insert row s = (Inr (rs_next_row_id (snd s)), s')" "rs_rep s' bs'"
    and pp: "concat bs = pre @ post" "concat bs' = pre @ ?r # post"
    using rs_Insert_rep [OF bs(1), of row] assms(2)
    by (auto simp: can_insert_def tuple_fits_def tuple_fits_row new_row_def)
  moreover have "rows_ok (pre @ post) (rs_next_row_id (snd s))" using bs(3) pp by simp
  ultimately show ?thesis
    using live_table_insert [of pre post "rs_next_row_id (snd s)" ?r] rs_okI [of s' bs'] bs(2)
    by (auto simp: new_row_def)
qed

lemma rs_Update_table:
  assumes "rs_ok s" "rs_table s rid = Some t0" "can_update t s"
  shows "\<exists>s'. rs_Update rid t s = (Inr (), s') \<and> rs_ok s' \<and> rs_table s' = (rs_table s)(rid \<mapsto> t)"
proof -
  obtain bs where bs: "rs_rep s bs" "rs_rows s = concat bs" "rs_table s = live_table (concat bs)"
    "rows_ok (concat bs) (rs_next_row_id (snd s))" using assms(1) by (rule rs_okE)
  obtain r where r: "lookup_row (concat bs) rid = Some r" "\<not> row_deleted r" "row_rid r = rid"
    using assms(2) bs(3) by (auto elim: live_table_Some)
  have fit: "tuple_wf t" "row_fits (rs_page_size (snd s)) (r\<lparr>row_tuple := t\<rparr>)" "rs_room (length (concat bs)) s"
    using assms(3) bs(2) by (auto simp: can_update_def tuple_fits_def tuple_fits_row)
  obtain s' bs' i where "rs_Update rid t s = (Inr (), s')" "rs_rep s' bs'" "i < length (concat bs)"
    "concat bs ! i = r" "concat bs' = (concat bs)[i := r\<lparr>row_tuple := t\<rparr>]"
    using rs_Update_rep [OF bs(1) r(1,2) fit] by blast
  moreover have "distinct (map row_rid (concat bs))" using bs(4) by (simp add: rows_ok_def)
  ultimately show ?thesis
    using live_table_update [of "concat bs" i "r\<lparr>row_tuple := t\<rparr>"] rs_okI [of s' bs'] bs(3) r by auto
qed

lemma rs_Delete_table:
  assumes "rs_ok s" "rs_table s rid = Some t"
  shows "\<exists>s'. rs_Delete rid s = (Inr (), s') \<and> rs_ok s' \<and> rs_table s' = (rs_table s)(rid := None)"
proof -
  obtain bs where bs: "rs_rep s bs" "rs_table s = live_table (concat bs)"
    "rows_ok (concat bs) (rs_next_row_id (snd s))" using assms(1) by (rule rs_okE)
  obtain r where r: "lookup_row (concat bs) rid = Some r" "\<not> row_deleted r" "row_rid r = rid"
    using assms(2) bs(2) by (auto elim: live_table_Some)
  obtain s' bs' i where "rs_Delete rid s = (Inr (), s')" "rs_rep s' bs'" "i < length (concat bs)"
    "concat bs ! i = r" "concat bs' = (concat bs)[i := r\<lparr>row_deleted := True\<rparr>]"
    using rs_Delete_rep [OF bs(1) r(1,2)] by blast
  moreover have "distinct (map row_rid (concat bs))" using bs(3) by (simp add: rows_ok_def)
  ultimately show ?thesis
    using live_table_update [of "concat bs" i "r\<lparr>row_deleted := True\<rparr>"] rs_okI [of s' bs'] bs(2) r by auto
qed

lemma rs_Restore_table:
  assumes "rs_ok s" "can_restore row s"
  shows "\<exists>s'. rs_Restore row s = (Inr (), s') \<and> rs_ok s' \<and> rs_table s' = (rs_table s)(row_rid row \<mapsto> row_tuple row)"
proof -
  obtain bs where bs: "rs_rep s bs" "rs_rows s = concat bs" "rs_table s = live_table (concat bs)"
    "rows_ok (concat bs) (rs_next_row_id (snd s))" using assms(1) by (rule rs_okE)
  have c: "row_wf row" "row_rid row + 1 < 2 ^ 64" "row_fits (rs_page_size (snd s)) (row\<lparr>row_deleted := False\<rparr>)"
    "rs_room (length (concat bs) + 1) s" "length (concat bs) + 1 < 2 ^ 64"
    using assms(2) bs(2) by (auto simp: can_restore_def tuple_fits_def tuple_fits_row row_wf_def)
  obtain s' bs' where "rs_Restore row s = (Inr (), s')" "rs_rep s' bs'" "concat bs' = restored (concat bs) row"
    using rs_Restore_rep [OF bs(1) c] by blast
  moreover have "distinct (map row_rid (concat bs))" using bs(4) by (simp add: rows_ok_def)
  ultimately show ?thesis
    using live_table_restored [of "concat bs" row] rs_okI [of s' bs'] bs(3) by auto
qed

lemma rs_Scan_table:
  assumes "rs_ok s"
  shows "\<exists>rows. rs_Scan s = (Inr rows, s) \<and> distinct (map row_rid rows) \<and>
    list_all (\<lambda>r. \<not> row_deleted r) rows \<and> map_of (map (\<lambda>r. (row_rid r, row_tuple r)) rows) = rs_table s"
proof -
  obtain bs where bs: "rs_rep s bs" "rs_table s = live_table (concat bs)"
    "rows_ok (concat bs) (rs_next_row_id (snd s))" using assms by (rule rs_okE)
  have d: "distinct (map row_rid (concat bs))" using bs(3) by (simp add: rows_ok_def)
  moreover have "distinct (map row_rid (live (concat bs)))" using d unfolding live_def by (rule distinct_map_filter)
  ultimately show ?thesis
    using rs_Scan_rep [OF bs(1)] live_table_map_of [OF d] bs(2) by (auto simp: live_def list_all_iff)
qed

interpretation rst: row_table rs_ok rs_table can_insert can_update can_restore
  rs_Insert rs_Get rs_Update rs_Delete rs_Restore rs_Scan
proof (unfold_locales, goal_cases)
  case (2 s rid t)
  then show ?case
    by (auto elim!: rs_okE live_table_Some simp: rs_Get_rep dest: lookup_row_full)
next
  case (3 s rid)
  then show ?case by (auto elim!: rs_okE simp: rs_Get_rep dest!: live_table_None)
next
  case (5 s rid t)
  then show ?case by (auto elim!: rs_okE intro!: rs_Update_missing dest!: live_table_None)
qed (blast intro: rs_Insert_table rs_Update_table rs_Delete_table rs_Restore_table rs_Scan_table)+

subsection \<open>Properties of the row store\<close>

text \<open>The state of an open store on a file that holds given batches, used by the witnesses.\<close>

definition rs_image :: "string \<Rightarrow> nat \<Rightarrow> Row list list \<Rightarrow> nat \<Rightarrow> rs_state" where
  "rs_image path ps bs nx =
     (let pm = \<lparr>pm_file_path = path, pm_page_size = ps, pm_is_open = True, pm_page_count = Suc (length bs)\<rparr>;
          rs = \<lparr>rs_file_path = path, rs_page_size = ps, rs_page_manager = pm, rs_is_open = True,
            rs_next_row_id = nx, rs_data_page_count = length bs, rs_active_row_count = length (live (concat bs))\<rparr>;
          pages = padded ps (SerializeMetadata (rs_metadata rs)) # map (data_page ps) bs
      in (\<lparr>fs_files = [path \<mapsto> header_rep (MakeHeader ps (Suc (length bs))) @ concat pages], fs_dirs = {}, fs_faults = []\<rparr>, rs))"

lemma page_at_concat:
  assumes "length h = HeaderSize" "list_all (\<lambda>p. length p = ps) pages" "i < length pages"
  shows "page_at (h @ concat pages) ps i = pages ! i"
proof -
  have "take ps (drop (i * ps) (concat pages)) = pages ! i"
    using assms(2,3)
  proof (induction pages arbitrary: i)
    case (Cons p pages)
    then show ?case by (cases i) (auto simp: add.commute)
  qed simp
  then show ?thesis using assms(1) by (simp add: page_at_def)
qed

lemma rs_image_rep:
  assumes "36 \<le> ps" "ps < 2 ^ 32" "list_all (batch_ok ps) bs" "rows_ok (concat bs) nx" "nx < 2 ^ 64"
    "HeaderSize + Suc (length bs) * ps < 2 ^ 64"
  shows "rs_rep (rs_image path ps bs nx) bs"
proof -
  let ?s = "rs_image path ps bs nx"
  let ?pages = "padded ps (SerializeMetadata (rs_metadata (snd ?s))) # map (data_page ps) bs"
  have len: "list_all (\<lambda>p. length p = ps) ?pages"
    using assms(1,3) by (auto simp: list_all_iff)
  have "length (concat qs) = length qs * ps" if "list_all (\<lambda>p. length p = ps) qs" for qs :: "bytes list"
    using that by (induction qs) auto
  from this [OF len] have cl: "length (concat ?pages) = Suc (length bs) * ps" by simp
  have c: "pm_content (rs_pm ?s) = header_rep (MakeHeader ps (Suc (length bs))) @ concat ?pages"
    by (simp add: rs_image_def Let_def pm_content_def file_bytes_def)
  have "pm_pages (rs_pm ?s) = ?pages"
  proof (rule nth_equalityI)
    show "length (pm_pages (rs_pm ?s)) = length ?pages" by (simp add: rs_image_def Let_def)
    fix i assume "i < length (pm_pages (rs_pm ?s))"
    then have "i < length ?pages" by (simp add: rs_image_def Let_def)
    then have "page_at (header_rep (MakeHeader ps (Suc (length bs))) @ concat ?pages) ps i = ?pages ! i"
      using len by (intro page_at_concat) auto
    then show "pm_pages (rs_pm ?s) ! i = ?pages ! i"
      using \<open>i < length (pm_pages (rs_pm ?s))\<close> c
      by (subst pm_pages_nth) (auto simp: rs_image_def Let_def)
  qed
  moreover have "pm_clean (rs_pm ?s)"
    using assms(1,2,6) c cl by (simp add: pm_clean_def rs_image_def Let_def)
  ultimately show ?thesis
    using assms by (simp add: rs_rep_def rs_lay_def Let_def) (simp add: rs_image_def Let_def)
qed

definition demo_row :: Row where
  "demo_row = \<lparr>row_rid = 0, row_tuple = [VInt 7], row_deleted = False\<rparr>"

definition demo_store :: rs_state where
  "demo_store = rs_image ''t.db'' 128 [[demo_row]] 1"

lemma demo_facts:
  "rs_rep demo_store [[demo_row]]" "rs_ok demo_store" "rs_rows demo_store = [demo_row]"
  "rs_table demo_store = [0 \<mapsto> [VInt 7]]" "rs_room 3 demo_store"
  "rs_page_size (snd demo_store) = 128" "rs_next_row_id (snd demo_store) = 1"
proof -
  have "row_wf demo_row" "length (SerializeRowEntry demo_row) = 41"
    by (simp_all add: row_wf_def tuple_wf_def kMaxTupleValues_def length_entry enc_tuple_def
        enc_value_simps demo_row_def)
  then show rep: "rs_rep demo_store [[demo_row]]" unfolding demo_store_def
    by (intro rs_image_rep) (auto simp: batch_ok_def page_header_size_20 rows_ok_def demo_row_def HeaderSize_def)
  show "rs_ok demo_store" "rs_rows demo_store = [demo_row]" using rs_okI [OF rep] by auto
  have "rs_table demo_store = live_table [demo_row]" using rs_okI [OF rep] by simp
  then show "rs_table demo_store = [0 \<mapsto> [VInt 7]]"
    by (auto simp: fun_eq_iff live_table_def lookup_row_def demo_row_def)
  show "rs_room 3 demo_store" "rs_page_size (snd demo_store) = 128" "rs_next_row_id (snd demo_store) = 1"
    by (simp_all add: demo_store_def rs_image_def Let_def rs_room_def pm_room_def HeaderSize_def)
qed

lemma demo_fits: "tuple_fits 128 [VInt i] \<longleftrightarrow> - (2 ^ 63) \<le> i \<and> i < 2 ^ 63"
  by (simp add: tuple_fits_def tuple_wf_def kMaxTupleValues_def page_header_size_20 enc_tuple_def enc_value_simps)

text \<open>
  C3: inserting into a well-formed store succeeds whenever the tuple fits a data page, the file may grow by a
  page and the row id counter has not reached its end; the new row gets an id that no live row has, the table of
  live tuples gains exactly this entry, and the store stays well-formed (layout, metadata page, counters).
\<close>

theorem insert_refines:
  assumes "rs_ok s" "can_insert (row_tuple row) s"
  shows "\<exists>s' rid. rs_Insert row s = (Inr rid, s') \<and> rs_ok s' \<and> rs_table s rid = None \<and>
    rs_table s' = (rs_table s)(rid \<mapsto> row_tuple row)"
  using assms by (rule rst.ins_in)

theorem insert_refines_witness:
  "rs_ok demo_store \<and> can_insert [VInt 9] demo_store \<and>
   (\<exists>s' rid. rs_Insert \<lparr>row_rid = 0, row_tuple = [VInt 9], row_deleted = True\<rparr> demo_store = (Inr rid, s') \<and>
      rs_table s' 0 = Some [VInt 7] \<and> rs_table s' rid = Some [VInt 9])"
proof -
  have "can_insert [VInt 9] demo_store"
    using demo_facts demo_fits [of 9] rs_room_mono [of 3 demo_store 1] by (simp add: can_insert_def)
  moreover from this
  have "\<exists>s' rid. rs_Insert \<lparr>row_rid = 0, row_tuple = [VInt 9], row_deleted = True\<rparr> demo_store = (Inr rid, s') \<and>
      rs_ok s' \<and> rs_table demo_store rid = None \<and> rs_table s' = (rs_table demo_store)(rid \<mapsto> [VInt 9])"
    using insert_refines [of demo_store "\<lparr>row_rid = 0, row_tuple = [VInt 9], row_deleted = True\<rparr>"] demo_facts(2)
    by simp
  ultimately show ?thesis using demo_facts(2,4) by (auto split: if_splits)
qed

text \<open>
  C5: updating a live row succeeds whenever the new tuple fits a data page and there is room for the repacked
  pages; afterwards the table differs in this row only, and reading the row returns the new tuple.
\<close>

theorem update_refines:
  assumes "rs_ok s" "rs_table s rid = Some t0" "can_update t s"
  shows "\<exists>s'. rs_Update rid t s = (Inr (), s') \<and> rs_ok s' \<and> rs_table s' = (rs_table s)(rid \<mapsto> t) \<and>
    rs_Get rid s' = (Inr \<lparr>row_rid = rid, row_tuple = t, row_deleted = False\<rparr>, s')"
  using rst.upd_in [OF assms] rst.get_in by fastforce

theorem update_refines_witness:
  "rs_ok demo_store \<and> rs_table demo_store 0 = Some [VInt 7] \<and> can_update [VInt 8] demo_store \<and>
   (\<exists>s'. rs_Update 0 [VInt 8] demo_store = (Inr (), s') \<and> rs_table s' = [0 \<mapsto> [VInt 8]])"
proof -
  have c: "can_update [VInt 8] demo_store"
    using demo_facts demo_fits [of 8] rs_room_mono [of 3 demo_store 1] by (simp add: can_update_def)
  have "\<exists>s'. rs_Update 0 [VInt 8] demo_store = (Inr (), s') \<and> rs_ok s' \<and>
      rs_table s' = (rs_table demo_store)(0 \<mapsto> [VInt 8]) \<and>
      rs_Get 0 s' = (Inr \<lparr>row_rid = 0, row_tuple = [VInt 8], row_deleted = False\<rparr>, s')"
    using update_refines [OF demo_facts(2) _ c, of 0] demo_facts(4) by simp
  then show ?thesis using demo_facts(2,4) c by auto
qed

text \<open>
  C6: deleting a live row always succeeds, without any need for free space: the repacking of the rows with the
  tombstone uses no more pages than the store has. Only this row leaves the table.
\<close>

theorem delete_refines:
  assumes "rs_ok s" "rs_table s rid = Some t"
  shows "\<exists>s'. rs_Delete rid s = (Inr (), s') \<and> rs_ok s' \<and> rs_table s' = (rs_table s)(rid := None) \<and>
    rs_Get rid s' = (Inl kNotFound, s')"
  using rst.del_in [OF assms] rst.get_out by fastforce

theorem delete_refines_witness:
  "rs_ok demo_store \<and> rs_table demo_store 0 = Some [VInt 7] \<and>
   (\<exists>s'. rs_Delete 0 demo_store = (Inr (), s') \<and> rs_table s' = Map.empty)"
proof -
  have "\<exists>s'. rs_Delete 0 demo_store = (Inr (), s') \<and> rs_ok s' \<and> rs_table s' = (rs_table demo_store)(0 := None) \<and>
      rs_Get 0 s' = (Inl kNotFound, s')"
    using delete_refines [OF demo_facts(2), of 0] demo_facts(4) by simp
  then show ?thesis using demo_facts(2,4) by auto
qed

text \<open>
  C7: the contents survive a restart. Opening a new store object on the file of a well-formed store succeeds and
  finds the same rows, the same live table and the same next row id.
\<close>

theorem reopen_preserves:
  assumes "rs_ok (fs, rs)" "rs_paths rs" "dir_free fs (rs_file_path rs)"
  shows "\<exists>s'. rs_Open (fs, RowStore (rs_file_path rs) (rs_page_size rs)) = (Inr (), s') \<and> rs_ok s' \<and>
    rs_rows s' = rs_rows (fs, rs) \<and> rs_table s' = rs_table (fs, rs) \<and> rs_next_row_id (snd s') = rs_next_row_id rs"
proof -
  obtain bs where bs: "rs_rep (fs, rs) bs" using assms(1) by (auto simp: rs_ok_def)
  then obtain s' where "rs_Open (fs, RowStore (rs_file_path rs) (rs_page_size rs)) = (Inr (), s')" "rs_rep s' bs"
    "rs_next_row_id (snd s') = rs_next_row_id rs"
    using rs_reopen [OF bs assms(2,3)] by blast
  then show ?thesis using rs_okI [OF bs] rs_okI [of s' bs] by auto
qed

theorem reopen_preserves_witness:
  "rs_ok (fst demo_store, snd demo_store) \<and> rs_paths (snd demo_store) \<and>
   dir_free (fst demo_store) (rs_file_path (snd demo_store)) \<and>
   (\<exists>s'. rs_Open (fst demo_store, RowStore ''t.db'' 128) = (Inr (), s') \<and> rs_table s' = [0 \<mapsto> [VInt 7]])"
proof -
  have p: "rs_paths (snd demo_store)" "rs_file_path (snd demo_store) = ''t.db''"
    by (simp_all add: rs_paths_def demo_store_def rs_image_def Let_def)
  have d: "dir_free (fst demo_store) (rs_file_path (snd demo_store))"
    unfolding p(2) by (simp add: dir_free_def dir_of_def path_prefixes_def)
  show ?thesis
    using reopen_preserves [of "fst demo_store" "snd demo_store"] p d demo_facts by auto
qed

text \<open>
  C8: the greedy packing of \<open>RewriteAllRows\<close> is optimal: whenever some split of the rows, in order, into batches
  that fit a page exists, the packing succeeds, keeps the rows and their order, fills only fitting pages, and
  uses no more pages than that split.
\<close>

theorem packing_optimal:
  assumes "list_all (fits ps) cs" "list_all row_wf (concat cs)" "36 \<le> ps"
  shows "\<exists>bs. build_batches ps (concat cs) [] [] 0 = Inr bs \<and> concat bs = concat cs \<and>
    list_all (batch_ok ps) bs \<and> length bs \<le> length cs"
proof -
  obtain bs where bs: "build_batches ps (concat cs) [] [] 0 = Inr bs"
    using build_batches_total [OF fits_rows [OF assms(1)]] by blast
  then show ?thesis
    using build_batches_concat [OF bs] build_batches_ok [OF bs] build_batches_optimal [OF bs assms(1)] assms
    by (simp add: batch_ok_Nil)
qed

theorem packing_optimal_witness:
  "list_all (fits 128) [[demo_row], [demo_row]] \<and> list_all row_wf (concat [[demo_row], [demo_row]]) \<and>
   (\<exists>bs. build_batches 128 [demo_row, demo_row] [] [] 0 = Inr bs \<and> length bs \<le> 2)"
proof -
  have "row_wf demo_row" "length (SerializeRowEntry demo_row) = 41"
    by (simp_all add: row_wf_def tuple_wf_def kMaxTupleValues_def length_entry enc_tuple_def
        enc_value_simps demo_row_def)
  then show ?thesis
    using packing_optimal [of 128 "[[demo_row], [demo_row]]"] by (auto simp: page_header_size_20)
qed

end
