(* ===== verification/Catalog_Codec.thy ===== *)
theory Catalog_Codec
  imports Values
begin

text \<open>
  Table descriptors (\<^verbatim>\<open>include/catalog/\<close>, \<^verbatim>\<open>src/catalog/schema.cpp\<close>) and their binary form
  (\<^verbatim>\<open>src/common/catalog_serialization.cpp\<close>). The deserialiser inverts the serialiser on every descriptor whose
  names and counts are within their 32-bit length fields.
\<close>

subsection \<open>Descriptors\<close>

text \<open>
  \<open>cOther n\<close> is a value of the enumeration's type outside its enumerators, which the unchecked cast of the
  deserialiser can produce.
\<close>

datatype ColumnType = cInt | cString | cBool | cOther nat

record ColumnSchema =
  col_name :: string
  col_type :: ColumnType
  col_not_null :: bool
  col_indexed :: bool
  col_default :: "Value option"

type_synonym TableSchema = "ColumnSchema list"

record IndexDescriptor =
  idx_name :: string
  idx_table_name :: string
  idx_column_name :: string
  idx_file_path :: string
  idx_unique :: bool

record TableDescriptor =
  td_database_name :: string
  td_table_name :: string
  td_data_file :: string
  td_index_dir :: string
  td_schema :: TableSchema
  td_indexes :: "IndexDescriptor list"

text \<open>\<open>FindColumn\<close> returns the position of the first column of that name, \<open>-1\<close> when there is none.\<close>

fun find_column_from :: "nat \<Rightarrow> ColumnSchema list \<Rightarrow> string \<Rightarrow> int" where
  "find_column_from i [] name = -1"
| "find_column_from i (c # cs) name = (if col_name c = name then int i else find_column_from (Suc i) cs name)"

definition FindColumn :: "TableSchema \<Rightarrow> string \<Rightarrow> int" where
  "FindColumn schema name = find_column_from 0 schema name"

definition FindColumnSchema :: "TableSchema \<Rightarrow> string \<Rightarrow> ColumnSchema option" where
  "FindColumnSchema schema name =
     (let index = FindColumn schema name in if index < 0 then None else Some (schema ! nat index))"

subsection \<open>Serialisation\<close>

fun column_type_rep :: "ColumnType \<Rightarrow> nat" where
  "column_type_rep cInt = 0"
| "column_type_rep cString = 1"
| "column_type_rep cBool = 2"
| "column_type_rep (cOther n) = n"

definition rep_column_type :: "nat \<Rightarrow> ColumnType" where
  "rep_column_type n = (if n = 0 then cInt else if n = 1 then cString else if n = 2 then cBool else cOther n)"

definition SerializeColumnSchema :: "ColumnSchema \<Rightarrow> bytes \<Rightarrow> bytes" where
  "SerializeColumnSchema column buffer =
     (let buffer = WriteString buffer (col_name column);
          buffer = WriteUint32 buffer (column_type_rep (col_type column));
          buffer = WriteBool buffer (col_not_null column);
          buffer = WriteBool buffer (col_indexed column);
          buffer = WriteBool buffer (col_default column \<noteq> None)
      in case col_default column of None \<Rightarrow> buffer | Some v \<Rightarrow> SerializeValue v buffer)"

definition DeserializeColumnSchema :: "bytes \<Rightarrow> nat \<Rightarrow> (ColumnSchema \<times> nat) result" where
  "DeserializeColumnSchema bs offset =
     bindR (ReadString bs offset) (\<lambda>(name, off).
     bindR (ReadUint32 bs off) (\<lambda>(raw_type, off).
     bindR (ReadBool bs off) (\<lambda>(not_null, off).
     bindR (ReadBool bs off) (\<lambda>(indexed, off).
     bindR (ReadBool bs off) (\<lambda>(has_default, off).
     bindR (if has_default then bindR (DeserializeValue bs off) (\<lambda>(v, off). Inr (Some v, off)) else Inr (None, off))
       (\<lambda>(default_value, off).
         Inr (\<lparr>col_name = name, col_type = rep_column_type raw_type, col_not_null = not_null,
               col_indexed = indexed, col_default = default_value\<rparr>, off)))))))"

definition SerializeTableSchema :: "TableSchema \<Rightarrow> bytes \<Rightarrow> bytes" where
  "SerializeTableSchema schema buffer =
     fold SerializeColumnSchema schema (WriteUint32 buffer (length schema))"

definition DeserializeTableSchema :: "bytes \<Rightarrow> nat \<Rightarrow> (TableSchema \<times> nat) result" where
  "DeserializeTableSchema bs offset =
     bindR (ReadUint32 bs offset) (\<lambda>(column_count, off). read_n DeserializeColumnSchema column_count bs off)"

definition SerializeIndexDescriptor :: "IndexDescriptor \<Rightarrow> bytes \<Rightarrow> bytes" where
  "SerializeIndexDescriptor index buffer =
     WriteBool (WriteString (WriteString (WriteString (WriteString buffer (idx_name index))
       (idx_table_name index)) (idx_column_name index)) (idx_file_path index)) (idx_unique index)"

definition DeserializeIndexDescriptor :: "bytes \<Rightarrow> nat \<Rightarrow> (IndexDescriptor \<times> nat) result" where
  "DeserializeIndexDescriptor bs offset =
     bindR (ReadString bs offset) (\<lambda>(name, off).
     bindR (ReadString bs off) (\<lambda>(table_name, off).
     bindR (ReadString bs off) (\<lambda>(column_name, off).
     bindR (ReadString bs off) (\<lambda>(file_path, off).
     bindR (ReadBool bs off) (\<lambda>(unique, off).
       Inr (\<lparr>idx_name = name, idx_table_name = table_name, idx_column_name = column_name,
             idx_file_path = file_path, idx_unique = unique\<rparr>, off))))))"

definition SerializeTableDescriptor :: "TableDescriptor \<Rightarrow> bytes \<Rightarrow> bytes" where
  "SerializeTableDescriptor desc buffer =
     (let buffer = WriteString buffer (td_database_name desc);
          buffer = WriteString buffer (td_table_name desc);
          buffer = WriteString buffer (td_data_file desc);
          buffer = WriteString buffer (td_index_dir desc);
          buffer = SerializeTableSchema (td_schema desc) buffer;
          buffer = WriteUint32 buffer (length (td_indexes desc))
      in fold SerializeIndexDescriptor (td_indexes desc) buffer)"

definition DeserializeTableDescriptor :: "bytes \<Rightarrow> nat \<Rightarrow> (TableDescriptor \<times> nat) result" where
  "DeserializeTableDescriptor bs offset =
     bindR (ReadString bs offset) (\<lambda>(database_name, off).
     bindR (ReadString bs off) (\<lambda>(table_name, off).
     bindR (ReadString bs off) (\<lambda>(data_file, off).
     bindR (ReadString bs off) (\<lambda>(index_dir, off).
     bindR (DeserializeTableSchema bs off) (\<lambda>(schema, off).
     bindR (ReadUint32 bs off) (\<lambda>(index_count, off).
     bindR (read_n DeserializeIndexDescriptor index_count bs off) (\<lambda>(indexes, off).
       Inr (\<lparr>td_database_name = database_name, td_table_name = table_name, td_data_file = data_file,
             td_index_dir = index_dir, td_schema = schema, td_indexes = indexes\<rparr>, off))))))))"

subsection \<open>Finding columns\<close>

lemma find_column_from_spec:
  "find_column_from i cs name =
     (if \<exists>c \<in> set cs. col_name c = name then int (i + length (takeWhile (\<lambda>c. col_name c \<noteq> name) cs)) else -1)"
  by (induction i cs name rule: find_column_from.induct) auto

lemma FindColumn_nonneg:
  assumes "FindColumn schema name \<ge> 0"
  shows "nat (FindColumn schema name) < length schema" "col_name (schema ! nat (FindColumn schema name)) = name"
proof -
  let ?n = "length (takeWhile (\<lambda>c. col_name c \<noteq> name) schema)"
  have ex: "\<exists>c \<in> set schema. col_name c = name" and eq: "FindColumn schema name = int ?n"
    using assms by (auto simp: FindColumn_def find_column_from_spec split: if_splits)
  have "takeWhile (\<lambda>c. col_name c \<noteq> name) schema \<noteq> schema"
    using ex by (auto simp: takeWhile_eq_all_conv)
  then have "?n < length schema"
    by (metis length_takeWhile_le order.not_eq_order_implies_strict takeWhile_eq_take take_all order_refl)
  then show "nat (FindColumn schema name) < length schema" "col_name (schema ! nat (FindColumn schema name)) = name"
    using nth_length_takeWhile [of "\<lambda>c. col_name c \<noteq> name" schema] eq by auto
qed

lemma FindColumn_neg: "FindColumn schema name < 0 \<longleftrightarrow> name \<notin> col_name ` set schema"
  by (auto simp: FindColumn_def find_column_from_spec)

lemma FindColumn_distinct:
  assumes "distinct (map col_name schema)" "i < length schema"
  shows "FindColumn schema (col_name (schema ! i)) = int i"
proof -
  let ?name = "col_name (schema ! i)"
  have ge: "FindColumn schema ?name \<ge> 0" using FindColumn_neg [of schema ?name] assms(2) by force
  then show ?thesis
    using FindColumn_nonneg [OF ge] assms by (simp add: distinct_conv_nth) (metis int_nat_eq length_map nth_map)
qed

subsection \<open>Encodings\<close>

definition col_wf :: "ColumnSchema \<Rightarrow> bool" where
  "col_wf c \<longleftrightarrow> length (col_name c) < 2 ^ 32 \<and> column_type_rep (col_type c) < 2 ^ 32 \<and>
     rep_column_type (column_type_rep (col_type c)) = col_type c \<and>
     (\<forall>v. col_default c = Some v \<longrightarrow> value_wf v)"

definition idx_wf :: "IndexDescriptor \<Rightarrow> bool" where
  "idx_wf i \<longleftrightarrow> length (idx_name i) < 2 ^ 32 \<and> length (idx_table_name i) < 2 ^ 32 \<and>
     length (idx_column_name i) < 2 ^ 32 \<and> length (idx_file_path i) < 2 ^ 32"

definition td_wf :: "TableDescriptor \<Rightarrow> bool" where
  "td_wf d \<longleftrightarrow> length (td_database_name d) < 2 ^ 32 \<and> length (td_table_name d) < 2 ^ 32 \<and>
     length (td_data_file d) < 2 ^ 32 \<and> length (td_index_dir d) < 2 ^ 32 \<and>
     length (td_schema d) < 2 ^ 32 \<and> length (td_indexes d) < 2 ^ 32 \<and>
     list_all col_wf (td_schema d) \<and> list_all idx_wf (td_indexes d)"

definition enc_column :: "ColumnSchema \<Rightarrow> bytes" where
  "enc_column c = enc_string (col_name c) @ le_bytes 4 (column_type_rep (col_type c)) @ enc_bool (col_not_null c)
     @ enc_bool (col_indexed c) @ enc_bool (col_default c \<noteq> None)
     @ (case col_default c of None \<Rightarrow> [] | Some v \<Rightarrow> enc_value v)"

definition enc_index :: "IndexDescriptor \<Rightarrow> bytes" where
  "enc_index i = enc_string (idx_name i) @ enc_string (idx_table_name i) @ enc_string (idx_column_name i)
     @ enc_string (idx_file_path i) @ enc_bool (idx_unique i)"

definition enc_schema :: "TableSchema \<Rightarrow> bytes" where
  "enc_schema s = le_bytes 4 (length s) @ concat (map enc_column s)"

definition enc_table :: "TableDescriptor \<Rightarrow> bytes" where
  "enc_table d = enc_string (td_database_name d) @ enc_string (td_table_name d) @ enc_string (td_data_file d)
     @ enc_string (td_index_dir d) @ enc_schema (td_schema d) @ le_bytes 4 (length (td_indexes d))
     @ concat (map enc_index (td_indexes d))"

lemma SerializeColumnSchema_appends: "SerializeColumnSchema c buf = buf @ enc_column c"
  by (simp add: SerializeColumnSchema_def enc_column_def writer_appends SerializeValue_appends Let_def
      split: option.splits)

lemma SerializeIndexDescriptor_appends: "SerializeIndexDescriptor i buf = buf @ enc_index i"
  by (simp add: SerializeIndexDescriptor_def enc_index_def writer_appends)

lemma SerializeTableSchema_appends: "SerializeTableSchema s buf = buf @ enc_schema s"
  using fold_appends [of SerializeColumnSchema enc_column] SerializeColumnSchema_appends
  by (simp add: SerializeTableSchema_def enc_schema_def writer_appends)

lemma SerializeTableDescriptor_appends: "SerializeTableDescriptor d buf = buf @ enc_table d"
  using fold_appends [of SerializeIndexDescriptor enc_index] SerializeIndexDescriptor_appends
  by (simp add: SerializeTableDescriptor_def enc_table_def writer_appends SerializeTableSchema_appends Let_def)

subsection \<open>Round trips\<close>

lemma decodes_value: "value_wf v \<Longrightarrow> decodes DeserializeValue (enc_value v) v"
  by (simp add: decodes_def DeserializeValue_at)

lemma column_eta: "col_default c = d \<Longrightarrow>
    \<lparr>col_name = col_name c, col_type = col_type c, col_not_null = col_not_null c, col_indexed = col_indexed c,
     col_default = d\<rparr> = c"
  by (cases c) simp

lemma decodes_column [decodes_intros]:
  assumes "col_wf c"
  shows "decodes DeserializeColumnSchema (enc_column c) c"
proof -
  let ?d = "case col_default c of None \<Rightarrow> [] | Some v \<Rightarrow> enc_value v"
  have d: "decodes (\<lambda>bs off. if col_default c \<noteq> None then bindR (DeserializeValue bs off) (\<lambda>(v, off). Inr (Some v, off))
      else Inr (None, off)) ?d (col_default c)"
  proof (cases "col_default c")
    case (Some v)
    then have "decodes (\<lambda>bs off. bindR (DeserializeValue bs off) (\<lambda>(v, off). Inr (Some v, off))) (enc_value v @ []) (Some v)"
      using assms by (intro decodes_intros decodes_bind [OF decodes_value]) (auto simp: col_wf_def)
    then show ?thesis using Some by simp
  qed (simp add: decodes_def)
  have "decodes (\<lambda>bs off. DeserializeColumnSchema bs off)
      (enc_string (col_name c) @ le_bytes 4 (column_type_rep (col_type c)) @ enc_bool (col_not_null c)
        @ enc_bool (col_indexed c) @ enc_bool (col_default c \<noteq> None) @ ?d @ []) c"
    unfolding DeserializeColumnSchema_def using assms
    by (intro decodes_intros decodes_bind [OF d]) (auto simp: col_wf_def column_eta)
  then show ?thesis by (simp add: enc_column_def)
qed

lemma decodes_index [decodes_intros]:
  assumes "idx_wf i"
  shows "decodes DeserializeIndexDescriptor (enc_index i) i"
proof -
  have "decodes (\<lambda>bs off. DeserializeIndexDescriptor bs off) (enc_string (idx_name i) @ enc_string (idx_table_name i)
      @ enc_string (idx_column_name i) @ enc_string (idx_file_path i) @ enc_bool (idx_unique i) @ []) i"
    unfolding DeserializeIndexDescriptor_def using assms by (intro decodes_intros) (auto simp: idx_wf_def)
  then show ?thesis by (simp add: enc_index_def)
qed

lemma decodes_schema [decodes_intros]:
  assumes "length s < 2 ^ 32" "list_all col_wf s"
  shows "decodes DeserializeTableSchema (enc_schema s) s"
proof -
  have "decodes (\<lambda>bs off. DeserializeTableSchema bs off) (le_bytes 4 (length s) @ concat (map enc_column s)) s"
    unfolding DeserializeTableSchema_def using assms by (intro decodes_intros) (auto simp: list_all_iff)
  then show ?thesis by (simp add: enc_schema_def)
qed

lemma decodes_table:
  assumes "td_wf d"
  shows "decodes DeserializeTableDescriptor (enc_table d) d"
proof -
  have "decodes (\<lambda>bs off. DeserializeTableDescriptor bs off) (enc_string (td_database_name d) @
      enc_string (td_table_name d) @ enc_string (td_data_file d) @ enc_string (td_index_dir d) @
      enc_schema (td_schema d) @ le_bytes 4 (length (td_indexes d)) @ concat (map enc_index (td_indexes d)) @ []) d"
    unfolding DeserializeTableDescriptor_def using assms
    by (intro decodes_intros decodes_bind [OF decodes_schema]) (auto simp: td_wf_def list_all_iff)
  then show ?thesis by (simp add: enc_table_def)
qed

end
