(* ===== verification/Table_Storage.thy ===== *)
theory Table_Storage
  imports Row_Store Catalog_Codec
begin

text \<open>
  \<^verbatim>\<open>src/storage/table_storage.cpp\<close>: a row store whose tuples are checked against the table's schema and filled
  up with the columns' defaults. The table storage is shown to provide the interface \<open>row_table\<close> again, on tuples
  that conform to the schema, and every row it holds conforms.
\<close>

subsection \<open>Checking tuples\<close>

definition ValidateValueAgainstColumn :: "Value \<Rightarrow> ColumnSchema \<Rightarrow> unit result" where
  "ValidateValueAgainstColumn v column =
     (if is_null v then guardR (\<not> col_not_null column) kInvalidArgument
      else case col_type column of
          cInt \<Rightarrow> guardR (value_type v = kInt) kInvalidArgument
        | cBool \<Rightarrow> guardR (value_type v = kBool) kInvalidArgument
        | cString \<Rightarrow> guardR (value_type v = kString) kInvalidArgument
        | cOther _ \<Rightarrow> Inr ())"

fun prepare_columns :: "ColumnSchema list \<Rightarrow> Value list \<Rightarrow> Tuple result" where
  "prepare_columns [] vs = Inr []"
| "prepare_columns (column # cs) (candidate # vs) =
     bindR (ValidateValueAgainstColumn candidate column) (\<lambda>_.
     bindR (prepare_columns cs vs) (\<lambda>out. Inr (candidate # out)))"
| "prepare_columns (column # cs) [] =
     (case col_default column of
        None \<Rightarrow> if col_not_null column then Inl kInvalidArgument
          else bindR (prepare_columns cs []) (\<lambda>out. Inr (VNull # out))
      | Some candidate \<Rightarrow>
          bindR (ValidateValueAgainstColumn candidate column) (\<lambda>_.
          bindR (prepare_columns cs []) (\<lambda>out. Inr (candidate # out))))"

definition PrepareTupleForWrite :: "TableSchema \<Rightarrow> Tuple \<Rightarrow> Tuple result" where
  "PrepareTupleForWrite schema input =
     bindR (guardR (schema \<noteq> []) kInternalError) (\<lambda>_.
     bindR (guardR (length input \<le> length schema) kInvalidArgument) (\<lambda>_.
       prepare_columns schema input))"

subsection \<open>The object\<close>

record table_storage =
  ts_descriptor :: TableDescriptor
  ts_row_store :: row_store
  ts_is_open :: bool

type_synonym ts_state = "file_system \<times> table_storage"

definition TableStorage :: "TableDescriptor \<Rightarrow> nat \<Rightarrow> table_storage" where
  "TableStorage descriptor page_size =
     \<lparr>ts_descriptor = descriptor, ts_row_store = RowStore (td_data_file descriptor) page_size, ts_is_open = False\<rparr>"

definition ts_rs :: "ts_state \<Rightarrow> rs_state" where
  "ts_rs s = (fst s, ts_row_store (snd s))"

definition ts_upd_rs :: "rs_state \<Rightarrow> ts_state \<Rightarrow> ts_state" where
  "ts_upd_rs p s = (fst p, (snd s)\<lparr>ts_row_store := snd p\<rparr>)"

definition on_rs :: "(rs_state, 'a) stm \<Rightarrow> (ts_state, 'a) stm" where
  "on_rs m = zoom ts_rs ts_upd_rs m"

definition ts_schema :: "ts_state \<Rightarrow> TableSchema" where
  "ts_schema s = td_schema (ts_descriptor (snd s))"

definition ts_Open :: "(ts_state, unit) stm" where
  "ts_Open =
     bindS (gets snd) (\<lambda>ts.
       if ts_is_open ts then ret ()
       else
         bindS (guardS (td_data_file (ts_descriptor ts) \<noteq> []) kInvalidArgument) (\<lambda>_.
         bindS (on_rs rs_Open) (\<lambda>_.
           on_obj (\<lambda>ts. ts\<lparr>ts_is_open := True\<rparr>))))"

definition ts_Insert :: "Tuple \<Rightarrow> (ts_state, nat) stm" where
  "ts_Insert t =
     bindS (gets id) (\<lambda>s.
     bindS (guardS (ts_is_open (snd s)) kInternalError) (\<lambda>_.
     bindS (liftR (PrepareTupleForWrite (ts_schema s) t)) (\<lambda>prepared.
       on_rs (rs_Insert \<lparr>row_rid = 0, row_tuple = prepared, row_deleted = False\<rparr>))))"

definition ts_Update :: "nat \<Rightarrow> Tuple \<Rightarrow> (ts_state, unit) stm" where
  "ts_Update rid t =
     bindS (gets id) (\<lambda>s.
     bindS (guardS (ts_is_open (snd s)) kInternalError) (\<lambda>_.
     bindS (liftR (PrepareTupleForWrite (ts_schema s) t)) (\<lambda>prepared.
       on_rs (rs_Update rid prepared))))"

definition ts_Get :: "nat \<Rightarrow> (ts_state, Row) stm" where
  "ts_Get rid =
     bindS (gets id) (\<lambda>s.
     bindS (guardS (ts_is_open (snd s)) kInternalError) (\<lambda>_.
       on_rs (rs_Get rid)))"

definition ts_Scan :: "(ts_state, Row list) stm" where
  "ts_Scan =
     bindS (gets id) (\<lambda>s.
     bindS (guardS (ts_is_open (snd s)) kInternalError) (\<lambda>_.
       on_rs rs_Scan))"

definition ts_Delete :: "nat \<Rightarrow> (ts_state, unit) stm" where
  "ts_Delete rid =
     bindS (gets id) (\<lambda>s.
     bindS (guardS (ts_is_open (snd s)) kInternalError) (\<lambda>_.
       on_rs (rs_Delete rid)))"

definition ts_Restore :: "nat \<Rightarrow> Tuple \<Rightarrow> (ts_state, unit) stm" where
  "ts_Restore rid t =
     bindS (gets id) (\<lambda>s.
     bindS (guardS (ts_is_open (snd s)) kInternalError) (\<lambda>_.
     bindS (liftR (PrepareTupleForWrite (ts_schema s) t)) (\<lambda>prepared.
       on_rs (rs_Restore \<lparr>row_rid = rid, row_tuple = prepared, row_deleted = False\<rparr>))))"

subsection \<open>Conforming tuples\<close>

text \<open>The meaning of a schema: one value per column, of the column's type, null only where that is allowed.\<close>

definition value_conforms :: "ColumnSchema \<Rightarrow> Value \<Rightarrow> bool" where
  "value_conforms c v \<longleftrightarrow> (case v of
       VNull \<Rightarrow> \<not> col_not_null c
     | VInt _ \<Rightarrow> col_type c \<notin> {cBool, cString}
     | VString _ \<Rightarrow> col_type c \<notin> {cInt, cBool}
     | VBool _ \<Rightarrow> col_type c \<notin> {cInt, cString})"

definition conforms :: "TableSchema \<Rightarrow> Tuple \<Rightarrow> bool" where
  "conforms schema t \<longleftrightarrow> list_all2 value_conforms schema t"

definition default_of :: "ColumnSchema \<Rightarrow> Value" where
  "default_of c = (case col_default c of None \<Rightarrow> VNull | Some v \<Rightarrow> v)"

definition fill_up :: "TableSchema \<Rightarrow> Tuple \<Rightarrow> Tuple" where
  "fill_up schema t = t @ map default_of (drop (length t) schema)"

lemma ValidateValue_iff: "ValidateValueAgainstColumn v c = Inr () \<longleftrightarrow> value_conforms c v"
  by (cases v; cases "col_type c") (auto simp: ValidateValueAgainstColumn_def value_conforms_def is_null_def)

lemma ValidateValue_err: "ValidateValueAgainstColumn v c \<noteq> Inr () \<longleftrightarrow> ValidateValueAgainstColumn v c = Inl kInvalidArgument"
  by (cases v; cases "col_type c") (auto simp: ValidateValueAgainstColumn_def guardR_def is_null_def)

lemma prepare_columns_eq:
  "length vs \<le> length cs \<Longrightarrow> prepare_columns cs vs =
     (if conforms cs (fill_up cs vs) then Inr (fill_up cs vs) else Inl kInvalidArgument)"
proof (induction cs vs rule: prepare_columns.induct)
  case (2 c cs v vs)
  then show ?case
    using ValidateValue_iff [of v c] ValidateValue_err [of v c]
    by (cases "value_conforms c v") (auto simp: conforms_def fill_up_def)
next
  case (3 c cs)
  have n: "value_conforms c VNull \<longleftrightarrow> \<not> col_not_null c" by (simp add: value_conforms_def)
  show ?case
  proof (cases "col_default c")
    case None
    then show ?thesis using 3 n by (auto simp: conforms_def fill_up_def default_of_def)
  next
    case (Some v)
    then show ?thesis
      using 3 ValidateValue_iff [of v c] ValidateValue_err [of v c]
      by (cases "value_conforms c v") (auto simp: conforms_def fill_up_def default_of_def)
  qed
qed (simp add: conforms_def fill_up_def)

lemma PrepareTupleForWrite_eq:
  "PrepareTupleForWrite schema t =
     (if schema = [] then Inl kInternalError
      else if length t \<le> length schema \<and> conforms schema (fill_up schema t) then Inr (fill_up schema t)
      else Inl kInvalidArgument)"
  by (simp add: PrepareTupleForWrite_def bindR_guardR prepare_columns_eq)

lemma fill_up_full: "length schema \<le> length t \<Longrightarrow> fill_up schema t = t"
  by (simp add: fill_up_def)

lemma conforms_length: "conforms schema t \<Longrightarrow> length t = length schema"
  by (auto simp: conforms_def dest: list_all2_lengthD)

lemma Prepare_conforming: "schema \<noteq> [] \<Longrightarrow> conforms schema t \<Longrightarrow> PrepareTupleForWrite schema t = Inr t"
  using conforms_length [of schema t] by (simp add: PrepareTupleForWrite_eq fill_up_full)

subsection \<open>The table storage as a table of rows\<close>

definition ts_table :: "ts_state \<Rightarrow> nat \<Rightarrow> Tuple option" where
  "ts_table s = rs_table (ts_rs s)"

text \<open>The invariant: an open, well-formed row store that holds conforming rows only.\<close>

definition ts_ok :: "TableSchema \<Rightarrow> ts_state \<Rightarrow> bool" where
  "ts_ok schema s \<longleftrightarrow> ts_is_open (snd s) \<and> ts_schema s = schema \<and> schema \<noteq> [] \<and> rs_ok (ts_rs s) \<and>
     (\<forall>rid t. ts_table s rid = Some t \<longrightarrow> conforms schema t)"

definition ts_can_insert :: "TableSchema \<Rightarrow> Tuple \<Rightarrow> ts_state \<Rightarrow> bool" where
  "ts_can_insert schema t s \<longleftrightarrow> conforms schema t \<and> can_insert t (ts_rs s)"

definition ts_can_update :: "TableSchema \<Rightarrow> Tuple \<Rightarrow> ts_state \<Rightarrow> bool" where
  "ts_can_update schema t s \<longleftrightarrow> conforms schema t \<and> can_update t (ts_rs s)"

definition ts_can_restore :: "TableSchema \<Rightarrow> Row \<Rightarrow> ts_state \<Rightarrow> bool" where
  "ts_can_restore schema row s \<longleftrightarrow> conforms schema (row_tuple row) \<and> can_restore row (ts_rs s)"

lemma ts_rs_upd [simp]: "ts_rs (ts_upd_rs p s) = p"
  by (cases p) (simp add: ts_rs_def ts_upd_rs_def)

lemma ts_upd_rs_simps [simp]:
  "ts_upd_rs (ts_rs s) s = s" "ts_schema (ts_upd_rs p s) = ts_schema s"
  "ts_is_open (snd (ts_upd_rs p s)) = ts_is_open (snd s)" "ts_table (ts_upd_rs p s) = rs_table p"
  by (simp_all add: ts_rs_def ts_upd_rs_def ts_schema_def ts_table_def)

lemma on_rs_run: "m (ts_rs s) = (r, p) \<Longrightarrow> on_rs m s = (r, ts_upd_rs p s)"
  by (simp add: on_rs_def zoom_def)

lemma on_rs_same: "m (ts_rs s) = (r, ts_rs s) \<Longrightarrow> on_rs m s = (r, s)"
  using on_rs_run [of m s r "ts_rs s"] by simp

lemmas ts_exec = bindS_guardS bindS_liftR Prepare_conforming

text \<open>The interface holds for every schema; the restored row carries its id in the row.\<close>

lemma ts_okD:
  assumes "ts_ok schema s"
  shows "ts_is_open (snd s)" "ts_schema s = schema" "schema \<noteq> []" "rs_ok (ts_rs s)"
  using assms by (auto simp: ts_ok_def)

lemma ts_ok_upd:
  assumes "ts_ok schema s" "rs_ok p" "\<And>rid t. rs_table p rid = Some t \<Longrightarrow> rs_table (ts_rs s) rid = Some t \<or> conforms schema t"
  shows "ts_ok schema (ts_upd_rs p s)"
  using assms by (fastforce simp: ts_ok_def ts_table_def)

interpretation tst: row_table "ts_ok schema" ts_table "ts_can_insert schema" "ts_can_update schema" "ts_can_restore schema"
  "\<lambda>row. ts_Insert (row_tuple row)" ts_Get ts_Update ts_Delete "\<lambda>row. ts_Restore (row_rid row) (row_tuple row)" ts_Scan
  for schema
proof (unfold_locales, goal_cases)
  case (1 s row)
  let ?row = "\<lparr>row_rid = 0, row_tuple = row_tuple row, row_deleted = False\<rparr>"
  obtain p rid where p: "rs_Insert ?row (ts_rs s) = (Inr rid, p)" "rs_ok p" "rs_table (ts_rs s) rid = None"
    "rs_table p = (rs_table (ts_rs s))(rid \<mapsto> row_tuple row)"
    using rst.ins_in [OF ts_okD(4) [OF 1(1)], of ?row] 1(2) by (auto simp: ts_can_insert_def)
  have c: "conforms schema (row_tuple row)" using 1(2) by (simp add: ts_can_insert_def)
  have "ts_Insert (row_tuple row) s = (Inr rid, ts_upd_rs p s)"
    using ts_okD [OF 1(1)] c on_rs_run [of "rs_Insert ?row" s, OF p(1)] by (simp add: ts_Insert_def ts_exec)
  moreover have "ts_ok schema (ts_upd_rs p s)" using p(4) c by (intro ts_ok_upd [OF 1(1) p(2)]) (auto split: if_splits)
  ultimately show ?case using p by (auto simp: ts_table_def intro!: exI [of _ "ts_upd_rs p s"])
next
  case (2 s rid t)
  then show ?case
    using rst.get_in [OF ts_okD(4) [OF 2(1)], of rid t] ts_okD [OF 2(1)]
    by (simp add: ts_Get_def ts_exec ts_table_def on_rs_same)
next
  case (3 s rid)
  then show ?case
    using rst.get_out [OF ts_okD(4) [OF 3(1)], of rid] ts_okD [OF 3(1)]
    by (simp add: ts_Get_def ts_exec ts_table_def on_rs_same)
next
  case (4 s rid t0 t)
  then have c: "conforms schema t" by (simp add: ts_can_update_def)
  obtain p where p: "rs_Update rid t (ts_rs s) = (Inr (), p)" "rs_ok p" "rs_table p = (rs_table (ts_rs s))(rid \<mapsto> t)"
    using rst.upd_in [OF ts_okD(4) [OF 4(1)], of rid t0 t] 4 by (auto simp: ts_can_update_def ts_table_def)
  have "ts_Update rid t s = (Inr (), ts_upd_rs p s)"
    using ts_okD [OF 4(1)] c on_rs_run [of "rs_Update rid t" s, OF p(1)] by (simp add: ts_Update_def ts_exec)
  moreover have "ts_ok schema (ts_upd_rs p s)" using p(3) c by (intro ts_ok_upd [OF 4(1) p(2)]) (auto split: if_splits)
  ultimately show ?case using p by (auto simp: ts_table_def intro!: exI [of _ "ts_upd_rs p s"])
next
  case (5 s rid t)
  then show ?case
    using rst.upd_out [OF ts_okD(4) [OF 5(1)], of rid t] ts_okD [OF 5(1)] on_rs_same [of "rs_Update rid t" s]
    by (simp add: ts_Update_def ts_exec ts_table_def ts_can_update_def)
next
  case (6 s rid t)
  obtain p where p: "rs_Delete rid (ts_rs s) = (Inr (), p)" "rs_ok p" "rs_table p = (rs_table (ts_rs s))(rid := None)"
    using rst.del_in [OF ts_okD(4) [OF 6(1)], of rid t] 6(2) by (auto simp: ts_table_def)
  have "ts_Delete rid s = (Inr (), ts_upd_rs p s)"
    using ts_okD [OF 6(1)] on_rs_run [of "rs_Delete rid" s, OF p(1)] by (simp add: ts_Delete_def ts_exec)
  moreover have "ts_ok schema (ts_upd_rs p s)" using p(3) by (intro ts_ok_upd [OF 6(1) p(2)]) (auto split: if_splits)
  ultimately show ?case using p by (auto simp: ts_table_def intro!: exI [of _ "ts_upd_rs p s"])
next
  case (7 s row)
  let ?row = "\<lparr>row_rid = row_rid row, row_tuple = row_tuple row, row_deleted = False\<rparr>"
  have c: "conforms schema (row_tuple row)" "can_restore ?row (ts_rs s)"
    using 7(2) by (auto simp: ts_can_restore_def can_restore_def)
  obtain p where p: "rs_Restore ?row (ts_rs s) = (Inr (), p)" "rs_ok p"
    "rs_table p = (rs_table (ts_rs s))(row_rid row \<mapsto> row_tuple row)"
    using rst.res_in [OF ts_okD(4) [OF 7(1)] c(2)] by auto
  have "ts_Restore (row_rid row) (row_tuple row) s = (Inr (), ts_upd_rs p s)"
    using ts_okD [OF 7(1)] c on_rs_run [of "rs_Restore ?row" s, OF p(1)] by (simp add: ts_Restore_def ts_exec)
  moreover have "ts_ok schema (ts_upd_rs p s)" using p(3) c by (intro ts_ok_upd [OF 7(1) p(2)]) (auto split: if_splits)
  ultimately show ?case using p by (auto simp: ts_table_def intro!: exI [of _ "ts_upd_rs p s"])
next
  case (8 s)
  obtain rows where "rs_Scan (ts_rs s) = (Inr rows, ts_rs s)" "distinct (map row_rid rows)"
    "list_all (\<lambda>r. \<not> row_deleted r) rows" "map_of (map (\<lambda>r. (row_rid r, row_tuple r)) rows) = ts_table s"
    using rst.scan_in [OF ts_okD(4) [OF 8]] by (auto simp: ts_table_def)
  then show ?case using ts_okD [OF 8] on_rs_same [of rs_Scan s] by (simp add: ts_Scan_def ts_exec)
qed

subsection \<open>Properties of the table storage\<close>

text \<open>C19: a tuple offered to a table is accepted exactly when it is no longer than the schema and, filled up with the
  defaults of the missing columns, conforms to the schema; what is written is that filled-up tuple.\<close>

theorem prepare_exact:
  "PrepareTupleForWrite schema t = Inr out \<longleftrightarrow>
     schema \<noteq> [] \<and> length t \<le> length schema \<and> out = fill_up schema t \<and> conforms schema out"
  by (auto simp: PrepareTupleForWrite_eq)

lemma ts_Insert_prepared:
  assumes "ts_ok schema s" "length t \<le> length schema" "conforms schema (fill_up schema t)"
  shows "ts_Insert t s = ts_Insert (fill_up schema t) s"
  using ts_okD [OF assms(1)] assms(2,3) conforms_length [OF assms(3)]
  by (simp add: ts_Insert_def bindS_guardS bindS_liftR PrepareTupleForWrite_eq fill_up_full)

lemma ts_Insert_rejected:
  assumes "ts_ok schema s" "\<not> (length t \<le> length schema \<and> conforms schema (fill_up schema t))"
  shows "ts_Insert t s = (Inl kInvalidArgument, s)"
  using ts_okD [OF assms(1)] assms(2) by (auto simp: ts_Insert_def bindS_guardS bindS_liftR PrepareTupleForWrite_eq)

text \<open>A table of one integer column over the demonstration store.\<close>

definition demo_schema :: TableSchema where
  "demo_schema = [\<lparr>col_name = ''id'', col_type = cInt, col_not_null = True, col_indexed = True, col_default = Some (VInt 7)\<rparr>]"

definition demo_table :: ts_state where
  "demo_table = (fst demo_store, \<lparr>ts_descriptor = \<lparr>td_database_name = ''d'', td_table_name = ''t'',
     td_data_file = rs_file_path (snd demo_store), td_index_dir = ''i'', td_schema = demo_schema, td_indexes = []\<rparr>,
     ts_row_store = snd demo_store, ts_is_open = True\<rparr>)"

lemma demo_table_ok: "ts_ok demo_schema demo_table" "ts_rs demo_table = demo_store"
proof -
  show rs: "ts_rs demo_table = demo_store" by (simp add: ts_rs_def demo_table_def)
  show "ts_ok demo_schema demo_table"
    using demo_facts(2,4) rs
    by (auto simp: ts_ok_def ts_table_def ts_schema_def demo_schema_def conforms_def value_conforms_def
        demo_table_def split: if_splits)
qed

text \<open>C9: \<^verbatim>\<open>TableStorage::Insert\<close> either stores the filled-up tuple under a fresh id, keeping the invariant that every
  stored row conforms to the schema, or rejects the tuple and changes nothing.\<close>

theorem table_insert:
  assumes "ts_ok schema s" "can_insert (fill_up schema t) (ts_rs s)"
  shows "if length t \<le> length schema \<and> conforms schema (fill_up schema t)
    then \<exists>s' rid. ts_Insert t s = (Inr rid, s') \<and> ts_ok schema s' \<and> ts_table s rid = None \<and>
      ts_table s' = (ts_table s)(rid \<mapsto> fill_up schema t)
    else ts_Insert t s = (Inl kInvalidArgument, s)"
proof (cases "length t \<le> length schema \<and> conforms schema (fill_up schema t)")
  case True
  then show ?thesis
    using tst.ins_in [OF assms(1), of "\<lparr>row_rid = 0, row_tuple = fill_up schema t, row_deleted = False\<rparr>"]
      ts_Insert_prepared [OF assms(1)] assms(2) by (simp add: ts_can_insert_def)
next
  case False
  then show ?thesis using ts_Insert_rejected [OF assms(1) False] by (simp only: if_False)
qed

theorem table_insert_witness:
  "ts_ok demo_schema demo_table \<and> (\<exists>s' rid. ts_Insert [] demo_table = (Inr rid, s') \<and> ts_table s' rid = Some [VInt 7])"
proof -
  have f: "fill_up demo_schema [] = [VInt 7]" "conforms demo_schema [VInt 7]"
    by (simp_all add: fill_up_def demo_schema_def default_of_def conforms_def value_conforms_def)
  have "can_insert [VInt 7] demo_store"
    using demo_facts demo_fits [of 7] rs_room_mono [of 3 demo_store 1] by (simp add: can_insert_def)
  then obtain s' rid where "ts_Insert [] demo_table = (Inr rid, s')" "ts_table s' = (ts_table demo_table)(rid \<mapsto> [VInt 7])"
    using table_insert [of demo_schema demo_table "[]"] demo_table_ok f by auto
  then show ?thesis using demo_table_ok by auto
qed

end
