(* ===== verification/Catalog_Manager.thy ===== *)
theory Catalog_Manager
  imports Characters File_System Catalog_Codec
begin

text \<open>
  \<^verbatim>\<open>src/catalog/catalog_manager.cpp\<close>: databases are directories under a root, tables are \<^verbatim>\<open>.meta\<close> files in their
  \<^verbatim>\<open>catalog\<close> directory. The object holds the root only, so the methods take it as an argument and run on the file system.

  The order in which a directory is enumerated is not specified by the C++ library; it is the parameter \<open>dir_order\<close>.
  Paths are compared as strings, as the code builds them: the file system does not resolve \<^verbatim>\<open>.\<close> components.

  The interface the storage engine relies on is the locale \<open>table_catalog\<close>: a map from database and table names to
  descriptors.
\<close>

subsection \<open>Paths\<close>

definition DatabasePath :: "string \<Rightarrow> string \<Rightarrow> string" where
  "DatabasePath root_dir db_name = root_dir @ ''/'' @ db_name"

definition CatalogDirPath :: "string \<Rightarrow> string \<Rightarrow> string" where
  "CatalogDirPath root_dir db_name = DatabasePath root_dir db_name @ ''/catalog''"

definition TablesDirPath :: "string \<Rightarrow> string \<Rightarrow> string" where
  "TablesDirPath root_dir db_name = DatabasePath root_dir db_name @ ''/tables''"

definition IndexesDirPath :: "string \<Rightarrow> string \<Rightarrow> string" where
  "IndexesDirPath root_dir db_name = DatabasePath root_dir db_name @ ''/indexes''"

definition VersionsDirPath :: "string \<Rightarrow> string \<Rightarrow> string" where
  "VersionsDirPath root_dir db_name = DatabasePath root_dir db_name @ ''/versions''"

definition TableMetaPath :: "string \<Rightarrow> string \<Rightarrow> string \<Rightarrow> string" where
  "TableMetaPath root_dir db_name table_name = CatalogDirPath root_dir db_name @ ''/'' @ table_name @ ''.meta''"

definition DefaultTableDataPath :: "string \<Rightarrow> string \<Rightarrow> string \<Rightarrow> string" where
  "DefaultTableDataPath root_dir db_name table_name = TablesDirPath root_dir db_name @ ''/'' @ table_name @ ''.tbl''"

definition DefaultTableIndexDir :: "string \<Rightarrow> string \<Rightarrow> string \<Rightarrow> string" where
  "DefaultTableIndexDir root_dir db_name table_name = IndexesDirPath root_dir db_name @ ''/'' @ table_name"

definition DefaultIndexFilePath :: "string \<Rightarrow> string \<Rightarrow> string" where
  "DefaultIndexFilePath index_dir index_name = index_dir @ ''/'' @ index_name @ ''.idx''"

subsection \<open>Validation\<close>

fun valid_name_loop :: "string \<Rightarrow> bool \<Rightarrow> bool \<Rightarrow> bool" where
  "valid_name_loop [] has_non_space prev_dot = has_non_space"
| "valid_name_loop (ch # cs) has_non_space prev_dot =
     (if ch = CHR ''/'' \<or> ch = CHR 0x5C then False
      else if ch = CHR ''.'' \<and> prev_dot then False
      else valid_name_loop cs (has_non_space \<or> \<not> isspace ch) (ch = CHR ''.''))"

definition IsValidName :: "string \<Rightarrow> bool" where
  "IsValidName name \<longleftrightarrow> name \<noteq> [] \<and> valid_name_loop name False False"

definition ValidateDatabaseName :: "string \<Rightarrow> unit result" where
  "ValidateDatabaseName db_name = guardR (IsValidName db_name) kInvalidArgument"

definition ValidateTableName :: "string \<Rightarrow> unit result" where
  "ValidateTableName table_name = guardR (IsValidName table_name) kInvalidArgument"

definition ValidateColumnSchema :: "ColumnSchema \<Rightarrow> unit result" where
  "ValidateColumnSchema column =
     bindR (guardR (IsValidName (col_name column)) kInvalidArgument) (\<lambda>_.
       case col_default column of
         None \<Rightarrow> Inr ()
       | Some v \<Rightarrow>
           bindR (guardR (\<not> (col_type column = cInt \<and> value_type v \<noteq> kInt)) kInvalidArgument) (\<lambda>_.
           bindR (guardR (\<not> (col_type column = cString \<and> value_type v \<noteq> kString)) kInvalidArgument) (\<lambda>_.
             guardR (\<not> (col_type column = cBool \<and> value_type v \<noteq> kBool)) kInvalidArgument)))"

fun validate_columns :: "ColumnSchema list \<Rightarrow> string set \<Rightarrow> unit result" where
  "validate_columns [] seen_columns = Inr ()"
| "validate_columns (column # cs) seen_columns =
     bindR (ValidateColumnSchema column) (\<lambda>_.
     bindR (guardR (col_name column \<notin> seen_columns) kInvalidArgument) (\<lambda>_.
       validate_columns cs (insert (col_name column) seen_columns)))"

definition ValidateTableSchema :: "TableSchema \<Rightarrow> unit result" where
  "ValidateTableSchema schema =
     bindR (guardR (schema \<noteq> []) kInvalidArgument) (\<lambda>_. validate_columns schema {})"

definition ValidateIndexDescriptor :: "IndexDescriptor \<Rightarrow> TableSchema \<Rightarrow> string \<Rightarrow> unit result" where
  "ValidateIndexDescriptor index schema table_name =
     bindR (guardR (IsValidName (idx_name index)) kInvalidArgument) (\<lambda>_.
     bindR (guardR (idx_table_name index = table_name) kInvalidArgument) (\<lambda>_.
     bindR (guardR (\<not> FindColumn schema (idx_column_name index) < 0) kInvalidArgument) (\<lambda>_.
       guardR (idx_file_path index \<noteq> []) kInvalidArgument)))"

fun validate_indexes :: "IndexDescriptor list \<Rightarrow> TableSchema \<Rightarrow> string \<Rightarrow> string set \<Rightarrow> unit result" where
  "validate_indexes [] schema table_name seen_indexes = Inr ()"
| "validate_indexes (index # is) schema table_name seen_indexes =
     bindR (ValidateIndexDescriptor index schema table_name) (\<lambda>_.
     bindR (guardR (idx_name index \<notin> seen_indexes) kInvalidArgument) (\<lambda>_.
       validate_indexes is schema table_name (insert (idx_name index) seen_indexes)))"

definition ValidateTableDescriptor :: "TableDescriptor \<Rightarrow> unit result" where
  "ValidateTableDescriptor desc =
     bindR (ValidateDatabaseName (td_database_name desc)) (\<lambda>_.
     bindR (ValidateTableName (td_table_name desc)) (\<lambda>_.
     bindR (ValidateTableSchema (td_schema desc)) (\<lambda>_.
     bindR (validate_indexes (td_indexes desc) (td_schema desc) (td_table_name desc) {}) (\<lambda>_.
     bindR (guardR (td_data_file desc \<noteq> []) kInvalidArgument) (\<lambda>_.
       guardR (td_index_dir desc \<noteq> []) kInvalidArgument)))))"

subsection \<open>The file system queries\<close>

text \<open>A failing query counts as false, since the code ignores the error code.\<close>

definition fs_exists :: "string \<Rightarrow> (file_system, bool) stm" where
  "fs_exists path fs = (case fs_tick fs of (ev, fs') \<Rightarrow>
     (Inr (ev = None \<and> (path \<in> dom (fs_files fs') \<or> path \<in> fs_dirs fs')), fs'))"

definition fs_is_directory :: "string \<Rightarrow> (file_system, bool) stm" where
  "fs_is_directory path fs = (case fs_tick fs of (ev, fs') \<Rightarrow> (Inr (ev = None \<and> path \<in> fs_dirs fs'), fs'))"

definition dir_exists :: "string \<Rightarrow> (file_system, bool) stm" where
  "dir_exists path = bindS (fs_exists path) (\<lambda>b. if b then fs_is_directory path else ret False)"

definition DatabaseExists :: "string \<Rightarrow> string \<Rightarrow> (file_system, bool) stm" where
  "DatabaseExists root_dir db_name = dir_exists (DatabasePath root_dir db_name)"

definition TableMetaExists :: "string \<Rightarrow> string \<Rightarrow> string \<Rightarrow> (file_system, bool) stm" where
  "TableMetaExists root_dir db_name table_name fs =
     (case FileExists (TableMetaPath root_dir db_name table_name) fs of
        (Inl _, fs') \<Rightarrow> (Inr False, fs')
      | (Inr exists, fs') \<Rightarrow> (Inr exists, fs'))"

text \<open>What lies below a directory; a failing removal has removed some of it.\<close>

definition below :: "string \<Rightarrow> string \<Rightarrow> bool" where
  "below path p \<longleftrightarrow> p = path \<or> take (length path + 1) p = path @ ''/''"

definition remove_all :: "(string set \<Rightarrow> string list) \<Rightarrow> string \<Rightarrow> (file_system, unit) stm" where
  "remove_all dir_order path fs = (case fs_tick fs of (ev, fs') \<Rightarrow>
     let doomed = {p \<in> dom (fs_files fs') \<union> fs_dirs fs'. below path p};
         gone = (case ev of None \<Rightarrow> doomed | Some k \<Rightarrow> set (take k (dir_order doomed)))
     in (if ev = None then Inr () else Inl kIoError,
         fs'\<lparr>fs_files := fs_files fs' |` (- gone), fs_dirs := fs_dirs fs' - gone\<rparr>))"

definition filename_of :: "string \<Rightarrow> string" where
  "filename_of path = rev (takeWhile (\<lambda>c. c \<noteq> CHR ''/'') (rev path))"

definition path_extension :: "string \<Rightarrow> string" where
  "path_extension path =
     (let name = filename_of path; stem = dropWhile (\<lambda>c. c \<noteq> CHR ''.'') (rev name) in
       if name \<in> {''.'', ''..''} \<or> length stem \<le> 1 then []
       else CHR ''.'' # rev (takeWhile (\<lambda>c. c \<noteq> CHR ''.'') (rev name)))"

text \<open>
  The entries a directory iterator yields that are regular files. When the iterator cannot be constructed it is
  the end iterator, so the loop over it does nothing.
\<close>

definition dir_files :: "(string set \<Rightarrow> string list) \<Rightarrow> string \<Rightarrow> (file_system, string list) stm" where
  "dir_files dir_order path fs = (case fs_tick fs of (ev, fs') \<Rightarrow>
     (Inr (if ev = None then dir_order {p \<in> dom (fs_files fs'). dir_of p = path} else []), fs'))"

subsection \<open>The operations\<close>

definition NormalizeTableDescriptor :: "string \<Rightarrow> TableDescriptor \<Rightarrow> TableDescriptor" where
  "NormalizeTableDescriptor root_dir desc =
     (let data_file = (if td_data_file desc = [] then DefaultTableDataPath root_dir (td_database_name desc) (td_table_name desc)
            else td_data_file desc);
          index_dir = (if td_index_dir desc = [] then DefaultTableIndexDir root_dir (td_database_name desc) (td_table_name desc)
            else td_index_dir desc);
          fix_index = (\<lambda>index.
            index\<lparr>idx_table_name := (if idx_table_name index = [] then td_table_name desc else idx_table_name index),
                  idx_file_path := (if idx_file_path index = [] then DefaultIndexFilePath index_dir (idx_name index)
                    else idx_file_path index)\<rparr>)
      in desc\<lparr>td_data_file := data_file, td_index_dir := index_dir, td_indexes := map fix_index (td_indexes desc)\<rparr>)"

definition WriteTableMetaFile :: "string \<Rightarrow> TableDescriptor \<Rightarrow> (file_system, unit) stm" where
  "WriteTableMetaFile path desc = WriteAllBytes path (SerializeTableDescriptor desc [])"

definition parse_meta :: "bytes \<Rightarrow> TableDescriptor result" where
  "parse_meta bs =
     bindR (DeserializeTableDescriptor bs 0) (\<lambda>(desc, offset).
     bindR (guardR (offset = length bs) kInvalidArgument) (\<lambda>_.
     bindR (ValidateTableDescriptor desc) (\<lambda>_. Inr desc)))"

definition ReadTableMetaFile :: "string \<Rightarrow> (file_system, TableDescriptor) stm" where
  "ReadTableMetaFile path = bindS (ReadAllBytes path) (\<lambda>bs. liftR (parse_meta bs))"

definition cm_CreateDatabase :: "string \<Rightarrow> string \<Rightarrow> (file_system, unit) stm" where
  "cm_CreateDatabase root_dir db_name =
     bindS (liftR (ValidateDatabaseName db_name)) (\<lambda>_.
     bindS (EnsureDir root_dir) (\<lambda>_.
     bindS (DatabaseExists root_dir db_name) (\<lambda>exists.
     bindS (guardS (\<not> exists) kAlreadyExists) (\<lambda>_.
     bindS (EnsureDir (DatabasePath root_dir db_name)) (\<lambda>_.
     bindS (EnsureDir (CatalogDirPath root_dir db_name)) (\<lambda>_.
     bindS (EnsureDir (TablesDirPath root_dir db_name)) (\<lambda>_.
     bindS (EnsureDir (IndexesDirPath root_dir db_name)) (\<lambda>_.
       EnsureDir (VersionsDirPath root_dir db_name)))))))))"

definition cm_DropDatabase :: "(string set \<Rightarrow> string list) \<Rightarrow> string \<Rightarrow> string \<Rightarrow> (file_system, unit) stm" where
  "cm_DropDatabase dir_order root_dir db_name =
     bindS (liftR (ValidateDatabaseName db_name)) (\<lambda>_.
     bindS (DatabaseExists root_dir db_name) (\<lambda>exists.
     bindS (guardS exists kNotFound) (\<lambda>_.
       remove_all dir_order (DatabasePath root_dir db_name))))"

definition cm_CreateTable :: "string \<Rightarrow> TableDescriptor \<Rightarrow> (file_system, unit) stm" where
  "cm_CreateTable root_dir table =
     bindS (DatabaseExists root_dir (td_database_name table)) (\<lambda>exists.
     bindS (guardS exists kNotFound) (\<lambda>_.
     let normalized = NormalizeTableDescriptor root_dir table in
     bindS (liftR (ValidateTableDescriptor normalized)) (\<lambda>_.
     bindS (TableMetaExists root_dir (td_database_name normalized) (td_table_name normalized)) (\<lambda>meta_exists.
     bindS (guardS (\<not> meta_exists) kAlreadyExists) (\<lambda>_.
       WriteTableMetaFile (TableMetaPath root_dir (td_database_name normalized) (td_table_name normalized)) normalized)))))"

text \<open>The checks \<open>DropTable\<close> and \<open>GetTable\<close> make before they touch the metadata file.\<close>

definition find_meta :: "string \<Rightarrow> string \<Rightarrow> string \<Rightarrow> (file_system, string) stm" where
  "find_meta root_dir db_name table_name =
     bindS (liftR (ValidateDatabaseName db_name)) (\<lambda>_.
     bindS (liftR (ValidateTableName table_name)) (\<lambda>_.
     bindS (DatabaseExists root_dir db_name) (\<lambda>exists.
     bindS (guardS exists kNotFound) (\<lambda>_.
     let meta_path = TableMetaPath root_dir db_name table_name in
     bindS (FileExists meta_path) (\<lambda>exists.
     bindS (guardS exists kNotFound) (\<lambda>_. ret meta_path))))))"

definition cm_DropTable :: "string \<Rightarrow> string \<Rightarrow> string \<Rightarrow> (file_system, unit) stm" where
  "cm_DropTable root_dir db_name table_name =
     bindS (find_meta root_dir db_name table_name) (\<lambda>meta_path. RemoveFile meta_path)"

definition cm_GetTable :: "string \<Rightarrow> string \<Rightarrow> string \<Rightarrow> (file_system, TableDescriptor) stm" where
  "cm_GetTable root_dir db_name table_name =
     bindS (find_meta root_dir db_name table_name) (\<lambda>meta_path. ReadTableMetaFile meta_path)"

definition cm_ListTables :: "(string set \<Rightarrow> string list) \<Rightarrow> string \<Rightarrow> string \<Rightarrow> (file_system, TableDescriptor list) stm" where
  "cm_ListTables dir_order root_dir db_name =
     bindS (liftR (ValidateDatabaseName db_name)) (\<lambda>_.
     bindS (DatabaseExists root_dir db_name) (\<lambda>exists.
     bindS (guardS exists kNotFound) (\<lambda>_.
     let catalog_dir = CatalogDirPath root_dir db_name in
     bindS (dir_exists catalog_dir) (\<lambda>exists.
     bindS (guardS exists kNotFound) (\<lambda>_.
     bindS (dir_files dir_order catalog_dir) (\<lambda>entries.
     bindS (mapS ReadTableMetaFile (filter (\<lambda>p. path_extension p = ''.meta'') entries)) (\<lambda>descs.
       ret (sort_key td_table_name descs))))))))"

subsection \<open>What validation accepts\<close>

lemma valid_name_loop_chars: "valid_name_loop name b d \<Longrightarrow> CHR ''/'' \<notin> set name \<and> CHR 0x5C \<notin> set name"
  by (induction name b d rule: valid_name_loop.induct) (auto split: if_splits)

lemma valid_name_loop_space: "valid_name_loop name b d \<Longrightarrow> b \<or> (\<exists>c \<in> set name. \<not> isspace c)"
  by (induction name b d rule: valid_name_loop.induct) (auto split: if_splits)

lemma IsValidName_no_slash: "IsValidName name \<Longrightarrow> CHR ''/'' \<notin> set name"
  using valid_name_loop_chars by (auto simp: IsValidName_def)

lemma IsValidName_nonempty: "IsValidName name \<Longrightarrow> name \<noteq> []"
  by (simp add: IsValidName_def)

text \<open>The meaning of a valid descriptor.\<close>

definition column_valid :: "ColumnSchema \<Rightarrow> bool" where
  "column_valid c \<longleftrightarrow> IsValidName (col_name c) \<and> (case col_default c of
       None \<Rightarrow> True
     | Some v \<Rightarrow> (col_type c = cInt \<longrightarrow> value_type v = kInt) \<and> (col_type c = cString \<longrightarrow> value_type v = kString) \<and>
         (col_type c = cBool \<longrightarrow> value_type v = kBool))"

definition index_valid :: "TableSchema \<Rightarrow> string \<Rightarrow> IndexDescriptor \<Rightarrow> bool" where
  "index_valid schema table_name i \<longleftrightarrow> IsValidName (idx_name i) \<and> idx_table_name i = table_name \<and>
     idx_column_name i \<in> col_name ` set schema \<and> idx_file_path i \<noteq> []"

definition descriptor_valid :: "TableDescriptor \<Rightarrow> bool" where
  "descriptor_valid d \<longleftrightarrow> IsValidName (td_database_name d) \<and> IsValidName (td_table_name d) \<and>
     td_schema d \<noteq> [] \<and> list_all column_valid (td_schema d) \<and> distinct (map col_name (td_schema d)) \<and>
     list_all (index_valid (td_schema d) (td_table_name d)) (td_indexes d) \<and> distinct (map idx_name (td_indexes d)) \<and>
     td_data_file d \<noteq> [] \<and> td_index_dir d \<noteq> []"

lemma ValidateColumnSchema_eq: "ValidateColumnSchema c = guardR (column_valid c) kInvalidArgument"
  by (auto simp: ValidateColumnSchema_def column_valid_def bindR_guardR guardR_def split: option.splits)

lemma validate_columns_eq:
  "validate_columns cs seen =
     guardR (list_all column_valid cs \<and> distinct (map col_name cs) \<and> col_name ` set cs \<inter> seen = {}) kInvalidArgument"
  by (induction cs seen rule: validate_columns.induct)
    (auto simp: ValidateColumnSchema_eq bindR_guardR guardR_def)

lemma ValidateIndexDescriptor_eq: "ValidateIndexDescriptor i schema t = guardR (index_valid schema t i) kInvalidArgument"
  by (auto simp: ValidateIndexDescriptor_def index_valid_def bindR_guardR guardR_def FindColumn_neg)

lemma validate_indexes_eq:
  "validate_indexes is schema t seen =
     guardR (list_all (index_valid schema t) is \<and> distinct (map idx_name is) \<and> idx_name ` set is \<inter> seen = {}) kInvalidArgument"
  by (induction "is" schema t seen rule: validate_indexes.induct)
    (auto simp: ValidateIndexDescriptor_eq bindR_guardR guardR_def)

lemma ValidateTableDescriptor_eq: "ValidateTableDescriptor d = guardR (descriptor_valid d) kInvalidArgument"
  by (auto simp: ValidateTableDescriptor_def ValidateDatabaseName_def ValidateTableName_def ValidateTableSchema_def
      bindR_guardR validate_columns_eq validate_indexes_eq descriptor_valid_def guardR_def)

lemma Normalize_names [simp]:
  "td_database_name (NormalizeTableDescriptor root d) = td_database_name d"
  "td_table_name (NormalizeTableDescriptor root d) = td_table_name d"
  "td_schema (NormalizeTableDescriptor root d) = td_schema d"
  by (simp_all add: NormalizeTableDescriptor_def Let_def)

lemma parse_meta_enc: "td_wf d \<Longrightarrow> descriptor_valid d \<Longrightarrow> parse_meta (enc_table d) = Inr d"
  using decodes_self [OF decodes_table] by (simp add: parse_meta_def ValidateTableDescriptor_eq)

lemma parse_meta_valid: "parse_meta bs = Inr d \<Longrightarrow> descriptor_valid d"
  by (auto simp: parse_meta_def bindR_eq_Inr ValidateTableDescriptor_eq split: prod.splits)

subsection \<open>Path arithmetic\<close>

lemma split_at_slash:
  assumes "a @ CHR ''/'' # x = b @ CHR ''/'' # y" "CHR ''/'' \<notin> set a" "CHR ''/'' \<notin> set b"
  shows "a = b \<and> x = y"
  using assms
proof (induction a arbitrary: b)
  case Nil
  then show ?case by (cases b) auto
next
  case (Cons c a)
  then show ?case by (cases b) auto
qed

lemma TableMetaPath_inj:
  assumes "IsValidName db" "IsValidName db'"
  shows "TableMetaPath root db t = TableMetaPath root db' t' \<longleftrightarrow> db = db' \<and> t = t'"
proof -
  note ns = IsValidName_no_slash [OF assms(1)] IsValidName_no_slash [OF assms(2)]
  have "TableMetaPath root db t = TableMetaPath root db' t' \<Longrightarrow> db = db' \<and> t = t'"
    using split_at_slash [OF _ ns, of "''catalog/'' @ t @ ''.meta''" "''catalog/'' @ t' @ ''.meta''"]
    by (simp add: TableMetaPath_def CatalogDirPath_def DatabasePath_def)
  then show ?thesis by auto
qed

lemma below_database:
  assumes "IsValidName db" "IsValidName db'"
  shows "below (DatabasePath root db) (DatabasePath root db' @ CHR ''/'' # x) \<longleftrightarrow> db = db'"
proof -
  note ns = IsValidName_no_slash [OF assms(1)] IsValidName_no_slash [OF assms(2)]
  let ?y = "drop (length (DatabasePath root db) + 1) (DatabasePath root db' @ CHR ''/'' # x)"
  have "db = db'" if "take (length (DatabasePath root db) + 1) (DatabasePath root db' @ CHR ''/'' # x) = DatabasePath root db @ ''/''"
  proof -
    have "DatabasePath root db' @ CHR ''/'' # x = DatabasePath root db @ CHR ''/'' # ?y"
      using append_take_drop_id [of "length (DatabasePath root db) + 1" "DatabasePath root db' @ CHR ''/'' # x"] that
      by (metis append.assoc append_Cons append_Nil)
    then show ?thesis using split_at_slash [OF _ ns(2,1), of x ?y] by (simp add: DatabasePath_def)
  qed
  moreover have "DatabasePath root db' @ CHR ''/'' # x \<noteq> DatabasePath root db"
    using ns by (auto simp: DatabasePath_def dest!: arg_cong [where f = set])
  ultimately show ?thesis by (auto simp: below_def)
qed

lemma below_database_self:
  assumes "IsValidName db" "IsValidName db'"
  shows "below (DatabasePath root db) (DatabasePath root db') \<longleftrightarrow> db = db'"
proof -
  have "take (length (DatabasePath root db) + 1) (DatabasePath root db') \<noteq> DatabasePath root db @ ''/''"
    using IsValidName_no_slash [OF assms(2)] set_take_subset [of "length db + 1" db']
    by (auto simp: DatabasePath_def Suc_diff_le dest!: arg_cong [where f = set])
  then show ?thesis by (auto simp: below_def DatabasePath_def)
qed

lemma dir_of_append: "CHR ''/'' \<notin> set b \<Longrightarrow> dir_of (a @ CHR ''/'' # b) = a"
  by (simp add: dir_of_def dropWhile_append)

lemma slash_prefixes_append:
  "slash_prefixes acc (a @ CHR ''/'' # b) = slash_prefixes acc a @ slash_prefixes (acc @ a @ ''/'') b"
  by (induction a arbitrary: acc) auto

lemma slash_prefixes_name: "CHR ''/'' \<notin> set b \<Longrightarrow> slash_prefixes acc b = [acc @ b]"
  by (induction b arbitrary: acc) auto

lemma path_prefixes_append:
  "CHR ''/'' \<notin> set b \<Longrightarrow> path_prefixes (a @ CHR ''/'' # b) = path_prefixes a @ [a @ CHR ''/'' # b]"
  by (simp add: path_prefixes_def slash_prefixes_append slash_prefixes_name)

subsection \<open>The interface of a catalog\<close>

text \<open>
  A set of databases and a map from database and table names to descriptors; \<open>norm\<close> is what the provider
  stores of a descriptor, \<open>storable\<close> what it can store.
\<close>

locale table_catalog =
  fixes ok :: "'s \<Rightarrow> bool"
    and has_db :: "'s \<Rightarrow> string \<Rightarrow> bool"
    and tab :: "'s \<Rightarrow> string \<times> string \<Rightarrow> TableDescriptor option"
    and norm :: "TableDescriptor \<Rightarrow> TableDescriptor"
    and storable :: "TableDescriptor \<Rightarrow> bool"
    and create :: "TableDescriptor \<Rightarrow> ('s, unit) stm"
    and drop_tab :: "string \<Rightarrow> string \<Rightarrow> ('s, unit) stm"
    and get :: "string \<Rightarrow> string \<Rightarrow> ('s, TableDescriptor) stm"
    and list_tabs :: "string \<Rightarrow> ('s, TableDescriptor list) stm"
    and drop_db :: "string \<Rightarrow> ('s, unit) stm"
  assumes create_in: "ok s \<Longrightarrow> has_db s (td_database_name d) \<Longrightarrow> storable (norm d) \<Longrightarrow>
      tab s (td_database_name d, td_table_name d) = None \<Longrightarrow>
      \<exists>s'. create d s = (Inr (), s') \<and> ok s' \<and> has_db s' = has_db s \<and>
        tab s' = (tab s)((td_database_name d, td_table_name d) \<mapsto> norm d)"
    and create_dup: "ok s \<Longrightarrow> has_db s (td_database_name d) \<Longrightarrow> storable (norm d) \<Longrightarrow>
      tab s (td_database_name d, td_table_name d) \<noteq> None \<Longrightarrow> create d s = (Inl kAlreadyExists, s)"
    and get_in: "ok s \<Longrightarrow> tab s (db, t) = Some d \<Longrightarrow> get db t s = (Inr d, s)"
    and get_out: "ok s \<Longrightarrow> IsValidName db \<Longrightarrow> IsValidName t \<Longrightarrow> tab s (db, t) = None \<Longrightarrow> get db t s = (Inl kNotFound, s)"
    and drop_in: "ok s \<Longrightarrow> tab s (db, t) = Some d \<Longrightarrow>
      \<exists>s'. drop_tab db t s = (Inr (), s') \<and> ok s' \<and> has_db s' = has_db s \<and> tab s' = (tab s)((db, t) := None)"
    and list_in: "ok s \<Longrightarrow> has_db s db \<Longrightarrow> \<exists>ds. list_tabs db s = (Inr ds, s) \<and> sorted (map td_table_name ds) \<and>
      distinct (map td_table_name ds) \<and> set ds = {d. \<exists>t. tab s (db, t) = Some d}"
    and drop_db_in: "ok s \<Longrightarrow> has_db s db \<Longrightarrow> \<exists>s'. drop_db db s = (Inr (), s') \<and> ok s' \<and>
      has_db s' = (has_db s)(db := False) \<and> tab s' = (\<lambda>(d, t). if d = db then None else tab s (d, t))"
    and tab_valid: "ok s \<Longrightarrow> tab s (db, t) = Some d \<Longrightarrow>
      has_db s db \<and> IsValidName db \<and> IsValidName t \<and> td_database_name d = db \<and> td_table_name d = t"
begin

lemma create_get:
  assumes "ok s" "has_db s (td_database_name d)" "storable (norm d)" "create d s = (Inr (), s')"
  shows "get (td_database_name d) (td_table_name d) s' = (Inr (norm d), s')"
proof -
  have "tab s (td_database_name d, td_table_name d) = None" using create_dup [OF assms(1-3)] assms(4) by force
  then show ?thesis
    using create_in [OF assms(1-3)] assms(4) get_in [of s' "td_database_name d" "td_table_name d" "norm d"] by auto
qed

lemma create_get_other:
  assumes "ok s" "has_db s (td_database_name d)" "storable (norm d)" "create d s = (Inr (), s')"
    and "(db, t) \<noteq> (td_database_name d, td_table_name d)" "IsValidName db" "IsValidName t"
  shows "fst (get db t s') = fst (get db t s)"
proof -
  have "tab s (td_database_name d, td_table_name d) = None" using create_dup [OF assms(1-3)] assms(4) by force
  then have s': "ok s'" "tab s' (db, t) = tab s (db, t)" using create_in [OF assms(1-3)] assms(4,5) by auto
  show ?thesis
    using get_in [OF s'(1)] get_in [OF assms(1)] get_out [OF s'(1) assms(6,7)] get_out [OF assms(1,6,7)] s'(2)
    by (cases "tab s (db, t)") auto
qed

lemma drop_get:
  assumes "ok s" "tab s (db, t) = Some d" "drop_tab db t s = (Inr (), s')"
  shows "get db t s' = (Inl kNotFound, s')" "tab s' = (tab s)((db, t) := None)"
  using drop_in [OF assms(1,2)] assms(3) tab_valid [OF assms(1,2)] get_out [of s' db t] by auto

lemma create_drop:
  assumes "ok s" "has_db s (td_database_name d)" "storable (norm d)" "create d s = (Inr (), s')"
  shows "\<exists>s''. drop_tab (td_database_name d) (td_table_name d) s' = (Inr (), s'') \<and> ok s'' \<and> tab s'' = tab s"
proof -
  have "tab s (td_database_name d, td_table_name d) = None" using create_dup [OF assms(1-3)] assms(4) by force
  then show ?thesis
    using create_in [OF assms(1-3)] assms(4) drop_in [of s' "td_database_name d" "td_table_name d" "norm d"]
    by (auto simp: fun_upd_idem_iff)
qed

end

subsection \<open>The catalog manager provides it\<close>

definition cat_has_db :: "string \<Rightarrow> file_system \<Rightarrow> string \<Rightarrow> bool" where
  "cat_has_db root fs db \<longleftrightarrow> IsValidName db \<and> DatabasePath root db \<in> fs_dirs fs"

definition cat_tab :: "string \<Rightarrow> file_system \<Rightarrow> string \<times> string \<Rightarrow> TableDescriptor option" where
  "cat_tab root fs = (\<lambda>(db, t).
     if IsValidName db \<and> IsValidName t then
       (case fs_files fs (TableMetaPath root db t) of
          None \<Rightarrow> None
        | Some bs \<Rightarrow> (case parse_meta bs of Inl _ \<Rightarrow> None | Inr d \<Rightarrow> Some d))
     else None)"

definition meta_ok :: "string \<Rightarrow> file_system \<Rightarrow> string \<Rightarrow> string \<Rightarrow> bytes \<Rightarrow> bool" where
  "meta_ok root fs db t bs \<longleftrightarrow> DatabasePath root db \<in> fs_dirs fs \<and>
     (\<exists>d. parse_meta bs = Inr d \<and> td_database_name d = db \<and> td_table_name d = t)"

text \<open>
  A well-formed catalog: every database has its catalog directory, a metadata file holds a valid descriptor for
  its own path, and no metadata path is a directory.
\<close>

definition cat_ok :: "string \<Rightarrow> file_system \<Rightarrow> bool" where
  "cat_ok root fs \<longleftrightarrow> no_faults fs \<and> finite (dom (fs_files fs)) \<and>
     (\<forall>db. cat_has_db root fs db \<longrightarrow> CatalogDirPath root db \<in> fs_dirs fs) \<and>
     (\<forall>db t. IsValidName db \<longrightarrow> IsValidName t \<longrightarrow> TableMetaPath root db t \<notin> fs_dirs fs) \<and>
     (\<forall>db t bs. IsValidName db \<longrightarrow> IsValidName t \<longrightarrow> fs_files fs (TableMetaPath root db t) = Some bs \<longrightarrow>
        meta_ok root fs db t bs) \<and>
     (\<forall>db p. cat_has_db root fs db \<longrightarrow> p \<in> dom (fs_files fs) \<longrightarrow> dir_of p = CatalogDirPath root db \<longrightarrow>
        path_extension p = ''.meta'' \<longrightarrow> (\<exists>t. IsValidName t \<and> p = TableMetaPath root db t))"

definition storable :: "TableDescriptor \<Rightarrow> bool" where
  "storable d \<longleftrightarrow> td_wf d \<and> descriptor_valid d"

lemma cat_okD:
  assumes "cat_ok root fs"
  shows "no_faults fs" "finite (dom (fs_files fs))"
    "cat_has_db root fs db \<Longrightarrow> CatalogDirPath root db \<in> fs_dirs fs"
    "IsValidName db \<Longrightarrow> IsValidName t \<Longrightarrow> TableMetaPath root db t \<notin> fs_dirs fs"
    "IsValidName db \<Longrightarrow> IsValidName t \<Longrightarrow> fs_files fs (TableMetaPath root db t) = Some bs \<Longrightarrow> meta_ok root fs db t bs"
    "cat_has_db root fs db \<Longrightarrow> p \<in> dom (fs_files fs) \<Longrightarrow> dir_of p = CatalogDirPath root db \<Longrightarrow>
      path_extension p = ''.meta'' \<Longrightarrow> \<exists>t. IsValidName t \<and> p = TableMetaPath root db t"
  using assms unfolding cat_ok_def by blast+

lemma dir_of_meta: "IsValidName t \<Longrightarrow> dir_of (TableMetaPath root db t) = CatalogDirPath root db"
  using IsValidName_no_slash [of t] dir_of_append [of "t @ ''.meta''" "CatalogDirPath root db"]
  by (simp add: TableMetaPath_def)

lemma cat_tab_meta:
  assumes "cat_ok root fs" "IsValidName db" "IsValidName t"
  shows "cat_tab root fs (db, t) = None \<longleftrightarrow> fs_files fs (TableMetaPath root db t) = None"
    "cat_tab root fs (db, t) = Some d \<longleftrightarrow> (\<exists>bs. fs_files fs (TableMetaPath root db t) = Some bs \<and> parse_meta bs = Inr d)"
  using assms cat_okD(5) [OF assms]
  by (auto simp: cat_tab_def meta_ok_def split: option.splits sum.splits)

lemma dir_exists_ok: "no_faults fs \<Longrightarrow> dir_exists p fs = (Inr (p \<in> fs_dirs fs), fs)"
  by (auto simp: dir_exists_def bindS_def fs_exists_def fs_is_directory_def)

lemma DatabaseExists_ok: "no_faults fs \<Longrightarrow> DatabaseExists root db fs = (Inr (DatabasePath root db \<in> fs_dirs fs), fs)"
  by (simp add: DatabaseExists_def dir_exists_ok)

lemma FileExists_ok: "no_faults fs \<Longrightarrow> FileExists p fs = (Inr (p \<in> dom (fs_files fs) \<or> p \<in> fs_dirs fs), fs)"
  by (simp add: FileExists_def)

lemma find_meta_ok:
  assumes "cat_ok root fs" "IsValidName db" "IsValidName t"
  shows "find_meta root db t fs =
    (if cat_tab root fs (db, t) = None then Inl kNotFound else Inr (TableMetaPath root db t), fs)"
proof (cases "fs_files fs (TableMetaPath root db t)")
  case None
  then show ?thesis
    using cat_tab_meta(1) [OF assms] cat_okD(1,4) [OF assms(1)] assms
    by (auto simp: find_meta_def bindS_liftR bindS_def [of "DatabaseExists root db"] bindS_def [of "FileExists p" for p]
        DatabaseExists_ok FileExists_ok bindS_guardS ValidateDatabaseName_def ValidateTableName_def Let_def)
next
  case (Some bs)
  then have "DatabasePath root db \<in> fs_dirs fs" using cat_okD(5) [OF assms] by (simp add: meta_ok_def)
  then show ?thesis
    using cat_tab_meta(1) [OF assms] cat_okD(1,4) [OF assms(1)] assms Some
    by (auto simp: find_meta_def bindS_liftR bindS_def [of "DatabaseExists root db"] bindS_def [of "FileExists p" for p]
        DatabaseExists_ok FileExists_ok bindS_guardS ValidateDatabaseName_def ValidateTableName_def Let_def)
qed

lemma cm_GetTable_in:
  assumes "cat_ok root fs" "cat_tab root fs (db, t) = Some d"
  shows "cm_GetTable root db t fs = (Inr d, fs)"
proof -
  have v: "IsValidName db" "IsValidName t" using assms(2) by (auto simp: cat_tab_def split: if_splits)
  then obtain bs where "fs_files fs (TableMetaPath root db t) = Some bs" "parse_meta bs = Inr d"
    using cat_tab_meta(2) [OF assms(1)] assms(2) by blast
  then show ?thesis
    using find_meta_ok [OF assms(1) v] assms(2) ReadAllBytes_ok [OF cat_okD(1) [OF assms(1)]]
    by (simp add: cm_GetTable_def bindS_def ReadTableMetaFile_def)
qed

lemma cm_GetTable_out:
  assumes "cat_ok root fs" "IsValidName db" "IsValidName t" "cat_tab root fs (db, t) = None"
  shows "cm_GetTable root db t fs = (Inl kNotFound, fs)"
  using find_meta_ok [OF assms(1-3)] assms(4) by (simp add: cm_GetTable_def bindS_def)

lemma CreateTable_run:
  assumes "cat_ok root fs" "cat_has_db root fs (td_database_name d)" "storable (NormalizeTableDescriptor root d)"
  shows "cm_CreateTable root d fs =
    (if cat_tab root fs (td_database_name d, td_table_name d) = None
     then (Inr (), fs\<lparr>fs_files := (fs_files fs)(TableMetaPath root (td_database_name d) (td_table_name d) \<mapsto>
       enc_table (NormalizeTableDescriptor root d))\<rparr>)
     else (Inl kAlreadyExists, fs))"
proof -
  let ?db = "td_database_name d" let ?t = "td_table_name d" let ?p = "TableMetaPath root ?db ?t"
  have v: "IsValidName ?db" "IsValidName ?t" using assms(3) by (auto simp: storable_def descriptor_valid_def)
  have w: "WriteAllBytes ?p b fs = (Inr (), fs\<lparr>fs_files := (fs_files fs)(?p \<mapsto> b)\<rparr>)" for b
    using cat_okD [OF assms(1)] v assms(2) dir_of_meta [OF v(2)] by (intro WriteAllBytes_ok) (auto simp: has_dir_def)
  have e: "DatabaseExists root ?db fs = (Inr True, fs)"
    using assms(2) cat_okD(1) [OF assms(1)] by (simp add: DatabaseExists_ok cat_has_db_def)
  have m: "TableMetaExists root ?db ?t fs = (Inr (cat_tab root fs (?db, ?t) \<noteq> None), fs)"
    using cat_tab_meta(1) [OF assms(1) v] cat_okD(1,4) [OF assms(1)] v by (auto simp: TableMetaExists_def FileExists_ok)
  show ?thesis
    using assms(3) w e m
    by (simp add: cm_CreateTable_def bindS_def [of "DatabaseExists root db" for db] bindS_liftR storable_def
        bindS_def [of "TableMetaExists root db t" for db t] bindS_guardS ValidateTableDescriptor_eq
        WriteTableMetaFile_def SerializeTableDescriptor_appends Let_def)
qed

lemma extension_meta: "IsValidName t \<Longrightarrow> path_extension (TableMetaPath root db t) = ''.meta''"
proof -
  assume t: "IsValidName t"
  have "filename_of (TableMetaPath root db t) = t @ ''.meta''"
    using IsValidName_no_slash [OF t] by (simp add: filename_of_def TableMetaPath_def takeWhile_append)
  then show ?thesis using IsValidName_nonempty [OF t] by (auto simp: path_extension_def Let_def)
qed

lemma cat_ok_write:
  assumes "cat_ok root fs" "cat_has_db root fs (td_database_name d)" "storable d"
  shows "cat_ok root (fs\<lparr>fs_files := (fs_files fs)(TableMetaPath root (td_database_name d) (td_table_name d) \<mapsto> enc_table d)\<rparr>)"
    (is "cat_ok root ?fs'")
proof -
  let ?db = "td_database_name d" let ?t = "td_table_name d" let ?p = "TableMetaPath root ?db ?t"
  have v: "IsValidName ?db" "IsValidName ?t" and p: "parse_meta (enc_table d) = Inr d"
    using assms(3) parse_meta_enc by (auto simp: storable_def descriptor_valid_def)
  have same: "cat_has_db root ?fs' = cat_has_db root fs" by (simp add: cat_has_db_def fun_eq_iff)
  have "meta_ok root ?fs' db t bs" if "IsValidName db" "IsValidName t" "fs_files ?fs' (TableMetaPath root db t) = Some bs"
    for db t bs
  proof (cases "db = ?db \<and> t = ?t")
    case True
    then show ?thesis using that p assms(2) by (auto simp: meta_ok_def cat_has_db_def)
  next
    case False
    then have "fs_files fs (TableMetaPath root db t) = Some bs"
      using that TableMetaPath_inj [OF that(1) v(1)] by (auto split: if_splits)
    then show ?thesis using cat_okD(5) [OF assms(1) that(1,2)] by (simp add: meta_ok_def)
  qed
  moreover have "\<exists>t. IsValidName t \<and> q = TableMetaPath root db t"
    if "cat_has_db root fs db" "q \<in> dom (fs_files ?fs')" "dir_of q = CatalogDirPath root db" "path_extension q = ''.meta''" for db q
  proof (cases "q = ?p")
    case True
    then have "CatalogDirPath root db = CatalogDirPath root ?db" using that(3) dir_of_meta [OF v(2)] by simp
    then have "db = ?db" by (simp add: CatalogDirPath_def DatabasePath_def)
    then show ?thesis using True v by blast
  next
    case False
    then show ?thesis using that cat_okD(6) [OF assms(1) that(1)] by auto
  qed
  ultimately show ?thesis
    using cat_okD(1-4) [OF assms(1)] unfolding cat_ok_def same by (auto simp: cat_has_db_def)
qed

lemma cat_tab_write:
  assumes "storable d"
  shows "cat_tab root (fs\<lparr>fs_files := (fs_files fs)(TableMetaPath root (td_database_name d) (td_table_name d) \<mapsto> enc_table d)\<rparr>) =
    (cat_tab root fs)((td_database_name d, td_table_name d) \<mapsto> d)"
proof -
  have v: "IsValidName (td_database_name d)" "IsValidName (td_table_name d)" and p: "parse_meta (enc_table d) = Inr d"
    using assms parse_meta_enc by (auto simp: storable_def descriptor_valid_def)
  show ?thesis
    using v p TableMetaPath_inj [OF _ v(1), of _ root] by (auto simp: fun_eq_iff cat_tab_def)
qed

lemma cm_DropTable_in:
  assumes "cat_ok root fs" "cat_tab root fs (db, t) = Some d"
  shows "\<exists>fs'. cm_DropTable root db t fs = (Inr (), fs') \<and> cat_ok root fs' \<and> cat_has_db root fs' = cat_has_db root fs \<and>
    cat_tab root fs' = (cat_tab root fs)((db, t) := None)"
proof -
  let ?p = "TableMetaPath root db t" let ?fs' = "fs\<lparr>fs_files := (fs_files fs)(?p := None), fs_dirs := fs_dirs fs - {?p}\<rparr>"
  have v: "IsValidName db" "IsValidName t" using assms(2) by (auto simp: cat_tab_def split: if_splits)
  have p: "?p \<notin> fs_dirs fs" using cat_okD(4) [OF assms(1) v] .
  then have d: "fs_dirs ?fs' = fs_dirs fs" by simp
  have "RemoveFile ?p fs = (Inr (), ?fs')" using cat_okD(1) [OF assms(1)] p by (simp add: RemoveFile_def)
  then have run: "cm_DropTable root db t fs = (Inr (), ?fs')"
    using find_meta_ok [OF assms(1) v] assms(2) by (simp add: cm_DropTable_def bindS_def)
  have same: "cat_has_db root ?fs' = cat_has_db root fs" using p by (simp add: cat_has_db_def fun_eq_iff)
  have "cat_tab root ?fs' = (cat_tab root fs)((db, t) := None)"
    using v TableMetaPath_inj [OF _ v(1), of _ root] by (auto simp: fun_eq_iff cat_tab_def)
  moreover have "cat_ok root ?fs'"
    using cat_okD [OF assms(1)] p unfolding cat_ok_def same d meta_ok_def by (auto split: if_splits)
  ultimately show ?thesis using run same by blast
qed

text \<open>An order of enumeration lists every element of a finite directory once.\<close>

definition enumerates :: "(string set \<Rightarrow> string list) \<Rightarrow> bool" where
  "enumerates dir_order \<longleftrightarrow> (\<forall>S. finite S \<longrightarrow> set (dir_order S) = S \<and> distinct (dir_order S))"

lemma enumerates_sorted: "enumerates sorted_list_of_set"
  by (simp add: enumerates_def)

definition meta_desc :: "file_system \<Rightarrow> string \<Rightarrow> TableDescriptor" where
  "meta_desc fs p = projr (parse_meta (file_bytes fs p))"

lemma ReadTableMetaFile_in:
  assumes "cat_ok root fs" "IsValidName db" "IsValidName t" "TableMetaPath root db t \<in> dom (fs_files fs)"
  shows "ReadTableMetaFile (TableMetaPath root db t) fs = (Inr (meta_desc fs (TableMetaPath root db t)), fs)"
    "cat_tab root fs (db, t) = Some (meta_desc fs (TableMetaPath root db t))"
    "td_table_name (meta_desc fs (TableMetaPath root db t)) = t"
proof -
  obtain bs where bs: "fs_files fs (TableMetaPath root db t) = Some bs" using assms(4) by blast
  then obtain d where d: "parse_meta bs = Inr d" "td_table_name d = t"
    using cat_okD(5) [OF assms(1-3)] by (auto simp: meta_ok_def)
  have m: "meta_desc fs (TableMetaPath root db t) = d" using bs d by (simp add: meta_desc_def)
  show "ReadTableMetaFile (TableMetaPath root db t) fs = (Inr (meta_desc fs (TableMetaPath root db t)), fs)"
    using ReadAllBytes_ok [OF cat_okD(1) [OF assms(1)] bs] d m by (simp add: ReadTableMetaFile_def bindS_def)
  show "cat_tab root fs (db, t) = Some (meta_desc fs (TableMetaPath root db t))"
    "td_table_name (meta_desc fs (TableMetaPath root db t)) = t"
    using cat_tab_meta(2) [OF assms(1-3)] bs d m by auto
qed

lemma distinct_map_sort_key: "distinct (map f (sort_key g xs)) \<longleftrightarrow> distinct (map f xs)"
  by (simp add: distinct_map)

lemma cm_ListTables_in:
  assumes "cat_ok root fs" "cat_has_db root fs db" "enumerates dir_order"
  shows "\<exists>ds. cm_ListTables dir_order root db fs = (Inr ds, fs) \<and> sorted (map td_table_name ds) \<and>
    distinct (map td_table_name ds) \<and> set ds = {d. \<exists>t. cat_tab root fs (db, t) = Some d}"
proof -
  let ?S = "{p \<in> dom (fs_files fs). dir_of p = CatalogDirPath root db}"
  define ps where "ps = filter (\<lambda>p. path_extension p = ''.meta'') (dir_order ?S)"
  have v: "IsValidName db" using assms(2) by (simp add: cat_has_db_def)
  have "finite ?S" using cat_okD(2) [OF assms(1)] by simp
  then have S: "set (dir_order ?S) = ?S" "distinct (dir_order ?S)" using assms(3) unfolding enumerates_def by blast+
  have ps: "set ps = {TableMetaPath root db t | t. IsValidName t \<and> TableMetaPath root db t \<in> dom (fs_files fs)}"
    using S(1) cat_okD(6) [OF assms(1,2)] dir_of_meta extension_meta unfolding ps_def set_filter by blast
  have dps: "distinct ps" using S(2) by (simp add: ps_def)
  have "mapS ReadTableMetaFile ps fs = (Inr (map (meta_desc fs) ps), fs)"
    using ps ReadTableMetaFile_in(1) [OF assms(1) v] by (intro mapS_pure) auto
  then have run: "cm_ListTables dir_order root db fs = (Inr (sort_key td_table_name (map (meta_desc fs) ps)), fs)"
    using cat_okD(1) [OF assms(1)] cat_okD(3) [OF assms(1,2)] assms(2)
    by (simp add: cm_ListTables_def bindS_def dir_exists_ok DatabaseExists_ok cat_has_db_def ValidateDatabaseName_def
        guardS_run dir_files_def ps_def Let_def)
  have inj: "inj_on (\<lambda>p. td_table_name (meta_desc fs p)) (set ps)"
    using ps ReadTableMetaFile_in(3) [OF assms(1) v] by (auto simp: inj_on_def) (metis domI)
  have "set (map (meta_desc fs) ps) = {d. \<exists>t. cat_tab root fs (db, t) = Some d}"
  proof (intro set_eqI iffI)
    fix d assume "d \<in> {d. \<exists>t. cat_tab root fs (db, t) = Some d}"
    then obtain t where t: "cat_tab root fs (db, t) = Some d" by blast
    then have "IsValidName t" by (auto simp: cat_tab_def split: if_splits)
    moreover from this have "TableMetaPath root db t \<in> dom (fs_files fs)"
      using cat_tab_meta(2) [OF assms(1) v] t by blast
    ultimately show "d \<in> set (map (meta_desc fs) ps)" using ReadTableMetaFile_in(2) [OF assms(1) v] t ps by auto
  qed (use ps ReadTableMetaFile_in(2) [OF assms(1) v] in auto)
  moreover have "distinct (map td_table_name (map (meta_desc fs) ps))"
    using inj dps by (simp add: distinct_map comp_def)
  ultimately show ?thesis using run by (simp add: distinct_map_sort_key)
qed

lemma cm_DropDatabase_in:
  assumes "cat_ok root fs" "cat_has_db root fs db"
  shows "\<exists>fs'. cm_DropDatabase dir_order root db fs = (Inr (), fs') \<and> cat_ok root fs' \<and>
    cat_has_db root fs' = (cat_has_db root fs)(db := False) \<and>
    cat_tab root fs' = (\<lambda>(d, t). if d = db then None else cat_tab root fs (d, t))"
proof -
  let ?B = "below (DatabasePath root db)"
  define fs' where "fs' = fs\<lparr>fs_files := fs_files fs |` (- {p \<in> dom (fs_files fs) \<union> fs_dirs fs. ?B p}),
    fs_dirs := fs_dirs fs - {p \<in> dom (fs_files fs) \<union> fs_dirs fs. ?B p}\<rparr>"
  have v: "IsValidName db" and ex: "DatabasePath root db \<in> fs_dirs fs" using assms(2) by (auto simp: cat_has_db_def)
  have run: "cm_DropDatabase dir_order root db fs = (Inr (), fs')"
    using cat_okD(1) [OF assms(1)] v ex
    by (simp add: cm_DropDatabase_def bindS_def ValidateDatabaseName_def DatabaseExists_ok guardS_run remove_all_def
        Let_def fs'_def)
  have files: "fs_files fs' p = (if ?B p then None else fs_files fs p)" for p
    by (auto simp: fs'_def restrict_map_def split: if_splits)
  have dirs: "p \<in> fs_dirs fs' \<longleftrightarrow> p \<in> fs_dirs fs \<and> \<not> ?B p" for p by (auto simp: fs'_def)
  have meta: "?B (TableMetaPath root d t) \<longleftrightarrow> d = db" "?B (CatalogDirPath root d) \<longleftrightarrow> d = db" "?B (DatabasePath root d) \<longleftrightarrow> d = db"
    if "IsValidName d" for d t
    using below_database [OF v that, of root] below_database_self [OF v that, of root]
    by (auto simp: TableMetaPath_def CatalogDirPath_def)
  have hd: "cat_has_db root fs' = (cat_has_db root fs)(db := False)"
    using meta(3) by (auto simp: cat_has_db_def fun_eq_iff dirs)
  have "cat_tab root fs' = (\<lambda>(d, t). if d = db then None else cat_tab root fs (d, t))"
    using meta(1) v by (auto simp: cat_tab_def fun_eq_iff files)
  moreover have "cat_ok root fs'"
    unfolding cat_ok_def hd
  proof (intro conjI allI impI)
    show "no_faults fs'" using cat_okD(1) [OF assms(1)] by (simp add: fs'_def)
    show "finite (dom (fs_files fs'))"
      using cat_okD(2) [OF assms(1)] by (rule finite_subset [rotated]) (auto simp: files split: if_splits)
    show "CatalogDirPath root d \<in> fs_dirs fs'" if "((cat_has_db root fs)(db := False)) d" for d
      using that cat_okD(3) [OF assms(1)] meta(2) by (auto simp: dirs cat_has_db_def split: if_splits)
    show "TableMetaPath root d t \<notin> fs_dirs fs'" if "IsValidName d" "IsValidName t" for d t
      using cat_okD(4) [OF assms(1) that] by (simp add: dirs)
    show "meta_ok root fs' d t bs"
      if "IsValidName d" "IsValidName t" "fs_files fs' (TableMetaPath root d t) = Some bs" for d t bs
      using that cat_okD(5) [OF assms(1) that(1,2)] meta [OF that(1)] by (auto simp: files dirs meta_ok_def split: if_splits)
    show "\<exists>t. IsValidName t \<and> p = TableMetaPath root d t"
      if "((cat_has_db root fs)(db := False)) d" "p \<in> dom (fs_files fs')" "dir_of p = CatalogDirPath root d"
        "path_extension p = ''.meta''" for d p
    proof -
      have "p \<in> dom (fs_files fs)" "cat_has_db root fs d" using that(1,2) by (auto simp: files split: if_splits)
      then show ?thesis using cat_okD(6) [OF assms(1) _ _ that(3,4)] by blast
    qed
  qed
  ultimately show ?thesis using run hd by blast
qed

text \<open>Creating a database: no file may stand where its directories go.\<close>

definition db_free :: "string \<Rightarrow> file_system \<Rightarrow> string \<Rightarrow> bool" where
  "db_free root fs db \<longleftrightarrow> (\<forall>p \<in> set (path_prefixes root) \<union> {DatabasePath root db, CatalogDirPath root db,
     TablesDirPath root db, IndexesDirPath root db, VersionsDirPath root db}. p \<notin> dom (fs_files fs))"

lemma EnsureDir_ok:
  "no_faults fs \<Longrightarrow> \<forall>p \<in> set (path_prefixes path). p \<notin> dom (fs_files fs) \<Longrightarrow>
    EnsureDir path fs = (Inr (), fs\<lparr>fs_dirs := fs_dirs fs \<union> set (path_prefixes path)\<rparr>)"
  by (simp add: EnsureDir_def)

lemma database_prefixes:
  assumes "IsValidName db"
  shows "path_prefixes (DatabasePath root db) = path_prefixes root @ [DatabasePath root db]"
    "CHR ''/'' \<notin> set x \<Longrightarrow> path_prefixes (DatabasePath root db @ CHR ''/'' # x) =
      path_prefixes root @ [DatabasePath root db, DatabasePath root db @ CHR ''/'' # x]"
proof -
  show p: "path_prefixes (DatabasePath root db) = path_prefixes root @ [DatabasePath root db]"
    using path_prefixes_append [OF IsValidName_no_slash [OF assms], of root] by (simp add: DatabasePath_def)
  show "CHR ''/'' \<notin> set x \<Longrightarrow> path_prefixes (DatabasePath root db @ CHR ''/'' # x) =
      path_prefixes root @ [DatabasePath root db, DatabasePath root db @ CHR ''/'' # x]"
    using path_prefixes_append [of x "DatabasePath root db"] p by simp
qed

lemma cm_CreateDatabase_run:
  assumes "no_faults fs" "IsValidName db" "DatabasePath root db \<notin> fs_dirs fs \<union> set (path_prefixes root)" "db_free root fs db"
  shows "cm_CreateDatabase root db fs = (Inr (), fs\<lparr>fs_dirs := fs_dirs fs \<union> set (path_prefixes root) \<union>
    {DatabasePath root db, CatalogDirPath root db, TablesDirPath root db, IndexesDirPath root db, VersionsDirPath root db}\<rparr>)"
proof -
  note pre = database_prefixes [OF assms(2), where root = root]
  show ?thesis
    using assms
    by (simp add: cm_CreateDatabase_def bindS_def ValidateDatabaseName_def EnsureDir_def db_free_def DatabaseExists_ok
        guardS_run pre CatalogDirPath_def TablesDirPath_def IndexesDirPath_def VersionsDirPath_def)
      (auto intro!: arg_cong [where f = "\<lambda>d. fs\<lparr>fs_dirs := d\<rparr>"])
qed

interpretation cat: table_catalog "cat_ok root" "cat_has_db root" "cat_tab root" "NormalizeTableDescriptor root" storable
  "cm_CreateTable root" "cm_DropTable root" "cm_GetTable root" "cm_ListTables sorted_list_of_set root"
  "cm_DropDatabase sorted_list_of_set root"
  for root
proof (unfold_locales, goal_cases)
  case (1 s d)
  then show ?case
    using CreateTable_run [OF 1(1-3)] cat_ok_write [OF 1(1) _ 1(3)] cat_tab_write [OF 1(3)]
    by (simp add: cat_has_db_def fun_eq_iff)
next
  case (2 s d)
  then show ?case using CreateTable_run [OF 2(1-3)] by simp
next
  case (3 s db t d)
  then show ?case by (rule cm_GetTable_in)
next
  case (4 s db t)
  then show ?case by (rule cm_GetTable_out)
next
  case (5 s db t d)
  then show ?case by (rule cm_DropTable_in)
next
  case (6 s db)
  then show ?case using cm_ListTables_in [OF 6 enumerates_sorted] by blast
next
  case (7 s db)
  then show ?case by (rule cm_DropDatabase_in)
next
  case (8 s db t d)
  have v: "IsValidName db" "IsValidName t" using 8(2) by (auto simp: cat_tab_def split: if_splits)
  then show ?case
    using cat_okD(5) [OF 8(1) v] cat_tab_meta(2) [OF 8(1) v, of d] 8(2) by (auto simp: meta_ok_def cat_has_db_def)
qed

subsection \<open>Properties of the catalog\<close>

text \<open>A catalog with one empty database and a table for it, used by the witnesses.\<close>

definition demo_catalog :: file_system where
  "demo_catalog = \<lparr>fs_files = Map.empty, fs_dirs = {''r'', ''r/d'', ''r/d/catalog'', ''r/d/tables''}, fs_faults = []\<rparr>"

definition demo_desc :: TableDescriptor where
  "demo_desc = \<lparr>td_database_name = ''d'', td_table_name = ''t'', td_data_file = [], td_index_dir = [],
     td_schema = [\<lparr>col_name = ''id'', col_type = cInt, col_not_null = True, col_indexed = True, col_default = Some (VInt 7)\<rparr>],
     td_indexes = [\<lparr>idx_name = ''pk'', idx_table_name = [], idx_column_name = ''id'', idx_file_path = [], idx_unique = True\<rparr>]\<rparr>"

lemma demo_names: "IsValidName ''d''" "IsValidName ''t''" "IsValidName ''id''" "IsValidName ''pk''"
  by (simp_all add: IsValidName_def isspace_def)

lemma demo_catalog_ok: "cat_ok ''r'' demo_catalog" "cat_has_db ''r'' demo_catalog ''d''" "cat_tab ''r'' demo_catalog = Map.empty"
proof -
  have "db = ''d''" if "cat_has_db ''r'' demo_catalog db" for db
    using that IsValidName_no_slash [of db] by (auto simp: cat_has_db_def demo_catalog_def DatabasePath_def)
  moreover have "TableMetaPath ''r'' db t \<notin> {''r'', ''r/d'', ''r/d/catalog'', ''r/d/tables''}" for db t
    by (auto simp: TableMetaPath_def dest!: arg_cong [where f = last])
  ultimately show "cat_ok ''r'' demo_catalog"
    by (auto simp: cat_ok_def demo_catalog_def CatalogDirPath_def DatabasePath_def)
  show "cat_has_db ''r'' demo_catalog ''d''" "cat_tab ''r'' demo_catalog = Map.empty"
    using demo_names by (auto simp: cat_has_db_def demo_catalog_def DatabasePath_def cat_tab_def)
qed

lemma demo_desc_storable: "storable (NormalizeTableDescriptor ''r'' demo_desc)"
  using demo_names
  by (simp add: storable_def td_wf_def descriptor_valid_def demo_desc_def NormalizeTableDescriptor_def Let_def
      col_wf_def idx_wf_def column_valid_def index_valid_def rep_column_type_def DefaultTableDataPath_def
      DefaultTableIndexDir_def DefaultIndexFilePath_def TablesDirPath_def IndexesDirPath_def DatabasePath_def)

text \<open>C13: in a well-formed catalog \<^verbatim>\<open>CreateTable\<close> fails with \<^verbatim>\<open>kAlreadyExists\<close> and changes nothing when the table exists;
  otherwise it succeeds, the catalog stays well-formed, \<^verbatim>\<open>GetTable\<close> then returns the normalised descriptor, and what
  \<^verbatim>\<open>GetTable\<close> returns for every other table is unchanged.\<close>

theorem create_table_roundtrip:
  assumes "cat_ok root fs" "cat_has_db root fs (td_database_name d)" "storable (NormalizeTableDescriptor root d)"
  shows "if cat_tab root fs (td_database_name d, td_table_name d) \<noteq> None
    then cm_CreateTable root d fs = (Inl kAlreadyExists, fs)
    else \<exists>fs'. cm_CreateTable root d fs = (Inr (), fs') \<and> cat_ok root fs' \<and>
      cm_GetTable root (td_database_name d) (td_table_name d) fs' = (Inr (NormalizeTableDescriptor root d), fs') \<and>
      (\<forall>db t. IsValidName db \<longrightarrow> IsValidName t \<longrightarrow> (db, t) \<noteq> (td_database_name d, td_table_name d) \<longrightarrow>
        fst (cm_GetTable root db t fs') = fst (cm_GetTable root db t fs))"
proof (cases "cat_tab root fs (td_database_name d, td_table_name d)")
  case None
  then obtain fs' where fs': "cm_CreateTable root d fs = (Inr (), fs')" "cat_ok root fs'"
    using cat.create_in [OF assms] by blast
  then show ?thesis using cat.create_get [OF assms] cat.create_get_other [OF assms] None by auto
next
  case (Some d')
  then show ?thesis using cat.create_dup [OF assms] by simp
qed

theorem create_table_roundtrip_witness:
  "cat_ok ''r'' demo_catalog \<and> (\<exists>fs'. cm_CreateTable ''r'' demo_desc demo_catalog = (Inr (), fs') \<and>
     cm_GetTable ''r'' ''d'' ''t'' fs' = (Inr (NormalizeTableDescriptor ''r'' demo_desc), fs'))"
proof -
  have n: "td_database_name demo_desc = ''d''" "td_table_name demo_desc = ''t''" by (simp_all add: demo_desc_def)
  show ?thesis
    using create_table_roundtrip [of "''r''" demo_catalog demo_desc] demo_catalog_ok demo_desc_storable n by auto
qed



text \<open>C14: in a well-formed catalog \<^verbatim>\<open>ListTables\<close> returns the descriptors of exactly the tables of the database, once each
  and in the order of their names, in whatever order the directory is enumerated.\<close>

theorem list_tables_exact:
  assumes "cat_ok root fs" "cat_has_db root fs db" "enumerates dir_order"
  shows "\<exists>ds. cm_ListTables dir_order root db fs = (Inr ds, fs) \<and> sorted (map td_table_name ds) \<and>
    distinct (map td_table_name ds) \<and> set ds = {d. \<exists>t. cat_tab root fs (db, t) = Some d}"
  using assms by (rule cm_ListTables_in)

theorem list_tables_exact_witness:
  "cat_ok ''r'' demo_catalog \<and> enumerates sorted_list_of_set \<and>
   (\<exists>fs'. cm_CreateTable ''r'' demo_desc demo_catalog = (Inr (), fs') \<and>
     cm_ListTables sorted_list_of_set ''r'' ''d'' fs' = (Inr [NormalizeTableDescriptor ''r'' demo_desc], fs'))"
proof -
  have n: "td_database_name demo_desc = ''d''" "td_table_name demo_desc = ''t''" by (simp_all add: demo_desc_def)
  let ?d = "NormalizeTableDescriptor ''r'' demo_desc"
  obtain fs' where fs': "cm_CreateTable ''r'' demo_desc demo_catalog = (Inr (), fs')" "cat_ok ''r'' fs'"
    "cat_has_db ''r'' fs' ''d''" "cat_tab ''r'' fs' = [(''d'', ''t'') \<mapsto> ?d]"
    using cat.create_in [of "''r''" demo_catalog demo_desc] demo_catalog_ok demo_desc_storable n by auto
  obtain ds where ds: "cm_ListTables sorted_list_of_set ''r'' ''d'' fs' = (Inr ds, fs')"
    "distinct (map td_table_name ds)" "set ds = {?d}"
    using list_tables_exact [OF fs'(2,3) enumerates_sorted] fs'(4) by (auto split: if_splits)
  have "distinct ds" using ds(2) by (simp add: distinct_map)
  then have "ds = [?d]" using ds(3) by (cases ds) (auto simp: subset_singleton_iff)
  then show ?thesis using fs' ds(1) demo_catalog_ok enumerates_sorted by blast
qed

end
