(* ===== verification/Version_Log.thy ===== *)
theory Version_Log
  imports Page_Manager Values
begin

text \<open>
  \<^verbatim>\<open>src/versioning/version_log.cpp\<close>: an append-only file of length-prefixed version records behind a 12-byte header.
  The object is the record \<open>version_log\<close>; its methods run on the pair of the file system and the object.

  \<open>log_rep s rs\<close> says that the open log \<open>s\<close> holds the records \<open>rs\<close>. The interface the engine and the revert
  service rely on is the locale \<open>record_log\<close>.
\<close>

subsection \<open>Records\<close>

datatype VersionOp = kInsert | kUpdate | kDelete

record VersionRecord =
  vr_timestamp_ms :: int
  vr_table_name :: string
  vr_rid :: nat
  vr_op :: VersionOp
  vr_before :: Tuple
  vr_after :: Tuple

definition kVersionLogMagic :: bytes where
  "kVersionLogMagic = map char_byte ''CDBVLOG1''"

definition kVersionLogVersion :: nat where
  "kVersionLogVersion = 1"

definition LogHeaderSize :: nat where
  "LogHeaderSize = length kVersionLogMagic + 4"

fun version_op_rep :: "VersionOp \<Rightarrow> nat" where
  "version_op_rep kInsert = 0"
| "version_op_rep kUpdate = 1"
| "version_op_rep kDelete = 2"

text \<open>The cast from the stored number together with \<open>IsValidVersionOp\<close>: only the enumerators are accepted.\<close>

definition rep_version_op :: "nat \<Rightarrow> VersionOp option" where
  "rep_version_op n = (if n = 0 then Some kInsert else if n = 1 then Some kUpdate else if n = 2 then Some kDelete else None)"

definition ValidateRecord :: "VersionRecord \<Rightarrow> unit result" where
  "ValidateRecord r = guardR (vr_table_name r \<noteq> []) kInvalidArgument"

definition SerializeRecord :: "VersionRecord \<Rightarrow> bytes" where
  "SerializeRecord r =
     (let out = WriteInt64 [] (vr_timestamp_ms r);
          out = WriteString out (vr_table_name r);
          out = WriteUint64 out (vr_rid r);
          out = WriteUint32 out (version_op_rep (vr_op r));
          out = SerializeTuple (vr_before r) out
      in SerializeTuple (vr_after r) out)"

definition DeserializeRecord :: "bytes \<Rightarrow> nat \<Rightarrow> (VersionRecord \<times> nat) result" where
  "DeserializeRecord bs offset =
     bindR (ReadInt64 bs offset) (\<lambda>(ts, off).
     bindR (ReadString bs off) (\<lambda>(name, off).
     bindR (ReadUint64 bs off) (\<lambda>(rid, off).
     bindR (ReadUint32 bs off) (\<lambda>(raw_op, off).
     bindR (case rep_version_op raw_op of None \<Rightarrow> Inl kInvalidArgument | Some vop \<Rightarrow> Inr (vop, off)) (\<lambda>(vop, off).
     bindR (DeserializeTuple bs off) (\<lambda>(before, off).
     bindR (DeserializeTuple bs off) (\<lambda>(after, off).
       Inr (\<lparr>vr_timestamp_ms = ts, vr_table_name = name, vr_rid = rid, vr_op = vop, vr_before = before,
             vr_after = after\<rparr>, off))))))))"

subsection \<open>The object\<close>

record version_log =
  vl_file_path :: string
  vl_is_open :: bool

type_synonym vl_state = "file_system \<times> version_log"

definition VersionLog :: "string \<Rightarrow> version_log" where
  "VersionLog file_path = \<lparr>vl_file_path = file_path, vl_is_open = False\<rparr>"

definition log_header :: bytes where
  "log_header = WriteUint32 kVersionLogMagic kVersionLogVersion"

definition InitializeLogFile :: "string \<Rightarrow> (file_system, unit) stm" where
  "InitializeLogFile path =
     bindS (ensure_parent path) (\<lambda>_.
     bindS (ioS kIoError (stream_create path)) (\<lambda>_.
       ioS kIoError (stream_write path 0 log_header)))"

definition ValidateLogHeader :: "string \<Rightarrow> (file_system, unit) stm" where
  "ValidateLogHeader path =
     bindS (ioS kIoError stream_seek) (\<lambda>_.
     bindS (readS kInvalidArgument (stream_read path 0 LogHeaderSize)) (\<lambda>header.
     bindS (guardS (take (length kVersionLogMagic) header = kVersionLogMagic) kInvalidArgument) (\<lambda>_.
     bindS (liftR (ReadUint32 header (length kVersionLogMagic))) (\<lambda>(version, _).
       guardS (version = kVersionLogVersion) kInvalidArgument))))"

definition WriteLogHeader :: "(vl_state, unit) stm" where
  "WriteLogHeader =
     bindS (gets snd) (\<lambda>vl.
     bindS (guardS (vl_is_open vl) kInternalError) (\<lambda>_.
     bindS (on_fs (ioS kIoError stream_seek)) (\<lambda>_.
       on_fs (ioS kIoError (stream_write (vl_file_path vl) 0 log_header)))))"

definition vl_Open :: "(vl_state, unit) stm" where
  "vl_Open =
     bindS (gets snd) (\<lambda>vl.
       if vl_is_open vl then ret ()
       else
         bindS (guardS (vl_file_path vl \<noteq> []) kInvalidArgument) (\<lambda>_.
         bindS (on_fs (FileExists (vl_file_path vl))) (\<lambda>exists.
         bindS (if \<not> exists then on_fs (InitializeLogFile (vl_file_path vl)) else ret ()) (\<lambda>_.
         bindS (on_fs (ioS kIoError (stream_open (vl_file_path vl)))) (\<lambda>_.
         bindS (on_fs (ValidateLogHeader (vl_file_path vl))) (\<lambda>_.
           on_obj (\<lambda>vl. vl\<lparr>vl_is_open := True\<rparr>)))))))"

definition vl_Flush :: "(vl_state, unit) stm" where
  "vl_Flush =
     bindS (gets snd) (\<lambda>vl.
     bindS (guardS (vl_is_open vl) kInternalError) (\<lambda>_.
       on_fs (ioS kIoError stream_seek)))"

definition log_entry :: "VersionRecord \<Rightarrow> bytes" where
  "log_entry r = (let payload = SerializeRecord r in WriteUint32 [] (length payload) @ payload)"

definition vl_Append :: "VersionRecord \<Rightarrow> (vl_state, unit) stm" where
  "vl_Append r =
     bindS (gets snd) (\<lambda>vl.
     bindS (guardS (vl_is_open vl) kInternalError) (\<lambda>_.
     bindS (liftR (ValidateRecord r)) (\<lambda>_.
     bindS (guardS (\<not> length (SerializeRecord r) > 2 ^ 32 - 1) kInvalidArgument) (\<lambda>_.
     bindS (on_fs (ioS kIoError stream_seek)) (\<lambda>_.
     bindS (gets (\<lambda>s. length (file_bytes (fst s) (vl_file_path vl)))) (\<lambda>end_pos.
       on_fs (ioS kIoError (stream_write (vl_file_path vl) end_pos (log_entry r)))))))))"

definition parse_payload :: "bytes \<Rightarrow> VersionRecord result" where
  "parse_payload payload =
     bindR (DeserializeRecord payload 0) (\<lambda>(r, offset).
     bindR (guardR (offset = length payload) kInvalidArgument) (\<lambda>_. Inr r))"

lemma stream_read_facts:
  assumes "stream_read path off n fs = ((ok, got), fs')"
  shows "fs_files fs' = fs_files fs" "length got \<le> length (file_bytes fs path) - off" "length got \<le> n"
proof -
  show "fs_files fs' = fs_files fs" using stream_read_files [OF assms] by simp
  have "file_bytes (snd (fs_tick fs)) path = file_bytes fs path"
    using fs_tick_files [of fs "fst (fs_tick fs)" "snd (fs_tick fs)"] by (simp add: file_bytes_def)
  then show "length got \<le> length (file_bytes fs path) - off" "length got \<le> n"
    using assms by (auto simp: stream_read_def Let_def split: prod.splits option.splits)
qed

text \<open>
  The loop of \<open>ReadAll\<close> from a stream position. The size field is read with \<open>gcount\<close>: nothing read ends the loop,
  also when the stream failed.
\<close>

function read_records :: "string \<Rightarrow> nat \<Rightarrow> (file_system, VersionRecord list) stm" where
  "read_records path pos fs =
     (case stream_read path pos 4 fs of ((_, size_bytes), fs1) \<Rightarrow>
       if length size_bytes = 0 then (Inr [], fs1)
       else if length size_bytes \<noteq> 4 then (Inl kInvalidArgument, fs1)
       else case ReadUint32 size_bytes 0 of
           Inl e \<Rightarrow> (Inl e, fs1)
         | Inr (record_size, _) \<Rightarrow>
             (case stream_read path (pos + 4) record_size fs1 of ((_, payload), fs2) \<Rightarrow>
               if length payload \<noteq> record_size then (Inl kInvalidArgument, fs2)
               else case parse_payload payload of
                   Inl e \<Rightarrow> (Inl e, fs2)
                 | Inr r \<Rightarrow> (case read_records path (pos + 4 + record_size) fs2 of
                       (Inl e, fs3) \<Rightarrow> (Inl e, fs3)
                     | (Inr rs, fs3) \<Rightarrow> (Inr (r # rs), fs3))))"
  by pat_completeness auto

termination
proof (relation "measure (\<lambda>(path, pos, fs). length (file_bytes fs path) - pos)", goal_cases)
  case (2 path pos fs x fs1 ok sb p1 n off y fs2 ok2 payload r)
  then have a: "stream_read path pos 4 fs = ((ok, sb), fs1)" "stream_read path (pos + 4) n fs1 = ((ok2, payload), fs2)"
    by auto
  have "file_bytes fs2 path = file_bytes fs path"
    using stream_read_facts(1) [OF a(1)] stream_read_facts(1) [OF a(2)] by (simp add: file_bytes_def)
  then show ?case using stream_read_facts(2) [OF a(1)] 2(4) by simp
qed simp

declare read_records.simps [simp del]

definition vl_ReadAll :: "(vl_state, VersionRecord list) stm" where
  "vl_ReadAll =
     bindS (gets snd) (\<lambda>vl.
     bindS (guardS (vl_is_open vl) kInternalError) (\<lambda>_.
     bindS (on_fs (ioS kIoError stream_seek)) (\<lambda>_.
       on_fs (read_records (vl_file_path vl) LogHeaderSize))))"

subsection \<open>Encoding of records\<close>

definition rec_ok :: "VersionRecord \<Rightarrow> bool" where
  "rec_ok r \<longleftrightarrow> - (2 ^ 63) \<le> vr_timestamp_ms r \<and> vr_timestamp_ms r < 2 ^ 63 \<and> vr_table_name r \<noteq> [] \<and>
     length (vr_table_name r) < 2 ^ 32 \<and> vr_rid r < 2 ^ 64 \<and> tuple_wf (vr_before r) \<and> tuple_wf (vr_after r) \<and>
     length (SerializeRecord r) < 2 ^ 32"

lemma SerializeRecord_eq:
  "SerializeRecord r = le_bytes 8 (int64_rep (vr_timestamp_ms r)) @ enc_string (vr_table_name r) @
     le_bytes 8 (vr_rid r) @ le_bytes 4 (version_op_rep (vr_op r)) @ enc_tuple (vr_before r) @ enc_tuple (vr_after r)"
  by (simp add: SerializeRecord_def writer_appends SerializeTuple_appends Let_def)

lemma decodes_i64: "- (2 ^ 63) \<le> i \<Longrightarrow> i < 2 ^ 63 \<Longrightarrow> decodes ReadInt64 (le_bytes 8 (int64_rep i)) i"
  by (auto simp: decodes_def ReadInt64_at)

lemma rep_version_op_rep [simp]: "rep_version_op (version_op_rep vop) = Some vop"
  by (cases vop) (simp_all add: rep_version_op_def)

lemma version_op_small: "version_op_rep vop < 2 ^ 32"
  by (cases vop) simp_all

lemma decodes_record:
  assumes "rec_ok r"
  shows "decodes DeserializeRecord (SerializeRecord r) r"
proof -
  have op: "decodes (\<lambda>bs off. case rep_version_op (version_op_rep (vr_op r)) of None \<Rightarrow> Inl kInvalidArgument
      | Some vop \<Rightarrow> Inr (vop, off)) [] (vr_op r)"
    by (simp add: decodes_def)
  have "decodes (\<lambda>bs off. DeserializeRecord bs off)
      (le_bytes 8 (int64_rep (vr_timestamp_ms r)) @ enc_string (vr_table_name r) @ le_bytes 8 (vr_rid r) @
        le_bytes 4 (version_op_rep (vr_op r)) @ [] @ enc_tuple (vr_before r) @ enc_tuple (vr_after r) @ []) r"
    unfolding DeserializeRecord_def
    by (intro decodes_intros decodes_bind [OF decodes_i64] decodes_bind [OF decodes_tuple] decodes_bind [OF op])
      (use assms version_op_small in \<open>auto simp: rec_ok_def\<close>)
  then show ?thesis by (simp add: SerializeRecord_eq)
qed

lemma parse_payload_enc: "rec_ok r \<Longrightarrow> parse_payload (SerializeRecord r) = Inr r"
  using decodes_self [OF decodes_record] by (simp add: parse_payload_def)

lemma log_entry_eq: "log_entry r = le_bytes 4 (length (SerializeRecord r)) @ SerializeRecord r"
  by (simp add: log_entry_def writer_appends Let_def)

subsection \<open>Reading the log\<close>

definition entries :: "VersionRecord list \<Rightarrow> bytes" where
  "entries rs = concat (map log_entry rs)"

lemma entries_simps [simp]:
  "entries [] = []" "entries (r # rs) = log_entry r @ entries rs" "entries (rs @ rs') = entries rs @ entries rs'"
  by (simp_all add: entries_def)

lemma ReadUint32_self: "n < 2 ^ 32 \<Longrightarrow> ReadUint32 (le_bytes 4 n) 0 = Inr (n, 4)"
  using ReadUint32_at [of "le_bytes 4 n" 0 n] by (simp add: has_at_def)

lemma read_records_step:
  assumes "no_faults fs" "fs_files fs path = Some (pre @ log_entry r @ rest)" "rec_ok r"
  shows "read_records path (length pre) fs =
    (case read_records path (length (pre @ log_entry r)) fs of (Inl e, fs3) \<Rightarrow> (Inl e, fs3) | (Inr rs, fs3) \<Rightarrow> (Inr (r # rs), fs3))"
proof -
  let ?n = "length (SerializeRecord r)"
  have n: "?n < 2 ^ 32" using assms(3) by (simp add: rec_ok_def)
  have 1: "stream_read path (length pre) 4 fs = ((True, le_bytes 4 ?n), fs)"
    using assms(1,2) by (simp add: stream_read_ok log_entry_eq)
  have 2: "stream_read path (length pre + 4) ?n fs = ((True, SerializeRecord r), fs)"
    using assms(1,2) by (simp add: stream_read_ok log_entry_eq)
  show ?thesis
    by (subst read_records.simps)
      (simp add: 1 2 ReadUint32_self [OF n] parse_payload_enc [OF assms(3)] log_entry_eq add.assoc del: length_0_conv)
qed

lemma read_records_prefix:
  assumes "no_faults fs" "fs_files fs path = Some (pre @ entries rs @ tail)" "list_all rec_ok rs"
  shows "read_records path (length pre) fs =
    (case read_records path (length (pre @ entries rs)) fs of (Inl e, fs3) \<Rightarrow> (Inl e, fs3) | (Inr rs', fs3) \<Rightarrow> (Inr (rs @ rs'), fs3))"
  using assms
proof (induction rs arbitrary: pre)
  case Nil
  then show ?case by (auto split: prod.splits sum.splits)
next
  case (Cons r rs)
  then show ?case
    using read_records_step [of fs path pre r "entries rs @ tail"] Cons.IH [of "pre @ log_entry r"]
    by (auto split: prod.splits sum.splits)
qed

lemma read_records_end:
  assumes "no_faults fs" "fs_files fs path = Some bs"
  shows "read_records path (length bs) fs = (Inr [], fs)"
proof -
  have "stream_read path (length bs) 4 fs = ((False, []), fs)" using assms by (simp add: stream_read_def)
  then show ?thesis by (subst read_records.simps) simp
qed

lemma read_records_torn:
  assumes "no_faults fs" "fs_files fs path = Some (pre @ take k (log_entry r))" "rec_ok r" "0 < k" "k < length (log_entry r)"
  shows "read_records path (length pre) fs = (Inl kInvalidArgument, fs)"
proof (cases "k < 4")
  case True
  then have "stream_read path (length pre) 4 fs = ((False, take k (log_entry r)), fs)"
    using assms by (auto simp: stream_read_def)
  then show ?thesis using True assms(4,5) by (subst read_records.simps) (simp del: length_0_conv)
next
  case False
  let ?n = "length (SerializeRecord r)"
  have n: "?n < 2 ^ 32" using assms(3) by (simp add: rec_ok_def)
  have t: "take k (log_entry r) = le_bytes 4 ?n @ take (k - 4) (SerializeRecord r)" using False by (simp add: log_entry_eq)
  have k: "k - 4 < ?n" using False assms(5) by (simp add: log_entry_eq)
  have 1: "stream_read path (length pre) 4 fs = ((True, le_bytes 4 ?n), fs)"
    using assms(1,2) t by (simp add: stream_read_ok)
  have 2: "stream_read path (length pre + 4) ?n fs = ((False, take (k - 4) (SerializeRecord r)), fs)"
    using assms(1,2) t k by (simp add: stream_read_def min_def)
  show ?thesis
    using k by (subst read_records.simps) (simp add: 1 2 ReadUint32_self [OF n] del: length_0_conv)
qed

subsection \<open>The log and its interface\<close>

text \<open>\<open>log_holds s rs\<close>: the open log's file holds exactly the header and the records \<open>rs\<close>.\<close>

definition log_holds :: "vl_state \<Rightarrow> VersionRecord list \<Rightarrow> bool" where
  "log_holds s rs \<longleftrightarrow> vl_is_open (snd s) \<and> fs_files (fst s) (vl_file_path (snd s)) = Some (log_header @ entries rs) \<and>
     list_all rec_ok rs"

definition vl_ok :: "vl_state \<Rightarrow> bool" where
  "vl_ok s \<longleftrightarrow> no_faults (fst s) \<and> (\<exists>rs. log_holds s rs)"

definition vl_records :: "vl_state \<Rightarrow> VersionRecord list" where
  "vl_records s = projr (fst (read_records (vl_file_path (snd s)) LogHeaderSize (fst s)))"

lemma log_header_eq: "log_header = kVersionLogMagic @ le_bytes 4 1"
  by (simp add: log_header_def writer_appends kVersionLogVersion_def)

lemma length_log_header [simp]: "length log_header = LogHeaderSize"
  by (simp add: log_header_eq LogHeaderSize_def)

lemma log_holds_read:
  assumes "no_faults (fst s)" "log_holds s rs"
  shows "read_records (vl_file_path (snd s)) LogHeaderSize (fst s) = (Inr rs, fst s)"
proof -
  have f: "fs_files (fst s) (vl_file_path (snd s)) = Some (log_header @ entries rs)" "list_all rec_ok rs"
    using assms(2) by (auto simp: log_holds_def)
  show ?thesis
    using read_records_prefix [OF assms(1), of _ log_header rs "[]"] read_records_end [OF assms(1) f(1)] f by simp
qed

lemma vl_records_holds: "no_faults (fst s) \<Longrightarrow> log_holds s rs \<Longrightarrow> vl_records s = rs"
  by (simp add: vl_records_def log_holds_read)

lemma vl_ok_holds: "vl_ok s \<Longrightarrow> log_holds s (vl_records s) \<and> no_faults (fst s)"
  unfolding vl_ok_def using vl_records_holds [of s] by metis

lemma vl_ReadAll_ok: "vl_ok s \<Longrightarrow> vl_ReadAll s = (Inr (vl_records s), s)"
  using vl_ok_holds [of s] log_holds_read [of s "vl_records s"]
  by (cases s) (simp add: vl_ReadAll_def pm_exec bindS_def guardS_run log_holds_def)

lemma vl_Append_run:
  assumes "vl_is_open (snd s)" "rec_ok r" "stream_seek (fst s) = (True, fs1)"
  shows "vl_Append r s = (case stream_write (vl_file_path (snd s)) (length (file_bytes fs1 (vl_file_path (snd s)))) (log_entry r) fs1
    of (ok, fs2) \<Rightarrow> (if ok then Inr () else Inl kIoError, (fs2, snd s)))"
  using assms by (cases s)
    (auto simp: vl_Append_def ValidateRecord_def rec_ok_def pm_exec bindS_def guardS_run split: prod.splits)

lemma vl_Append_ok:
  assumes "vl_ok s" "rec_ok r"
  shows "\<exists>s'. vl_Append r s = (Inr (), s') \<and> vl_ok s' \<and> vl_records s' = vl_records s @ [r]"
proof -
  let ?p = "vl_file_path (snd s)" let ?c = "log_header @ entries (vl_records s)"
  let ?s' = "((fst s)\<lparr>fs_files := (fs_files (fst s))(?p \<mapsto> ?c @ log_entry r)\<rparr>, snd s)"
  have h: "log_holds s (vl_records s)" "no_faults (fst s)" using vl_ok_holds [OF assms(1)] by auto
  then have f: "vl_is_open (snd s)" "fs_files (fst s) ?p = Some ?c" "list_all rec_ok (vl_records s)"
    by (auto simp: log_holds_def)
  have "vl_Append r s = (Inr (), ?s')"
    using vl_Append_run [OF f(1) assms(2), of "fst s"] h(2) f(2) splice_end [of ?c] by (simp add: stream_write_ok)
  moreover have holds: "log_holds ?s' (vl_records s @ [r])" using f assms(2) by (simp add: log_holds_def)
  moreover have "vl_ok ?s'" using holds h(2) unfolding vl_ok_def by auto
  moreover have "vl_records ?s' = vl_records s @ [r]" using vl_records_holds [OF _ holds] h(2) by simp
  ultimately show ?thesis by blast
qed

text \<open>A log of records: what was appended is what is read, in the order of the appends.\<close>

locale record_log =
  fixes ok :: "'s \<Rightarrow> bool"
    and recs :: "'s \<Rightarrow> 'r list"
    and good :: "'r \<Rightarrow> bool"
    and append :: "'r \<Rightarrow> ('s, unit) stm"
    and read_all :: "('s, 'r list) stm"
  assumes append_in: "ok s \<Longrightarrow> good r \<Longrightarrow> \<exists>s'. append r s = (Inr (), s') \<and> ok s' \<and> recs s' = recs s @ [r]"
    and read_in: "ok s \<Longrightarrow> read_all s = (Inr (recs s), s)"
begin

lemma append_many:
  assumes "ok s" "list_all good rs"
  shows "\<exists>s'. forS rs append s = (Inr (), s') \<and> ok s' \<and> recs s' = recs s @ rs"
  using assms
proof (induction rs arbitrary: s)
  case (Cons r rs)
  then obtain s1 where s1: "append r s = (Inr (), s1)" "ok s1" "recs s1 = recs s @ [r]"
    using append_in [of s r] by auto
  then obtain s2 where "forS rs append s1 = (Inr (), s2)" "ok s2" "recs s2 = recs s1 @ rs"
    using Cons.IH [of s1] Cons.prems(2) by (metis list.pred_inject(2))
  then show ?case using s1 by (auto simp: exec_simps)
qed simp

lemma append_read:
  assumes "ok s" "list_all good rs" "forS rs append s = (Inr (), s')"
  shows "read_all s' = (Inr (recs s @ rs), s')"
  using append_many [OF assms(1,2)] assms(3) read_in [of s'] by auto

end

interpretation vlog: record_log vl_ok vl_records rec_ok vl_Append vl_ReadAll
  by unfold_locales (blast intro: vl_Append_ok, rule vl_ReadAll_ok)

subsection \<open>Opening\<close>

lemma ValidateLogHeader_ok:
  assumes "no_faults fs" "fs_files fs path = Some (log_header @ rest)"
  shows "ValidateLogHeader path fs = (Inr (), fs)"
proof -
  have "stream_read path 0 LogHeaderSize fs = ((True, log_header), fs)"
    using assms by (simp add: stream_read_ok)
  moreover have "ReadUint32 log_header (length kVersionLogMagic) = Inr (1, length kVersionLogMagic + 4)"
    by (rule ReadUint32_at) (simp_all add: log_header_eq has_at_def)
  ultimately show ?thesis
    using assms(1)
    by (simp add: ValidateLogHeader_def ioS_def readS_def bindS_def guardS_run kVersionLogVersion_def log_header_eq)
qed

lemma vl_open_existing:
  assumes "no_faults fs" "fs_files fs path = Some (log_header @ entries rs)" "list_all rec_ok rs" "path \<noteq> []"
  shows "\<exists>s'. vl_Open (fs, VersionLog path) = (Inr (), s') \<and> vl_ok s' \<and> vl_records s' = rs"
proof -
  let ?s' = "(fs, (VersionLog path)\<lparr>vl_is_open := True\<rparr>)"
  have "vl_Open (fs, VersionLog path) = (Inr (), ?s')"
    using assms ValidateLogHeader_ok [OF assms(1,2)]
    by (auto simp: vl_Open_def VersionLog_def pm_exec bindS_def guardS_run FileExists_def)
  moreover have "log_holds ?s' rs" using assms by (simp add: log_holds_def VersionLog_def)
  ultimately show ?thesis using vl_records_holds [of ?s' rs] assms(1) by (auto simp: vl_ok_def)
qed

lemma vl_open_fresh:
  assumes nf: "no_faults fs" and d: "dir_free fs path" and p: "path \<noteq> []" "path \<notin> dom (fs_files fs)"
    "path \<notin> fs_dirs fs" "path \<notin> fs_dirs (with_dir fs path)" and dir: "has_dir (with_dir fs path) (dir_of path)"
  shows "\<exists>s'. vl_Open (fs, VersionLog path) = (Inr (), s') \<and> vl_ok s' \<and> vl_records s' = [] \<and>
    fst s' = (with_dir fs path)\<lparr>fs_files := (fs_files fs)(path \<mapsto> log_header)\<rparr>"
proof -
  let ?fs = "(with_dir fs path)\<lparr>fs_files := (fs_files fs)(path \<mapsto> log_header)\<rparr>"
  let ?s' = "(?fs, (VersionLog path)\<lparr>vl_is_open := True\<rparr>)"
  have x: "FileExists path fs = (Inr False, fs)" using nf p by (simp add: FileExists_def)
  have "splice [] 0 log_header = log_header" by (simp add: splice_def)
  then have cr: "InitializeLogFile path fs = (Inr (), ?fs)"
    using nf p dir ensure_parent_ok [OF nf d]
    by (simp add: InitializeLogFile_def ioS_def bindS_def stream_create_def stream_write_ok file_bytes_def)
  have "ValidateLogHeader path ?fs = (Inr (), ?fs)" using nf by (intro ValidateLogHeader_ok [of _ _ "[]"]) auto
  then have "vl_Open (fs, VersionLog path) = (Inr (), ?s')"
    using p nf x cr by (simp add: vl_Open_def VersionLog_def exec_simps bindS_guardS on_fs_run ioS_def)
  moreover have "log_holds ?s' []" by (simp add: log_holds_def VersionLog_def)
  ultimately show ?thesis using vl_records_holds [of ?s' "[]"] nf by (auto simp: vl_ok_def)
qed

lemma vl_Append_path: "keeps (\<lambda>s. vl_file_path (snd s) = p) (vl_Append r)"
  unfolding vl_Append_def by (intro keeps_intros keeps_on_fs_obj)

lemma forS_Append_path: "forS rs vl_Append s = (x, s') \<Longrightarrow> vl_file_path (snd s') = vl_file_path (snd s)"
  using keeps_forS [of "\<lambda>s'. vl_file_path (snd s') = vl_file_path (snd s)" vl_Append rs] vl_Append_path
  unfolding keeps_def by (metis snd_conv)

subsection \<open>Properties of the version log\<close>

text \<open>C12: the records appended to a log are what \<^verbatim>\<open>ReadAll\<close> returns, after the records it held before and in the order of
  the appends, also when the log is closed and opened again in between.\<close>

theorem log_roundtrip:
  assumes "vl_ok s" "list_all rec_ok rs"
  shows "\<exists>s'. forS rs vl_Append s = (Inr (), s') \<and> vl_ReadAll s' = (Inr (vl_records s @ rs), s') \<and>
    (vl_file_path (snd s) \<noteq> [] \<longrightarrow> (\<exists>s''. vl_Open (fst s', VersionLog (vl_file_path (snd s'))) = (Inr (), s'') \<and>
       vl_ReadAll s'' = (Inr (vl_records s @ rs), s'')))"
proof -
  obtain s' where s': "forS rs vl_Append s = (Inr (), s')" "vl_ok s'" "vl_records s' = vl_records s @ rs"
    using vlog.append_many [OF assms] by blast
  have h: "log_holds s' (vl_records s @ rs)" "no_faults (fst s')" using vl_ok_holds [OF s'(2)] s'(3) by auto
  have p: "vl_file_path (snd s') = vl_file_path (snd s)" using forS_Append_path [OF s'(1)] .
  have "\<exists>s''. vl_Open (fst s', VersionLog (vl_file_path (snd s'))) = (Inr (), s'') \<and> vl_ReadAll s'' = (Inr (vl_records s @ rs), s'')"
    if ne: "vl_file_path (snd s) \<noteq> []"
  proof -
    obtain s'' where "vl_Open (fst s', VersionLog (vl_file_path (snd s'))) = (Inr (), s'')" "vl_ok s''"
      "vl_records s'' = vl_records s @ rs"
      using vl_open_existing [OF h(2), of "vl_file_path (snd s')" "vl_records s @ rs"] h(1) p ne
      unfolding log_holds_def by auto
    then show ?thesis using vl_ReadAll_ok [of s''] by auto
  qed
  then show ?thesis using s' vlog.append_read [OF assms s'(1)] by blast
qed

text \<open>What an append leaves in the file under faults, and what the file then reads as.\<close>

lemma vl_Append_effect:
  assumes "log_holds s rs" "rec_ok r" "vl_Append r s = (res, s')"
  shows "\<exists>k. snd s' = snd s \<and>
    fs_files (fst s') (vl_file_path (snd s)) = Some ((log_header @ entries rs) @ take k (log_entry r)) \<and>
    (res = Inr () \<longrightarrow> k = length (log_entry r))"
proof -
  let ?p = "vl_file_path (snd s)" let ?c = "log_header @ entries rs"
  have f: "vl_is_open (snd s)" "fs_files (fst s) ?p = Some ?c" using assms(1) by (auto simp: log_holds_def)
  obtain ok1 fs1 where k: "stream_seek (fst s) = (ok1, fs1)" by fastforce
  then have f1: "fs_files fs1 ?p = Some ?c" using stream_seek_files [OF k] f(2) by simp
  show ?thesis
  proof (cases ok1)
    case False
    then have "vl_Append r s = (Inl kIoError, (fs1, snd s))"
      using k f(1) assms(2)
      by (cases s) (simp add: vl_Append_def ValidateRecord_def rec_ok_def pm_exec bindS_def guardS_run)
    then show ?thesis using assms(3) f1 by (auto intro: exI [of _ 0])
  next
    case True
    obtain ok fs2 where w: "stream_write ?p (length ?c) (log_entry r) fs1 = (ok, fs2)" by fastforce
    then obtain n where "fs_files fs2 ?p = Some (splice ?c (length ?c) (take n (log_entry r)))" "ok \<longrightarrow> n = length (log_entry r)"
      using stream_write_torn [OF w] f1 by auto
    moreover have "vl_Append r s = (if ok then Inr () else Inl kIoError, (fs2, snd s))"
      using vl_Append_run [OF f(1) assms(2), of fs1] k True w f1 by simp
    ultimately show ?thesis
      using assms(3) splice_end [of ?c] by (intro exI [of _ n]) (simp split: if_splits)
  qed
qed

lemma read_torn_log:
  assumes "no_faults fs" "fs_files fs p = Some ((log_header @ entries rs) @ take k (log_entry r))" "list_all rec_ok rs" "rec_ok r"
  shows "fst (read_records p LogHeaderSize fs) \<in> {Inr rs, Inr (rs @ [r]), Inl kInvalidArgument}"
proof -
  let ?c = "log_header @ entries rs"
  have pre: "read_records p LogHeaderSize fs = (case read_records p (length ?c) fs of
      (Inl e, fs3) \<Rightarrow> (Inl e, fs3) | (Inr rs', fs3) \<Rightarrow> (Inr (rs @ rs'), fs3))"
    using read_records_prefix [of fs p log_header rs "take k (log_entry r)"] assms by simp
  consider "k = 0" | "length (log_entry r) \<le> k" | "0 < k" "k < length (log_entry r)" by linarith
  then show ?thesis
  proof cases
    case 1
    then show ?thesis using pre read_records_end [of fs p ?c] assms by simp
  next
    case 2
    then show ?thesis
      using read_records_prefix [of fs p log_header "rs @ [r]" "[]"] read_records_end [of fs p "?c @ log_entry r"]
        assms by simp
  next
    case 3
    then show ?thesis using pre read_records_torn [of fs p ?c k r] assms by simp
  qed
qed

lemma vl_ReadAll_fst:
  "vl_is_open vl \<Longrightarrow> no_faults fs \<Longrightarrow> fst (vl_ReadAll (fs, vl)) = fst (read_records (vl_file_path vl) LogHeaderSize fs)"
  by (simp add: vl_ReadAll_def pm_exec bindS_def guardS_run split: prod.splits)


text \<open>An empty open log on a healthy and on a failing disk, used by the witnesses.\<close>

definition demo_log :: "io_event list \<Rightarrow> vl_state" where
  "demo_log evs = (\<lparr>fs_files = [''v'' \<mapsto> log_header], fs_dirs = {}, fs_faults = evs\<rparr>,
     \<lparr>vl_file_path = ''v'', vl_is_open = True\<rparr>)"

definition demo_rec :: VersionRecord where
  "demo_rec = \<lparr>vr_timestamp_ms = 5, vr_table_name = ''t'', vr_rid = 0, vr_op = kInsert, vr_before = [], vr_after = [VInt 7]\<rparr>"

lemma demo_rec_ok: "rec_ok demo_rec"
  by (simp add: rec_ok_def demo_rec_def SerializeRecord_eq tuple_wf_def kMaxTupleValues_def enc_tuple_def enc_value_simps)

lemma demo_log_holds: "log_holds (demo_log evs) []" "vl_ok (demo_log [])" "vl_records (demo_log []) = []"
proof -
  show h: "log_holds (demo_log evs) []" for evs by (simp add: log_holds_def demo_log_def)
  show "vl_ok (demo_log [])" "vl_records (demo_log []) = []"
    using h [of "[]"] vl_records_holds [OF _ h] by (auto simp: vl_ok_def demo_log_def)
qed

theorem log_roundtrip_witness:
  "vl_ok (demo_log []) \<and> (\<exists>s'. forS [demo_rec, demo_rec] vl_Append (demo_log []) = (Inr (), s') \<and>
     vl_ReadAll s' = (Inr [demo_rec, demo_rec], s'))"
  using log_roundtrip [of "demo_log []" "[demo_rec, demo_rec]"] demo_log_holds demo_rec_ok by auto


end
