(* ===== verification/BStar_Tree.thy ===== *)
theory BStar_Tree
  imports Page_Manager Values
begin

text \<open>
  \<^verbatim>\<open>src/index/key_encoder.cpp\<close> and \<^verbatim>\<open>src/index/bstar_tree.cpp\<close>: the unique index, a B+-tree on the pages of a page
  file that shares with a right sibling before it splits. This theory holds the definitions, in the order of the source;
  the object is the record \<open>bstar_tree\<close>, its methods run on the pair of the file system and the object.

  \<^item> A leaf is a list of pairs of key and row id, an internal node a pair of separators and child pages. A search path
    is a list whose head is the back of the vector of the code.
  \<^item> The mutually recursive methods are functions on the path: \<open>SplitInternal\<close> and the two merge methods take the call
    on the parent's path as their first argument.
  \<^item> The descent and the walk over the leaf chain read one page per turn and change nothing, so on a file without
    faults a run of more turns than the file has pages never ends in the code. The loops are bounded by the number of
    pages; \<open>not_returning\<close> stands for such a run.
\<close>

subsection \<open>Keys\<close>

fun Encode :: "Value \<Rightarrow> bytes" where
  "Encode VNull = []"
| "Encode (VInt i) = WriteInt64 [] i"
| "Encode (VString s) = map char_byte s"
| "Encode (VBool b) = WriteBool [] b"

definition Decode :: "bytes \<Rightarrow> ValueType \<Rightarrow> Value result" where
  "Decode bs t = (case t of
       kNull \<Rightarrow> if bs \<noteq> [] then Inl kInvalidArgument else Inr VNull
     | kInt \<Rightarrow> if length bs \<noteq> 8 then Inl kInvalidArgument else bindR (ReadInt64 bs 0) (\<lambda>(i, _). Inr (VInt i))
     | kString \<Rightarrow> Inr (VString (map byte_char bs))
     | kBool \<Rightarrow> if length bs \<noteq> 1 then Inl kInvalidArgument
         else if bs ! 0 \<noteq> 0 \<and> bs ! 0 \<noteq> 1 then Inl kInvalidArgument else Inr (VBool (bs ! 0 = 1)))"

subsection \<open>Constants and data\<close>

definition kTreeMetadataMagic :: bytes where
  "kTreeMetadataMagic = map char_byte ''CDBB*+MT''"

definition kTreeNodeMagic :: bytes where
  "kTreeNodeMagic = map char_byte ''CDBB*+ND''"

definition kTreeVersion :: nat where
  "kTreeVersion = 3"

definition InvalidPageId :: nat where
  "InvalidPageId = 2 ^ 64 - 1"

definition MetadataHeaderSize :: nat where
  "MetadataHeaderSize = length kTreeMetadataMagic + 4 + 4 + 8 + 8 + 8 + 8 + 8"

definition NodeHeaderSize :: nat where
  "NodeHeaderSize = length kTreeNodeMagic + 4 + 4 + 8 + 8 + 1"

record KeyRange =
  rg_low :: "Value option"
  rg_high :: "Value option"
  rg_include_low :: bool
  rg_include_high :: bool

datatype NodeType = kInternal | kLeaf

record TreeMetadata =
  bm_version :: nat
  bm_root_page_id :: nat
  bm_first_leaf_page_id :: nat
  bm_min_degree :: nat
  bm_max_key_payload_bytes :: nat
  bm_tree_height :: nat

record NodeHeader =
  nh_type :: NodeType
  nh_key_count :: nat
  nh_parent_page_id :: nat
  nh_next_leaf_page_id :: nat
  nh_is_root :: bool

type_synonym LeafEntry = "Value \<times> nat"
type_synonym InternalNodeData = "Value list \<times> nat list"
type_synonym SearchPathEntry = "nat \<times> nat"

record bstar_tree =
  bt_index_file :: string
  bt_key_type :: ValueType
  bt_page_size :: nat
  bt_min_degree :: nat
  bt_max_key_payload_bytes :: nat
  bt_page_manager :: page_manager
  bt_is_open :: bool
  bt_metadata :: TreeMetadata

type_synonym bt_state = "file_system \<times> bstar_tree"

definition FitsInRange :: "Value \<Rightarrow> KeyRange \<Rightarrow> bool" where
  "FitsInRange key rng \<longleftrightarrow>
     (case rg_low rng of None \<Rightarrow> True
      | Some low \<Rightarrow> if rg_include_low rng then \<not> key < low else key > low) \<and>
     (case rg_high rng of None \<Rightarrow> True
      | Some high \<Rightarrow> if rg_include_high rng then \<not> key > high else key < high)"

text \<open>The loop keeps the best index so far with its distance.\<close>

fun choose_split_loop :: "(nat \<Rightarrow> nat \<Rightarrow> bool) \<Rightarrow> nat \<Rightarrow> nat list \<Rightarrow> (nat \<times> nat) option \<Rightarrow> (nat \<times> nat) option" where
  "choose_split_loop fits total_size [] best = best"
| "choose_split_loop fits total_size (i # is) best =
     (let left_count = i; right_count = total_size - i;
          dist = (if left_count > right_count then left_count - right_count else right_count - left_count)
      in if \<not> fits left_count right_count then choose_split_loop fits total_size is best
         else choose_split_loop fits total_size is
           (case best of None \<Rightarrow> Some (i, dist) | Some (b, d) \<Rightarrow> if dist < d then Some (i, dist) else Some (b, d)))"

definition ChooseBalancedSplit :: "nat \<Rightarrow> (nat \<Rightarrow> nat \<Rightarrow> bool) \<Rightarrow> nat option" where
  "ChooseBalancedSplit total_size fits =
     map_option fst (choose_split_loop fits total_size [1..<total_size] None)"

subsection \<open>Configuration\<close>

definition ResolveMaxEncodedKeySize :: "ValueType \<Rightarrow> nat \<Rightarrow> nat result" where
  "ResolveMaxEncodedKeySize key_type max_variable_key_payload_bytes =
     bindR (guardR (max_variable_key_payload_bytes \<noteq> 0) kInvalidArgument) (\<lambda>_.
       case key_type of
         kInt \<Rightarrow> Inr 8 | kBool \<Rightarrow> Inr 1 | kString \<Rightarrow> Inr max_variable_key_payload_bytes
       | kNull \<Rightarrow> Inl kInvalidArgument)"

definition ComputeMinDegreeForPage :: "nat \<Rightarrow> nat \<Rightarrow> nat result" where
  "ComputeMinDegreeForPage page_size max_encoded_key_size =
     bindR (guardR (max_encoded_key_size \<noteq> 0) kInvalidArgument) (\<lambda>_.
     let header_size = NodeHeaderSize;
         leaf_entry_size = 4 + max_encoded_key_size + 8;
         internal_bundle_size = 4 + max_encoded_key_size + 8 in
     bindR (guardR (\<not> page_size \<le> header_size + 8) kInvalidArgument) (\<lambda>_.
     let leaf_max_keys = (page_size - header_size) div leaf_entry_size;
         internal_max_keys = (page_size - header_size - 8) div internal_bundle_size;
         max_keys = min leaf_max_keys internal_max_keys in
     bindR (guardR (\<not> max_keys < 3) kInvalidArgument) (\<lambda>_.
       Inr ((max_keys + 1) div 2))))"

definition BStarTree :: "string \<Rightarrow> ValueType \<Rightarrow> nat \<Rightarrow> nat \<Rightarrow> nat \<Rightarrow> bstar_tree" where
  "BStarTree index_file key_type page_size min_degree max_variable_key_payload_bytes =
     (let payload = (case ResolveMaxEncodedKeySize key_type max_variable_key_payload_bytes of Inl _ \<Rightarrow> 0 | Inr n \<Rightarrow> n);
          degree = (if min_degree = 0 \<and> payload \<noteq> 0
            then (case ComputeMinDegreeForPage page_size payload of Inl _ \<Rightarrow> min_degree | Inr n \<Rightarrow> n) else min_degree)
      in \<lparr>bt_index_file = index_file, bt_key_type = key_type, bt_page_size = page_size, bt_min_degree = degree,
          bt_max_key_payload_bytes = payload, bt_page_manager = PageManager index_file page_size, bt_is_open = False,
          bt_metadata = \<lparr>bm_version = kTreeVersion, bm_root_page_id = InvalidPageId,
            bm_first_leaf_page_id = InvalidPageId, bm_min_degree = degree, bm_max_key_payload_bytes = payload,
            bm_tree_height = 0\<rparr>\<rparr>)"

definition ValidateKeyType :: "bstar_tree \<Rightarrow> Value \<Rightarrow> unit result" where
  "ValidateKeyType bt key =
     bindR (guardR (\<not> is_null key) kInvalidArgument) (\<lambda>_.
     bindR (guardR (value_type key = bt_key_type bt) kInvalidArgument) (\<lambda>_.
       guardR (\<not> length (Encode key) > bt_max_key_payload_bytes bt) kInvalidArgument))"

definition ValidateRange :: "bstar_tree \<Rightarrow> KeyRange \<Rightarrow> unit result" where
  "ValidateRange bt rng =
     bindR (case rg_low rng of None \<Rightarrow> Inr () | Some low \<Rightarrow> ValidateKeyType bt low) (\<lambda>_.
     bindR (case rg_high rng of None \<Rightarrow> Inr () | Some high \<Rightarrow> ValidateKeyType bt high) (\<lambda>_.
       case (rg_low rng, rg_high rng) of
         (Some low, Some high) \<Rightarrow> guardR (\<not> high < low) kInvalidArgument
       | _ \<Rightarrow> Inr ()))"

definition MaxKeysPerNode :: "bstar_tree \<Rightarrow> nat" where
  "MaxKeysPerNode bt = 2 * bt_min_degree bt - 1"

definition MinKeysPerNonRootNode :: "bstar_tree \<Rightarrow> nat" where
  "MinKeysPerNonRootNode bt = bt_min_degree bt - 1"

subsection \<open>Page encodings\<close>

definition zero_padded :: "nat \<Rightarrow> bytes \<Rightarrow> bytes" where
  "zero_padded n bs = bs @ replicate (n - length bs) 0"

definition bt_SerializeMetadata :: "bstar_tree \<Rightarrow> bytes" where
  "bt_SerializeMetadata bt =
     (let md = bt_metadata bt;
          out = WriteUint32 kTreeMetadataMagic (bm_version md);
          out = WriteUint32 out (type_ordinal (bt_key_type bt));
          out = WriteUint64 out (bm_root_page_id md);
          out = WriteUint64 out (bm_first_leaf_page_id md);
          out = WriteUint64 out (bm_min_degree md);
          out = WriteUint64 out (bm_max_key_payload_bytes md)
      in WriteUint64 out (bm_tree_height md))"

definition bt_DeserializeMetadata :: "bstar_tree \<Rightarrow> bytes \<Rightarrow> TreeMetadata result" where
  "bt_DeserializeMetadata bt bs =
     bindR (guardR (\<not> length bs < MetadataHeaderSize) kInvalidArgument) (\<lambda>_.
     bindR (guardR (take (length kTreeMetadataMagic) bs = kTreeMetadataMagic) kInvalidArgument) (\<lambda>_.
     bindR (ReadUint32 bs (length kTreeMetadataMagic)) (\<lambda>(version, off).
     bindR (ReadUint32 bs off) (\<lambda>(raw_key_type, off).
     bindR (guardR (version = kTreeVersion) kInvalidArgument) (\<lambda>_.
     bindR (guardR (raw_key_type = type_ordinal (bt_key_type bt)) kInvalidArgument) (\<lambda>_.
     bindR (ReadUint64 bs off) (\<lambda>(root, off).
     bindR (ReadUint64 bs off) (\<lambda>(first_leaf, off).
     bindR (ReadUint64 bs off) (\<lambda>(min_degree, off).
     bindR (guardR (min_degree = bt_min_degree bt) kInvalidArgument) (\<lambda>_.
     bindR (ReadUint64 bs off) (\<lambda>(payload, off).
     bindR (guardR (payload = bt_max_key_payload_bytes bt) kInvalidArgument) (\<lambda>_.
     bindR (ReadUint64 bs off) (\<lambda>(height, _).
       Inr \<lparr>bm_version = version, bm_root_page_id = root, bm_first_leaf_page_id = first_leaf, bm_min_degree = min_degree,
            bm_max_key_payload_bytes = payload, bm_tree_height = height\<rparr>)))))))))))))"

fun node_type_rep :: "NodeType \<Rightarrow> nat" where
  "node_type_rep kInternal = 1"
| "node_type_rep kLeaf = 2"

definition SerializeNodeHeader :: "NodeHeader \<Rightarrow> bytes" where
  "SerializeNodeHeader header =
     (let out = WriteUint32 kTreeNodeMagic (node_type_rep (nh_type header));
          out = WriteUint32 out (nh_key_count header);
          out = WriteUint64 out (nh_parent_page_id header);
          out = WriteUint64 out (nh_next_leaf_page_id header)
      in WriteUint8 out (if nh_is_root header then 1 else 0))"

definition DeserializeNodeHeader :: "bytes \<Rightarrow> NodeHeader result" where
  "DeserializeNodeHeader bs =
     bindR (guardR (\<not> length bs < NodeHeaderSize) kInvalidArgument) (\<lambda>_.
     bindR (guardR (take (length kTreeNodeMagic) bs = kTreeNodeMagic) kInvalidArgument) (\<lambda>_.
     bindR (ReadUint32 bs (length kTreeNodeMagic)) (\<lambda>(raw_type, off).
     bindR (ReadUint32 bs off) (\<lambda>(key_count, off).
     bindR (ReadUint64 bs off) (\<lambda>(parent, off).
     bindR (ReadUint64 bs off) (\<lambda>(next_leaf, off).
     bindR (ReadUint8 bs off) (\<lambda>(is_root, _).
     bindR (guardR (raw_type = node_type_rep kLeaf \<or> raw_type = node_type_rep kInternal) kInvalidArgument) (\<lambda>_.
       Inr \<lparr>nh_type = (if raw_type = node_type_rep kLeaf then kLeaf else kInternal), nh_key_count = key_count,
            nh_parent_page_id = parent, nh_next_leaf_page_id = next_leaf, nh_is_root = (is_root \<noteq> 0)\<rparr>))))))))"

definition SerializeSeparatorKey :: "Value \<Rightarrow> bytes" where
  "SerializeSeparatorKey key = WriteUint32 [] (length (Encode key)) @ Encode key"

definition DeserializeSeparatorKey :: "ValueType \<Rightarrow> bytes \<Rightarrow> nat \<Rightarrow> (Value \<times> nat) result" where
  "DeserializeSeparatorKey key_type bs offset =
     bindR (ReadUint32 bs offset) (\<lambda>(key_size, off).
     bindR (EnsureReadable bs off key_size) (\<lambda>_.
     bindR (Decode (take key_size (drop off bs)) key_type) (\<lambda>key. Inr (key, off + key_size))))"

definition SerializeLeafEntry :: "LeafEntry \<Rightarrow> bytes" where
  "SerializeLeafEntry entry = WriteUint64 (WriteUint32 [] (length (Encode (fst entry))) @ Encode (fst entry)) (snd entry)"

definition DeserializeLeafEntry :: "ValueType \<Rightarrow> bytes \<Rightarrow> nat \<Rightarrow> (LeafEntry \<times> nat) result" where
  "DeserializeLeafEntry key_type bs offset =
     bindR (ReadUint32 bs offset) (\<lambda>(key_size, off).
     bindR (EnsureReadable bs off key_size) (\<lambda>_.
     bindR (Decode (take key_size (drop off bs)) key_type) (\<lambda>key.
     bindR (ReadUint64 bs (off + key_size)) (\<lambda>(rid, off). Inr ((key, rid), off)))))"

definition ParseLeafPage :: "bstar_tree \<Rightarrow> bytes \<Rightarrow> (NodeHeader \<times> LeafEntry list) result" where
  "ParseLeafPage bt page =
     bindR (DeserializeNodeHeader page) (\<lambda>header.
     bindR (guardR (nh_type header = kLeaf) kInvalidArgument) (\<lambda>_.
     bindR (read_n (DeserializeLeafEntry (bt_key_type bt)) (nh_key_count header) page NodeHeaderSize) (\<lambda>(entries, _).
       Inr (header, entries))))"

definition BuildLeafPage :: "bstar_tree \<Rightarrow> NodeHeader \<Rightarrow> LeafEntry list \<Rightarrow> bytes result" where
  "BuildLeafPage bt header entries =
     (let actual_header = header\<lparr>nh_type := kLeaf, nh_key_count := length entries mod 2 ^ 32\<rparr>;
          bs = SerializeNodeHeader actual_header @ concat (map SerializeLeafEntry entries)
      in if length bs > bt_page_size bt then Inl kInvalidArgument else Inr (zero_padded (bt_page_size bt) bs))"

definition DeserializeSepChild :: "ValueType \<Rightarrow> bytes \<Rightarrow> nat \<Rightarrow> ((Value \<times> nat) \<times> nat) result" where
  "DeserializeSepChild key_type bs offset =
     bindR (DeserializeSeparatorKey key_type bs offset) (\<lambda>(separator, off).
     bindR (ReadUint64 bs off) (\<lambda>(child, off). Inr ((separator, child), off)))"

definition ParseInternalPage :: "bstar_tree \<Rightarrow> bytes \<Rightarrow> (NodeHeader \<times> InternalNodeData) result" where
  "ParseInternalPage bt page =
     bindR (DeserializeNodeHeader page) (\<lambda>header.
     bindR (guardR (nh_type header = kInternal) kInvalidArgument) (\<lambda>_.
     bindR (ReadUint64 page NodeHeaderSize) (\<lambda>(first_child, off).
     bindR (read_n (DeserializeSepChild (bt_key_type bt)) (nh_key_count header) page off) (\<lambda>(links, _).
       Inr (header, (map fst links, first_child # map snd links))))))"

definition SerializeSepChild :: "Value \<times> nat \<Rightarrow> bytes" where
  "SerializeSepChild link = WriteUint64 (SerializeSeparatorKey (fst link)) (snd link)"

definition BuildInternalPage :: "bstar_tree \<Rightarrow> NodeHeader \<Rightarrow> InternalNodeData \<Rightarrow> bytes result" where
  "BuildInternalPage bt header node =
     (case node of (separator_keys, child_page_ids) \<Rightarrow>
       bindR (guardR (length child_page_ids = length separator_keys + 1) kInvalidArgument) (\<lambda>_.
       let actual_header = header\<lparr>nh_type := kInternal, nh_key_count := length separator_keys mod 2 ^ 32,
             nh_next_leaf_page_id := InvalidPageId\<rparr>;
           bs = WriteUint64 (SerializeNodeHeader actual_header) (hd child_page_ids)
             @ concat (map SerializeSepChild (zip separator_keys (tl child_page_ids)))
       in if length bs > bt_page_size bt then Inl kInvalidArgument else Inr (zero_padded (bt_page_size bt) bs)))"

subsection \<open>Pages and metadata\<close>

definition bt_pm :: "bt_state \<Rightarrow> pm_state" where
  "bt_pm s = (fst s, bt_page_manager (snd s))"

definition bt_upd_pm :: "pm_state \<Rightarrow> bt_state \<Rightarrow> bt_state" where
  "bt_upd_pm p s = (fst p, (snd s)\<lparr>bt_page_manager := snd p\<rparr>)"

definition on_bpm :: "(pm_state, 'a) stm \<Rightarrow> (bt_state, 'a) stm" where
  "on_bpm m = zoom bt_pm bt_upd_pm m"

definition the_bt :: "(bt_state, bstar_tree) stm" where
  "the_bt = gets snd"

definition bt_ReadPage :: "nat \<Rightarrow> (bt_state, bytes) stm" where
  "bt_ReadPage pid = on_bpm (ReadPage pid)"

definition bt_WritePage :: "nat \<Rightarrow> bytes \<Rightarrow> (bt_state, unit) stm" where
  "bt_WritePage pid data = bindS (on_bpm (WritePage pid data)) (\<lambda>_. on_bpm pm_Flush)"

definition AllocateNodePage :: "(bt_state, nat) stm" where
  "AllocateNodePage = bindS (on_bpm AllocatePage) (\<lambda>pid. bindS (on_bpm pm_Flush) (\<lambda>_. ret pid))"

text \<open>The idioms \<^verbatim>\<open>Parse...Page(page, ...)\<close> and \<^verbatim>\<open>Build...Page(...); WritePage(...)\<close>.\<close>

definition parse_leaf :: "bytes \<Rightarrow> (bt_state, NodeHeader \<times> LeafEntry list) stm" where
  "parse_leaf page = bindS the_bt (\<lambda>bt. liftR (ParseLeafPage bt page))"

definition parse_internal :: "bytes \<Rightarrow> (bt_state, NodeHeader \<times> InternalNodeData) stm" where
  "parse_internal page = bindS the_bt (\<lambda>bt. liftR (ParseInternalPage bt page))"

definition write_leaf :: "nat \<Rightarrow> NodeHeader \<Rightarrow> LeafEntry list \<Rightarrow> (bt_state, unit) stm" where
  "write_leaf pid header entries =
     bindS the_bt (\<lambda>bt. bindS (liftR (BuildLeafPage bt header entries)) (\<lambda>page. bt_WritePage pid page))"

definition write_internal :: "nat \<Rightarrow> NodeHeader \<Rightarrow> InternalNodeData \<Rightarrow> (bt_state, unit) stm" where
  "write_internal pid header node =
     bindS the_bt (\<lambda>bt. bindS (liftR (BuildInternalPage bt header node)) (\<lambda>page. bt_WritePage pid page))"

definition read_leaf :: "nat \<Rightarrow> (bt_state, NodeHeader \<times> LeafEntry list) stm" where
  "read_leaf pid = bindS (bt_ReadPage pid) parse_leaf"

definition read_internal :: "nat \<Rightarrow> (bt_state, NodeHeader \<times> InternalNodeData) stm" where
  "read_internal pid = bindS (bt_ReadPage pid) parse_internal"

definition bt_WriteMetadata :: "(bt_state, unit) stm" where
  "bt_WriteMetadata =
     bindS the_bt (\<lambda>bt.
     let bs = bt_SerializeMetadata bt in
     bindS (guardS (\<not> length bs > bt_page_size bt) kInternalError) (\<lambda>_.
       bt_WritePage 0 (zero_padded (bt_page_size bt) bs)))"

definition set_metadata :: "(TreeMetadata \<Rightarrow> TreeMetadata) \<Rightarrow> (bt_state, unit) stm" where
  "set_metadata f = on_obj (\<lambda>bt. bt\<lparr>bt_metadata := f (bt_metadata bt)\<rparr>)"

definition InitializeTree :: "(bt_state, unit) stm" where
  "InitializeTree =
     bindS (on_bpm AllocatePage) (\<lambda>metadata_page_id.
     bindS (guardS (metadata_page_id = 0) kInternalError) (\<lambda>_.
     bindS the_bt (\<lambda>bt.
     bindS (set_metadata (\<lambda>_. \<lparr>bm_version = kTreeVersion, bm_root_page_id = InvalidPageId,
         bm_first_leaf_page_id = InvalidPageId, bm_min_degree = bt_min_degree bt,
         bm_max_key_payload_bytes = bt_max_key_payload_bytes bt, bm_tree_height = 0\<rparr>)) (\<lambda>_.
       bt_WriteMetadata))))"

text \<open>
  The out-parameter of \<open>DeserializeMetadata\<close> is the member \<open>metadata_\<close> itself, which a failing load may leave half
  filled; the object is then not open and no method reads it, so the model leaves it as it was.
\<close>

definition LoadMetadata :: "(bt_state, unit) stm" where
  "LoadMetadata =
     bindS (bt_ReadPage 0) (\<lambda>page.
     bindS the_bt (\<lambda>bt.
     bindS (liftR (bt_DeserializeMetadata bt page)) (\<lambda>md. set_metadata (\<lambda>_. md))))"

definition bt_Open :: "(bt_state, unit) stm" where
  "bt_Open =
     bindS the_bt (\<lambda>bt.
       if bt_is_open bt then ret ()
       else
         bindS (guardS (bt_index_file bt \<noteq> []) kInvalidArgument) (\<lambda>_.
         bindS (guardS (bt_max_key_payload_bytes bt \<noteq> 0) kInvalidArgument) (\<lambda>_.
         bindS (guardS (\<not> bt_min_degree bt < 2) kInvalidArgument) (\<lambda>_.
         bindS (on_bpm pm_Open) (\<lambda>_.
         bindS (\<lambda>s. case on_bpm (ReadPage 0) s of
               (Inl e, s') \<Rightarrow> if e \<noteq> kNotFound then (Inl e, s') else InitializeTree s'
             | (Inr _, s') \<Rightarrow> LoadMetadata s') (\<lambda>_.
           on_obj (\<lambda>bt. bt\<lparr>bt_is_open := True\<rparr>)))))))"

subsection \<open>Searching\<close>

text \<open>\<open>lower_bound\<close>: the number of leading entries with a smaller key.\<close>

definition FindEntryPosition :: "LeafEntry list \<Rightarrow> Value \<Rightarrow> nat" where
  "FindEntryPosition entries key = length (takeWhile (\<lambda>e. fst e < key) entries)"

fun choose_child_from :: "nat \<Rightarrow> Value list \<Rightarrow> Value \<Rightarrow> nat" where
  "choose_child_from i [] key = i"
| "choose_child_from i (sep # seps) key = (if key < sep then i else choose_child_from (Suc i) seps key)"

definition ChooseChildIndex :: "Value list \<Rightarrow> Value \<Rightarrow> nat" where
  "ChooseChildIndex separator_keys key = choose_child_from 0 separator_keys key"

definition entry_at :: "LeafEntry list \<Rightarrow> Value \<Rightarrow> nat option" where
  "entry_at entries key =
     (let pos = FindEntryPosition entries key in
       if pos < length entries \<and> fst (entries ! pos) = key then Some (snd (entries ! pos)) else None)"

definition not_returning :: "(bt_state, 'a) stm" where
  "not_returning = throw kInternalError"

definition visit_bound :: "(bt_state, nat) stm" where
  "visit_bound = gets (\<lambda>s. pm_page_count (bt_page_manager (snd s)) + 1)"

primrec descend :: "nat \<Rightarrow> Value \<Rightarrow> SearchPathEntry list \<Rightarrow> nat \<Rightarrow>
    (bt_state, SearchPathEntry list \<times> nat \<times> nat option) stm" where
  "descend 0 key path pid = not_returning"
| "descend (Suc fuel) key path pid =
     bindS (bt_ReadPage pid) (\<lambda>page.
     bindS (liftR (DeserializeNodeHeader page)) (\<lambda>header.
       if nh_type header = kLeaf then
         bindS (parse_leaf page) (\<lambda>(_, entries). ret (path, pid, entry_at entries key))
       else
         bindS (parse_internal page) (\<lambda>(_, seps, children).
         let child_index = ChooseChildIndex seps key in
           descend fuel key ((pid, child_index) # path) (children ! child_index))))"

definition FindPathToLeaf :: "Value \<Rightarrow> (bt_state, SearchPathEntry list \<times> nat \<times> nat option) stm" where
  "FindPathToLeaf key =
     bindS the_bt (\<lambda>bt.
       if bm_root_page_id (bt_metadata bt) = InvalidPageId then ret ([], InvalidPageId, None)
       else bindS visit_bound (\<lambda>n. descend n key [] (bm_root_page_id (bt_metadata bt))))"

primrec find_minimum :: "nat \<Rightarrow> nat \<Rightarrow> (bt_state, Value) stm" where
  "find_minimum 0 pid = not_returning"
| "find_minimum (Suc fuel) pid =
     bindS (bt_ReadPage pid) (\<lambda>page.
     bindS (liftR (DeserializeNodeHeader page)) (\<lambda>header.
       if nh_type header = kLeaf then
         bindS (parse_leaf page) (\<lambda>(_, entries).
         bindS (guardS (entries \<noteq> []) kInternalError) (\<lambda>_. ret (fst (hd entries))))
       else
         bindS (parse_internal page) (\<lambda>(_, _, children). find_minimum fuel (hd children))))"

definition FindMinimumKey :: "nat \<Rightarrow> (bt_state, Value) stm" where
  "FindMinimumKey subtree_root =
     bindS (guardS (subtree_root \<noteq> InvalidPageId) kInvalidArgument) (\<lambda>_.
     bindS visit_bound (\<lambda>n. find_minimum n subtree_root))"

definition bt_Find :: "Value \<Rightarrow> (bt_state, nat option) stm" where
  "bt_Find key =
     bindS the_bt (\<lambda>bt.
     bindS (guardS (bt_is_open bt) kInternalError) (\<lambda>_.
     bindS (liftR (ValidateKeyType bt key)) (\<lambda>_.
       if bm_root_page_id (bt_metadata bt) = InvalidPageId then ret None
       else bindS (FindPathToLeaf key) (\<lambda>(_, _, existing_rid). ret existing_rid))))"

text \<open>The body of the range loop on one leaf: the collected ids and whether the upper bound was passed.\<close>

fun range_leaf :: "KeyRange \<Rightarrow> LeafEntry list \<Rightarrow> nat list \<times> bool" where
  "range_leaf rng [] = ([], False)"
| "range_leaf rng (e # es) =
     (let past = (case rg_high rng of None \<Rightarrow> False
            | Some high \<Rightarrow> if rg_include_high rng then fst e > high else \<not> fst e < high) in
       if past then ([], True)
       else case range_leaf rng es of (rids, stop) \<Rightarrow>
         (if FitsInRange (fst e) rng then snd e # rids else rids, stop))"

primrec range_walk :: "nat \<Rightarrow> KeyRange \<Rightarrow> nat \<Rightarrow> (bt_state, nat list) stm" where
  "range_walk 0 rng pid = not_returning"
| "range_walk (Suc fuel) rng pid =
     (if pid = InvalidPageId then ret []
      else
        bindS (read_leaf pid) (\<lambda>(header, entries).
        case range_leaf rng entries of (rids, stop) \<Rightarrow>
          if stop then ret rids
          else bindS (range_walk fuel rng (nh_next_leaf_page_id header)) (\<lambda>rest. ret (rids @ rest))))"

definition bt_RangeSearch :: "KeyRange \<Rightarrow> (bt_state, nat list) stm" where
  "bt_RangeSearch rng =
     bindS the_bt (\<lambda>bt.
     bindS (guardS (bt_is_open bt) kInternalError) (\<lambda>_.
     bindS (liftR (ValidateRange bt rng)) (\<lambda>_.
       if bm_root_page_id (bt_metadata bt) = InvalidPageId then ret []
       else
         bindS (case rg_low rng of
             None \<Rightarrow> ret (bm_first_leaf_page_id (bt_metadata bt))
           | Some low \<Rightarrow> bindS (FindPathToLeaf low) (\<lambda>(_, leaf, _). ret leaf)) (\<lambda>start.
         bindS visit_bound (\<lambda>n. range_walk (n + 1) rng start)))))"

subsection \<open>Insertion\<close>

definition insert_at :: "nat \<Rightarrow> 'a \<Rightarrow> 'a list \<Rightarrow> 'a list" where
  "insert_at i x xs = take i xs @ x # drop i xs"

definition erase_at :: "nat \<Rightarrow> 'a list \<Rightarrow> 'a list" where
  "erase_at i xs = take i xs @ drop (Suc i) xs"

definition root_node_header :: "NodeType \<Rightarrow> NodeHeader" where
  "root_node_header t = \<lparr>nh_type = t, nh_key_count = 0, nh_parent_page_id = InvalidPageId,
     nh_next_leaf_page_id = InvalidPageId, nh_is_root = True\<rparr>"

fun UpdateParentSeparatorAfterChildChange :: "SearchPathEntry list \<Rightarrow> Value \<Rightarrow> (bt_state, unit) stm" where
  "UpdateParentSeparatorAfterChildChange [] replacement_key = ret ()"
| "UpdateParentSeparatorAfterChildChange ((page_id, child_index) # path) replacement_key =
     (if child_index = 0 then UpdateParentSeparatorAfterChildChange path replacement_key
      else
        bindS (read_internal page_id) (\<lambda>(header, seps, children).
          write_internal page_id header (seps[child_index - 1 := replacement_key], children)))"

text \<open>
  Rewriting the parent pointer of a child. The code sets \<open>parent_page_id\<close> in the header it has read and then parses the
  page into the same header, so the page is written back with the parent pointer it had.
\<close>

definition rewrite_parent :: "nat \<Rightarrow> nat \<Rightarrow> (bt_state, unit) stm" where
  "rewrite_parent parent_page_id child_page_id =
     bindS (bt_ReadPage child_page_id) (\<lambda>page.
     bindS (liftR (DeserializeNodeHeader page)) (\<lambda>header.
       if nh_type header = kLeaf then
         bindS (parse_leaf page) (\<lambda>(header, entries). write_leaf child_page_id header entries)
       else
         bindS (parse_internal page) (\<lambda>(header, node). write_internal child_page_id header node)))"

definition rewrite_child_parent :: "nat list \<Rightarrow> nat \<Rightarrow> (bt_state, unit) stm" where
  "rewrite_child_parent child_page_ids parent_page_id = forS child_page_ids (rewrite_parent parent_page_id)"

definition parent_of :: "SearchPathEntry list \<Rightarrow> nat" where
  "parent_of path = (case path of [] \<Rightarrow> InvalidPageId | (page_id, _) # _ \<Rightarrow> page_id)"

definition RedistributeLeafWithRightSibling ::
    "nat \<Rightarrow> SearchPathEntry list \<Rightarrow> LeafEntry list \<Rightarrow> (bt_state, bool) stm" where
  "RedistributeLeafWithRightSibling leaf_page_id path expanded_leaf =
     (case path of [] \<Rightarrow> ret False
      | (parent_id, child_index) # _ \<Rightarrow>
     bindS (read_internal parent_id) (\<lambda>(parent_header, seps, children).
       if child_index + 1 \<ge> length children then ret False
       else
     let right_page_id = children ! (child_index + 1) in
     bindS (bt_ReadPage leaf_page_id) (\<lambda>current_page.
     bindS (bt_ReadPage right_page_id) (\<lambda>right_page.
     bindS (parse_leaf current_page) (\<lambda>(current_header, _).
     bindS (parse_leaf right_page) (\<lambda>(right_header, right_leaf).
     bindS the_bt (\<lambda>bt.
     let combined = expanded_leaf @ right_leaf;
         min_keys = MinKeysPerNonRootNode bt; max_keys = MaxKeysPerNode bt;
         fits = (\<lambda>left_count right_count.
           \<not> (left_count < min_keys \<or> left_count > max_keys) \<and> \<not> (right_count < min_keys \<or> right_count > max_keys) \<and>
           \<not> isl (BuildLeafPage bt current_header (take left_count combined)) \<and>
           \<not> isl (BuildLeafPage bt right_header (drop left_count combined))) in
     case ChooseBalancedSplit (length combined) fits of None \<Rightarrow> ret False
     | Some split_index \<Rightarrow>
     let left_leaf = take split_index combined; new_right_leaf = drop split_index combined in
     bindS (write_leaf leaf_page_id (current_header\<lparr>nh_next_leaf_page_id := right_page_id\<rparr>) left_leaf) (\<lambda>_.
     bindS (write_leaf right_page_id right_header new_right_leaf) (\<lambda>_.
     bindS (write_internal parent_id parent_header (seps[child_index := fst (hd new_right_leaf)], children)) (\<lambda>_.
     bindS (if child_index = 0 \<and> left_leaf \<noteq> [] then UpdateParentSeparatorAfterChildChange path (fst (hd left_leaf))
            else ret ()) (\<lambda>_.
       ret True)))))))))))"

text \<open>The middle key of two internal siblings: the loop keeps the best candidate so far with its distance.\<close>

fun choose_middle_loop :: "(nat \<Rightarrow> nat \<Rightarrow> bool) \<Rightarrow> nat \<Rightarrow> nat list \<Rightarrow> (nat \<times> nat) option \<Rightarrow> (nat \<times> nat) option" where
  "choose_middle_loop fits n [] best = best"
| "choose_middle_loop fits n (middle # ms) best =
     (let right_count = n - middle - 1;
          dist = (if middle > right_count then middle - right_count else right_count - middle)
      in if \<not> fits middle right_count then choose_middle_loop fits n ms best
         else choose_middle_loop fits n ms
           (case best of None \<Rightarrow> Some (middle, dist)
            | Some (b, d) \<Rightarrow> if dist < d then Some (middle, dist) else Some (b, d)))"

definition RedistributeInternalWithRightSibling ::
    "nat \<Rightarrow> SearchPathEntry list \<Rightarrow> InternalNodeData \<Rightarrow> (bt_state, bool) stm" where
  "RedistributeInternalWithRightSibling internal_page_id path expanded_internal =
     (case path of [] \<Rightarrow> ret False
      | (parent_id, child_index) # _ \<Rightarrow>
     bindS (read_internal parent_id) (\<lambda>(parent_header, seps, children).
       if child_index + 1 \<ge> length children then ret False
       else
     let right_page_id = children ! (child_index + 1) in
     bindS (bt_ReadPage internal_page_id) (\<lambda>current_page.
     bindS (bt_ReadPage right_page_id) (\<lambda>right_page.
     bindS (parse_internal current_page) (\<lambda>(current_header, _).
     bindS (parse_internal right_page) (\<lambda>(right_header, right_seps, right_children).
     bindS the_bt (\<lambda>bt.
     let all_keys = fst expanded_internal @ [seps ! child_index] @ right_seps;
         all_children = snd expanded_internal @ right_children;
         min_keys = MinKeysPerNonRootNode bt; max_keys = MaxKeysPerNode bt;
         left_of = (\<lambda>m. (take m all_keys, take (m + 1) all_children));
         right_of = (\<lambda>m. (drop (m + 1) all_keys, drop (m + 1) all_children));
         fits = (\<lambda>middle right_count. \<not> (middle > max_keys \<or> right_count < min_keys \<or> right_count > max_keys) \<and>
           \<not> isl (BuildInternalPage bt current_header (left_of middle)) \<and>
           \<not> isl (BuildInternalPage bt right_header (right_of middle))) in
     case choose_middle_loop fits (length all_keys) [min_keys..<length all_keys] None of None \<Rightarrow> ret False
     | Some (middle, _) \<Rightarrow>
     bindS (write_internal internal_page_id current_header (left_of middle)) (\<lambda>_.
     bindS (write_internal right_page_id right_header (right_of middle)) (\<lambda>_.
     bindS (write_internal parent_id parent_header (seps[child_index := all_keys ! middle], children)) (\<lambda>_.
     bindS (rewrite_child_parent (snd (left_of middle)) internal_page_id) (\<lambda>_.
     bindS (rewrite_child_parent (snd (right_of middle)) right_page_id) (\<lambda>_.
       ret True))))))))))))"

definition SplitInternal :: "(nat \<Rightarrow> nat \<Rightarrow> Value \<Rightarrow> nat \<Rightarrow> (bt_state, unit) stm) \<Rightarrow>
    nat \<Rightarrow> SearchPathEntry list \<Rightarrow> InternalNodeData \<Rightarrow> (bt_state, unit) stm" where
  "SplitInternal insert_parent internal_page_id path expanded_internal =
     bindS the_bt (\<lambda>bt.
     bindS (guardS (length (fst expanded_internal) = MaxKeysPerNode bt + 1) kInternalError) (\<lambda>_.
     bindS (read_internal internal_page_id) (\<lambda>(current_header, _).
     let middle = bt_min_degree bt - 1;
         promoted = fst expanded_internal ! middle;
         left_internal = (take middle (fst expanded_internal), take (middle + 1) (snd expanded_internal));
         right_internal = (drop (middle + 1) (fst expanded_internal), drop (middle + 1) (snd expanded_internal)) in
     bindS (guardS (\<not> (snd left_internal = [] \<or> snd right_internal = [])) kInternalError) (\<lambda>_.
     bindS AllocateNodePage (\<lambda>right_page_id.
     let header = current_header\<lparr>nh_is_root := False, nh_parent_page_id := parent_of path, nh_next_leaf_page_id := InvalidPageId\<rparr> in
     case path of
       [] \<Rightarrow>
         bindS AllocateNodePage (\<lambda>root_page_id.
         let header = header\<lparr>nh_parent_page_id := root_page_id\<rparr> in
         bindS (write_internal internal_page_id header left_internal) (\<lambda>_.
         bindS (write_internal right_page_id header right_internal) (\<lambda>_.
         bindS (rewrite_child_parent (snd left_internal) internal_page_id) (\<lambda>_.
         bindS (rewrite_child_parent (snd right_internal) right_page_id) (\<lambda>_.
         bindS (write_internal root_page_id (root_node_header kInternal) ([promoted], [internal_page_id, right_page_id])) (\<lambda>_.
         bindS (set_metadata (\<lambda>md. md\<lparr>bm_root_page_id := root_page_id,
             bm_tree_height := (bm_tree_height md + 1) mod 2 ^ 64\<rparr>)) (\<lambda>_.
           bt_WriteMetadata)))))))
     | (parent_id, child_index) # _ \<Rightarrow>
         bindS (write_internal internal_page_id header left_internal) (\<lambda>_.
         bindS (write_internal right_page_id header right_internal) (\<lambda>_.
         bindS (rewrite_child_parent (snd left_internal) internal_page_id) (\<lambda>_.
         bindS (rewrite_child_parent (snd right_internal) right_page_id) (\<lambda>_.
           insert_parent parent_id child_index promoted right_page_id)))))))))"

fun InsertIntoInternal :: "SearchPathEntry list \<Rightarrow> nat \<Rightarrow> nat \<Rightarrow> Value \<Rightarrow> nat \<Rightarrow> (bt_state, unit) stm" where
  "InsertIntoInternal path internal_page_id left_child_index separator_key right_child_page_id =
     bindS (read_internal internal_page_id) (\<lambda>(header, seps, children).
     bindS the_bt (\<lambda>bt.
     let node = (insert_at left_child_index separator_key seps,
                 insert_at (left_child_index + 1) right_child_page_id children) in
       if length (fst node) \<le> MaxKeysPerNode bt then
         bindS (write_internal internal_page_id header node) (\<lambda>_.
           rewrite_parent internal_page_id right_child_page_id)
       else
         bindS (RedistributeInternalWithRightSibling internal_page_id path node) (\<lambda>redistributed.
           if redistributed then ret ()
           else SplitInternal (case path of [] \<Rightarrow> (\<lambda>_ _ _ _. ret ()) | _ # parent_path \<Rightarrow> InsertIntoInternal parent_path)
             internal_page_id path node)))"

definition SplitLeaf :: "nat \<Rightarrow> SearchPathEntry list \<Rightarrow> LeafEntry list \<Rightarrow> (bt_state, unit) stm" where
  "SplitLeaf leaf_page_id path expanded_leaf =
     bindS the_bt (\<lambda>bt.
     bindS (guardS (length expanded_leaf = MaxKeysPerNode bt + 1) kInternalError) (\<lambda>_.
     bindS (read_leaf leaf_page_id) (\<lambda>(current_header, _).
     let split_index = bt_min_degree bt;
         left_leaf = take split_index expanded_leaf; right_leaf = drop split_index expanded_leaf in
     bindS (guardS (\<not> (left_leaf = [] \<or> right_leaf = [])) kInternalError) (\<lambda>_.
     bindS AllocateNodePage (\<lambda>right_page_id.
     let left_header = current_header\<lparr>nh_is_root := False, nh_parent_page_id := parent_of path,
           nh_next_leaf_page_id := right_page_id\<rparr>;
         right_header = current_header\<lparr>nh_is_root := False, nh_parent_page_id := parent_of path\<rparr> in
     case path of
       [] \<Rightarrow>
         bindS AllocateNodePage (\<lambda>root_page_id.
         bindS (write_leaf leaf_page_id (left_header\<lparr>nh_parent_page_id := root_page_id\<rparr>) left_leaf) (\<lambda>_.
         bindS (write_leaf right_page_id (right_header\<lparr>nh_parent_page_id := root_page_id\<rparr>) right_leaf) (\<lambda>_.
         bindS (write_internal root_page_id (root_node_header kInternal)
             ([fst (hd right_leaf)], [leaf_page_id, right_page_id])) (\<lambda>_.
         bindS (set_metadata (\<lambda>md. md\<lparr>bm_root_page_id := root_page_id, bm_first_leaf_page_id := leaf_page_id,
             bm_tree_height := (bm_tree_height md + 1) mod 2 ^ 64\<rparr>)) (\<lambda>_.
           bt_WriteMetadata)))))
     | (parent_id, child_index) # parent_path \<Rightarrow>
         bindS (write_leaf leaf_page_id left_header left_leaf) (\<lambda>_.
         bindS (write_leaf right_page_id right_header right_leaf) (\<lambda>_.
           InsertIntoInternal parent_path parent_id child_index (fst (hd right_leaf)) right_page_id)))))))"

definition InsertIntoLeaf :: "nat \<Rightarrow> SearchPathEntry list \<Rightarrow> Value \<Rightarrow> nat \<Rightarrow> (bt_state, unit) stm" where
  "InsertIntoLeaf leaf_page_id path key rid =
     bindS (read_leaf leaf_page_id) (\<lambda>(header, leaf).
     bindS the_bt (\<lambda>bt.
     let pos = FindEntryPosition leaf key; entries = insert_at pos (key, rid) leaf in
       if length entries \<le> MaxKeysPerNode bt then
         bindS (write_leaf leaf_page_id header entries) (\<lambda>_.
           if pos = 0 then UpdateParentSeparatorAfterChildChange path (fst (hd entries)) else ret ())
       else
         bindS (RedistributeLeafWithRightSibling leaf_page_id path entries) (\<lambda>redistributed.
           if redistributed then ret () else SplitLeaf leaf_page_id path entries)))"

definition bt_Insert :: "Value \<Rightarrow> nat \<Rightarrow> (bt_state, unit) stm" where
  "bt_Insert key rid =
     bindS the_bt (\<lambda>bt.
     bindS (guardS (bt_is_open bt) kInternalError) (\<lambda>_.
     bindS (liftR (ValidateKeyType bt key)) (\<lambda>_.
       if bm_root_page_id (bt_metadata bt) = InvalidPageId then
         bindS AllocateNodePage (\<lambda>root_page_id.
         bindS (write_leaf root_page_id (root_node_header kLeaf) [(key, rid)]) (\<lambda>_.
         bindS (set_metadata (\<lambda>md. md\<lparr>bm_root_page_id := root_page_id, bm_first_leaf_page_id := root_page_id,
             bm_tree_height := 1\<rparr>)) (\<lambda>_.
           bt_WriteMetadata)))
       else
         bindS (FindPathToLeaf key) (\<lambda>(path, leaf_page_id, existing_rid).
         bindS (guardS (existing_rid = None) kAlreadyExists) (\<lambda>_.
           InsertIntoLeaf leaf_page_id path key rid)))))"

subsection \<open>Deletion\<close>

definition IsLeafUnderfull :: "bstar_tree \<Rightarrow> NodeHeader \<Rightarrow> LeafEntry list \<Rightarrow> bool" where
  "IsLeafUnderfull bt header leaf \<longleftrightarrow> \<not> nh_is_root header \<and> length leaf < MinKeysPerNonRootNode bt"

definition IsInternalUnderfull :: "bstar_tree \<Rightarrow> NodeHeader \<Rightarrow> InternalNodeData \<Rightarrow> bool" where
  "IsInternalUnderfull bt header node \<longleftrightarrow> \<not> nh_is_root header \<and> length (fst node) < MinKeysPerNonRootNode bt"

text \<open>The first argument is \<open>RebalanceAfterDelete\<close> on the parent's path.\<close>

definition MergeLeafWithRightSibling :: "(nat \<Rightarrow> (bt_state, unit) stm) \<Rightarrow> nat \<Rightarrow> SearchPathEntry list \<Rightarrow> (bt_state, bool) stm" where
  "MergeLeafWithRightSibling rebalance_parent leaf_page_id path =
     (case path of [] \<Rightarrow> ret False
      | (parent_id, child_index) # _ \<Rightarrow>
     bindS (read_internal parent_id) (\<lambda>(parent_header, seps, children).
       if child_index + 1 \<ge> length children then ret False
       else
     let right_page_id = children ! (child_index + 1) in
     bindS (bt_ReadPage leaf_page_id) (\<lambda>left_page.
     bindS (bt_ReadPage right_page_id) (\<lambda>right_page.
     bindS (parse_leaf left_page) (\<lambda>(left_header, left_leaf).
     bindS (parse_leaf right_page) (\<lambda>(right_header, right_leaf).
     bindS the_bt (\<lambda>bt.
     let merged = left_leaf @ right_leaf;
         left_header = left_header\<lparr>nh_next_leaf_page_id := nh_next_leaf_page_id right_header\<rparr> in
     case BuildLeafPage bt left_header merged of Inl _ \<Rightarrow> ret False
     | Inr rebuilt_left_page \<Rightarrow>
     bindS (bt_WritePage leaf_page_id rebuilt_left_page) (\<lambda>_.
     let parent_node = (erase_at child_index seps, erase_at (child_index + 1) children) in
       if nh_is_root parent_header \<and> fst parent_node = [] then
         bindS (write_leaf leaf_page_id (left_header\<lparr>nh_parent_page_id := InvalidPageId, nh_is_root := True\<rparr>) merged) (\<lambda>_.
         bindS (set_metadata (\<lambda>md. md\<lparr>bm_root_page_id := leaf_page_id, bm_first_leaf_page_id := leaf_page_id,
             bm_tree_height := 1\<rparr>)) (\<lambda>_.
         bindS bt_WriteMetadata (\<lambda>_. ret True)))
       else
         bindS (write_internal parent_id parent_header parent_node) (\<lambda>_.
         bindS (if \<not> nh_is_root parent_header \<and> length (fst parent_node) < MinKeysPerNonRootNode bt
            then rebalance_parent parent_id else ret ()) (\<lambda>_.
           ret True))))))))))"

definition MergeInternalWithRightSibling :: "(nat \<Rightarrow> (bt_state, unit) stm) \<Rightarrow> nat \<Rightarrow> SearchPathEntry list \<Rightarrow> (bt_state, bool) stm" where
  "MergeInternalWithRightSibling rebalance_parent internal_page_id path =
     (case path of [] \<Rightarrow> ret False
      | (parent_id, child_index) # _ \<Rightarrow>
     bindS (read_internal parent_id) (\<lambda>(parent_header, seps, children).
       if child_index + 1 \<ge> length children then ret False
       else
     let right_page_id = children ! (child_index + 1) in
     bindS (bt_ReadPage internal_page_id) (\<lambda>left_page.
     bindS (bt_ReadPage right_page_id) (\<lambda>right_page.
     bindS (parse_internal left_page) (\<lambda>(left_header, left_seps, left_children).
     bindS (parse_internal right_page) (\<lambda>(_, right_seps, right_children).
     bindS the_bt (\<lambda>bt.
     let merged = (left_seps @ [seps ! child_index] @ right_seps, left_children @ right_children) in
     case BuildInternalPage bt left_header merged of Inl _ \<Rightarrow> ret False
     | Inr rebuilt_left_page \<Rightarrow>
     bindS (bt_WritePage internal_page_id rebuilt_left_page) (\<lambda>_.
     bindS (rewrite_child_parent (snd merged) internal_page_id) (\<lambda>_.
     let parent_node = (erase_at child_index seps, erase_at (child_index + 1) children) in
       if nh_is_root parent_header \<and> fst parent_node = [] then
         bindS (write_internal internal_page_id (left_header\<lparr>nh_parent_page_id := InvalidPageId, nh_is_root := True\<rparr>) merged) (\<lambda>_.
         bindS (set_metadata (\<lambda>md. md\<lparr>bm_root_page_id := internal_page_id,
             bm_tree_height := (if bm_tree_height md > 0 then bm_tree_height md - 1 else bm_tree_height md)\<rparr>)) (\<lambda>_.
         bindS bt_WriteMetadata (\<lambda>_. ret True)))
       else
         bindS (write_internal parent_id parent_header parent_node) (\<lambda>_.
         bindS (if \<not> nh_is_root parent_header \<and> length (fst parent_node) < MinKeysPerNonRootNode bt
            then rebalance_parent parent_id else ret ()) (\<lambda>_.
           ret True)))))))))))"

text \<open>Sharing with or merging into a right sibling, as both halves of \<open>RebalanceAfterDelete\<close> do it for a node on a page.\<close>

definition share_right :: "nat \<Rightarrow> SearchPathEntry list \<Rightarrow> NodeType \<Rightarrow> bytes \<Rightarrow> (bt_state, bool) stm" where
  "share_right page_id path node_type page =
     (if node_type = kLeaf
      then bindS (parse_leaf page) (\<lambda>(_, leaf). RedistributeLeafWithRightSibling page_id path leaf)
      else bindS (parse_internal page) (\<lambda>(_, node). RedistributeInternalWithRightSibling page_id path node))"

definition merge_right :: "(nat \<Rightarrow> (bt_state, unit) stm) \<Rightarrow> nat \<Rightarrow> SearchPathEntry list \<Rightarrow> NodeType \<Rightarrow> (bt_state, bool) stm" where
  "merge_right rebalance_parent page_id path node_type =
     (if node_type = kLeaf then MergeLeafWithRightSibling rebalance_parent page_id path
      else MergeInternalWithRightSibling rebalance_parent page_id path)"

fun RebalanceAfterDelete :: "SearchPathEntry list \<Rightarrow> nat \<Rightarrow> (bt_state, unit) stm" where
  "RebalanceAfterDelete [] page_id = ret ()"
| "RebalanceAfterDelete ((parent_id, child_index) # parent_path) page_id =
     bindS (bt_ReadPage page_id) (\<lambda>current_page.
     bindS (liftR (DeserializeNodeHeader current_page)) (\<lambda>current_header.
     bindS the_bt (\<lambda>bt.
     bindS (if nh_type current_header = kLeaf
        then bindS (parse_leaf current_page) (\<lambda>(header, leaf). ret (IsLeafUnderfull bt header leaf))
        else bindS (parse_internal current_page) (\<lambda>(header, node). ret (IsInternalUnderfull bt header node))) (\<lambda>underfull.
     if \<not> underfull then ret ()
     else
     bindS (read_internal parent_id) (\<lambda>(_, _, children).
     let path = (parent_id, child_index) # parent_path;
         left_path = (parent_id, child_index - 1) # parent_path;
         rebalance_parent = RebalanceAfterDelete parent_path in
     bindS (if child_index + 1 < length children then
         bindS (share_right page_id path (nh_type current_header) current_page) (\<lambda>redistributed.
           if redistributed then ret True
           else merge_right rebalance_parent page_id path (nh_type current_header))
       else ret False) (\<lambda>done_right.
     if done_right \<or> child_index = 0 then ret ()
     else
     let left_sibling_page_id = children ! (child_index - 1) in
     bindS (bt_ReadPage left_sibling_page_id) (\<lambda>left_page.
     bindS (liftR (DeserializeNodeHeader left_page)) (\<lambda>left_header.
     bindS (share_right left_sibling_page_id left_path (nh_type left_header) left_page) (\<lambda>redistributed.
     if redistributed then ret ()
     else bindS (merge_right rebalance_parent left_sibling_page_id left_path (nh_type left_header)) (\<lambda>_. ret ()))))))))))"

definition DeleteFromLeaf :: "nat \<Rightarrow> SearchPathEntry list \<Rightarrow> Value \<Rightarrow> (bt_state, unit) stm" where
  "DeleteFromLeaf leaf_page_id path key =
     bindS (read_leaf leaf_page_id) (\<lambda>(header, leaf).
     bindS the_bt (\<lambda>bt.
     let pos = FindEntryPosition leaf key in
     bindS (guardS (\<not> (pos \<ge> length leaf \<or> fst (leaf ! pos) \<noteq> key)) kNotFound) (\<lambda>_.
     let entries = erase_at pos leaf in
       if nh_is_root header then
         if entries = [] then
           bindS (set_metadata (\<lambda>md. md\<lparr>bm_root_page_id := InvalidPageId, bm_first_leaf_page_id := InvalidPageId,
               bm_tree_height := 0\<rparr>)) (\<lambda>_. bt_WriteMetadata)
         else
           bindS (write_leaf leaf_page_id header entries) (\<lambda>_.
             if pos = 0 then UpdateParentSeparatorAfterChildChange path (fst (hd entries)) else ret ())
       else
         bindS (write_leaf leaf_page_id header entries) (\<lambda>_.
         bindS (if entries \<noteq> [] \<and> pos = 0 then UpdateParentSeparatorAfterChildChange path (fst (hd entries)) else ret ()) (\<lambda>_.
           if IsLeafUnderfull bt header entries then RebalanceAfterDelete path leaf_page_id else ret ())))))"

definition bt_Delete :: "Value \<Rightarrow> (bt_state, unit) stm" where
  "bt_Delete key =
     bindS the_bt (\<lambda>bt.
     bindS (guardS (bt_is_open bt) kInternalError) (\<lambda>_.
     bindS (liftR (ValidateKeyType bt key)) (\<lambda>_.
     bindS (guardS (bm_root_page_id (bt_metadata bt) \<noteq> InvalidPageId) kNotFound) (\<lambda>_.
     bindS (FindPathToLeaf key) (\<lambda>(path, leaf_page_id, existing_rid).
     bindS (guardS (existing_rid \<noteq> None) kNotFound) (\<lambda>_.
       DeleteFromLeaf leaf_page_id path key))))))"

end
