(* ===== verification/BStar_Pages.thy ===== *)
theory BStar_Pages
  imports BStar_Tree
begin

text \<open>
  The nodes of the tree on their pages. The page encodings are inverted by the parsers; \<open>lay\<close> relates the object and its
  file to an abstract store of nodes, and every page operation of the tree is shown to act on that store.
\<close>

subsection \<open>Key encoding\<close>

definition key_ok :: "bstar_tree \<Rightarrow> Value \<Rightarrow> bool" where
  "key_ok bt v \<longleftrightarrow> v \<noteq> VNull \<and> value_type v = bt_key_type bt \<and> value_wf v \<and>
     length (Encode v) \<le> bt_max_key_payload_bytes bt"

lemma Decode_Encode: "value_wf v \<Longrightarrow> Decode (Encode v) (value_type v) = Inr v"
proof (cases v)
  case (VInt i)
  assume "value_wf v"
  then show ?thesis
    using VInt decodes_self [of ReadInt64 "le_bytes 8 (int64_rep i)" i]
    by (simp add: Decode_def writer_appends decodes_def ReadInt64_at)
next
  case (VString s)
  then show ?thesis by (simp add: Decode_def)
next
  case (VBool b)
  then show ?thesis by (auto simp: Decode_def writer_appends enc_bool_def)
qed (simp add: Decode_def)

lemma decodes_key:
  assumes "value_wf v" "length (Encode v) < 2 ^ 32"
  shows "decodes (DeserializeSeparatorKey (value_type v)) (le_bytes 4 (length (Encode v)) @ Encode v) v"
  unfolding decodes_def
proof (intro allI impI)
  fix bs off
  assume h: "has_at bs off (le_bytes 4 (length (Encode v)) @ Encode v)"
  then have a: "has_at bs off (le_bytes 4 (length (Encode v)))" "has_at bs (off + 4) (Encode v)" by simp_all
  then show "DeserializeSeparatorKey (value_type v) bs off = Inr (v, off + length (le_bytes 4 (length (Encode v)) @ Encode v))"
    using has_at_take [OF a(2)] has_at_le [OF a(2)]
    by (simp add: DeserializeSeparatorKey_def ReadUint32_at [OF a(1) assms(2)] EnsureReadable_ok Decode_Encode [OF assms(1)])
qed

lemma SerializeSeparatorKey_eq: "SerializeSeparatorKey v = le_bytes 4 (length (Encode v)) @ Encode v"
  by (simp add: SerializeSeparatorKey_def writer_appends)

lemma SerializeLeafEntry_eq: "SerializeLeafEntry e = SerializeSeparatorKey (fst e) @ le_bytes 8 (snd e)"
  by (simp add: SerializeLeafEntry_def SerializeSeparatorKey_eq writer_appends)

lemma SerializeSepChild_eq: "SerializeSepChild e = SerializeSeparatorKey (fst e) @ le_bytes 8 (snd e)"
  by (simp add: SerializeSepChild_def writer_appends)

lemma DeserializeLeafEntry_eq: "DeserializeLeafEntry kt bs off =
    bindR (DeserializeSeparatorKey kt bs off) (\<lambda>(key, off). bindR (ReadUint64 bs off) (\<lambda>(rid, off). Inr ((key, rid), off)))"
  by (auto simp: DeserializeLeafEntry_def DeserializeSeparatorKey_def EnsureReadable_def bindR_def
      split: sum.splits prod.splits)

lemma DeserializeSepChild_leaf: "DeserializeSepChild = DeserializeLeafEntry"
  by (simp add: fun_eq_iff DeserializeSepChild_def DeserializeLeafEntry_eq)

lemma decodes_entry:
  assumes "value_wf (fst e)" "length (Encode (fst e)) < 2 ^ 32" "snd e < 2 ^ 64"
  shows "decodes (DeserializeLeafEntry (value_type (fst e))) (SerializeLeafEntry e) e"
proof -
  have "decodes (\<lambda>bs off. DeserializeLeafEntry (value_type (fst e)) bs off)
      ((le_bytes 4 (length (Encode (fst e))) @ Encode (fst e)) @ le_bytes 8 (snd e) @ []) e"
    unfolding DeserializeLeafEntry_eq
    by (intro decodes_bind [OF decodes_key] decodes_intros) (use assms in simp_all)
  then show ?thesis by (simp add: SerializeLeafEntry_eq SerializeSeparatorKey_eq)
qed

subsection \<open>Node headers\<close>

definition nh_wf :: "NodeHeader \<Rightarrow> bool" where
  "nh_wf h \<longleftrightarrow> nh_key_count h < 2 ^ 32 \<and> nh_parent_page_id h < 2 ^ 64 \<and> nh_next_leaf_page_id h < 2 ^ 64"

lemma length_tree_magics [simp]: "length kTreeNodeMagic = 8" "length kTreeMetadataMagic = 8"
  by (simp_all add: kTreeNodeMagic_def kTreeMetadataMagic_def)

lemma NodeHeaderSize_eq: "NodeHeaderSize = 33"
  by (simp add: NodeHeaderSize_def)

lemma length_SerializeNodeHeader [simp]: "length (SerializeNodeHeader h) = 33"
  by (simp add: SerializeNodeHeader_def writer_appends Let_def)

lemma DeserializeNodeHeader_at:
  assumes "has_at bs 0 (SerializeNodeHeader h)" "nh_wf h"
  shows "DeserializeNodeHeader bs = Inr h"
proof -
  have a: "has_at bs 0 kTreeNodeMagic" "has_at bs 8 (le_bytes 4 (node_type_rep (nh_type h)))"
    "has_at bs (8 + 4) (le_bytes 4 (nh_key_count h))" "has_at bs (8 + 4 + 4) (le_bytes 8 (nh_parent_page_id h))"
    "has_at bs (8 + 4 + 4 + 8) (le_bytes 8 (nh_next_leaf_page_id h))"
    "has_at bs (8 + 4 + 4 + 8 + 8) (le_bytes 1 (if nh_is_root h then 1 else 0))"
    using assms(1) by (simp_all add: SerializeNodeHeader_def writer_appends Let_def)
  have w: "node_type_rep (nh_type h) < 2 ^ 32" "nh_key_count h < 2 ^ 32" "nh_parent_page_id h < 2 ^ 64"
    "nh_next_leaf_page_id h < 2 ^ 64" "(if nh_is_root h then 1 else 0) < (2::nat) ^ 8"
    using assms(2) by (cases "nh_type h"; auto simp: nh_wf_def)+
  have m: "take 8 bs = kTreeNodeMagic" using has_at_take [OF a(1)] by simp
  have l: "33 \<le> length bs" using has_at_le [OF assms(1)] by simp
  show ?thesis
    using m l unfolding DeserializeNodeHeader_def NodeHeaderSize_eq length_tree_magics
    by (cases h; cases "nh_type h")
      (simp_all add: ReadUint32_at [OF a(2) w(1), simplified] ReadUint32_at [OF a(3) w(2), simplified]
        ReadUint64_at [OF a(4) w(3), simplified] ReadUint64_at [OF a(5) w(4), simplified]
        ReadUint8_at [OF a(6) w(5), simplified])
qed

subsection \<open>Nodes and their pages\<close>

datatype node =
    LeafN nat nat bool "LeafEntry list"
  | InternalN nat bool "Value list" "nat list"

fun header_of :: "node \<Rightarrow> NodeHeader" where
  "header_of (LeafN par nxt rt es) = \<lparr>nh_type = kLeaf, nh_key_count = length es, nh_parent_page_id = par,
     nh_next_leaf_page_id = nxt, nh_is_root = rt\<rparr>"
| "header_of (InternalN par rt ss cs) = \<lparr>nh_type = kInternal, nh_key_count = length ss, nh_parent_page_id = par,
     nh_next_leaf_page_id = InvalidPageId, nh_is_root = rt\<rparr>"

fun node_body :: "node \<Rightarrow> bytes" where
  "node_body (LeafN par nxt rt es) = concat (map SerializeLeafEntry es)"
| "node_body (InternalN par rt ss cs) = le_bytes 8 (hd cs) @ concat (map SerializeLeafEntry (zip ss (tl cs)))"

definition node_page :: "bstar_tree \<Rightarrow> node \<Rightarrow> bytes" where
  "node_page bt nd = zero_padded (bt_page_size bt) (SerializeNodeHeader (header_of nd) @ node_body nd)"

definition entries_ok :: "bstar_tree \<Rightarrow> LeafEntry list \<Rightarrow> bool" where
  "entries_ok bt es \<longleftrightarrow> list_all (\<lambda>e. key_ok bt (fst e) \<and> snd e < 2 ^ 64) es"

fun node_ok :: "bstar_tree \<Rightarrow> node \<Rightarrow> bool" where
  "node_ok bt (LeafN par nxt rt es) \<longleftrightarrow> par < 2 ^ 64 \<and> nxt < 2 ^ 64 \<and> length es \<le> MaxKeysPerNode bt \<and> entries_ok bt es"
| "node_ok bt (InternalN par rt ss cs) \<longleftrightarrow> par < 2 ^ 64 \<and> length ss \<le> MaxKeysPerNode bt \<and> length cs = length ss + 1 \<and>
     list_all (key_ok bt) ss \<and> list_all (\<lambda>c. c < 2 ^ 64) cs"

text \<open>A configuration whose nodes fit their pages; the computed degree gives one.\<close>

definition cfg_ok :: "bstar_tree \<Rightarrow> bool" where
  "cfg_ok bt \<longleftrightarrow> 2 \<le> bt_min_degree bt \<and> 0 < bt_max_key_payload_bytes bt \<and>
     41 + MaxKeysPerNode bt * (12 + bt_max_key_payload_bytes bt) \<le> bt_page_size bt \<and> bt_page_size bt < 2 ^ 32"

lemma ComputeMinDegree_fits:
  assumes "ComputeMinDegreeForPage ps n = Inr d"
  shows "2 \<le> d \<and> 41 + (2 * d - 1) * (12 + n) \<le> ps"
proof -
  let ?l = "(ps - 33) div (12 + n)" let ?i = "(ps - 33 - 8) div (12 + n)" let ?m = "min ?l ?i"
  have ps: "41 < ps" and m: "3 \<le> ?m" and d: "d = (?m + 1) div 2"
    using assms
    by (auto simp: ComputeMinDegreeForPage_def bindR_guardR Let_def NodeHeaderSize_eq add.assoc add.commute [of 4]
        split: if_splits simp flip: add.assoc)
  have "2 * d \<le> ?m + 1" unfolding d by (rule times_div_less_eq_dividend)
  then have "2 * d - 1 \<le> ?i" by simp
  then have "(2 * d - 1) * (12 + n) \<le> ?i * (12 + n)" by (rule mult_le_mono1)
  also have "\<dots> \<le> ps - 33 - 8" by (rule div_times_less_eq_dividend)
  finally show ?thesis using ps m d by linarith
qed

lemma Max_small: "cfg_ok bt \<Longrightarrow> MaxKeysPerNode bt < 2 ^ 32"
proof -
  assume a: "cfg_ok bt"
  have "MaxKeysPerNode bt * 1 \<le> MaxKeysPerNode bt * (12 + bt_max_key_payload_bytes bt)" by (intro mult_le_mono2) simp
  then show ?thesis using a unfolding cfg_ok_def by linarith
qed

lemma payload_small: "cfg_ok bt \<Longrightarrow> bt_max_key_payload_bytes bt < 2 ^ 32"
proof -
  assume a: "cfg_ok bt"
  have "1 * (12 + bt_max_key_payload_bytes bt) \<le> MaxKeysPerNode bt * (12 + bt_max_key_payload_bytes bt)"
    using a by (intro mult_le_mono1) (auto simp: cfg_ok_def MaxKeysPerNode_def)
  also have "\<dots> < 2 ^ 32" using a unfolding cfg_ok_def by linarith
  finally show ?thesis by simp
qed

lemma key_ok_small: "cfg_ok bt \<Longrightarrow> key_ok bt v \<Longrightarrow> length (Encode v) < 2 ^ 32"
  using payload_small [of bt] unfolding key_ok_def by linarith

lemma length_entries:
  "entries_ok bt es \<Longrightarrow> length (concat (map SerializeLeafEntry es)) \<le> length es * (12 + bt_max_key_payload_bytes bt)"
  by (induction es) (auto simp: entries_ok_def SerializeLeafEntry_eq SerializeSeparatorKey_eq key_ok_def)

lemma zip_entries_ok:
  "list_all (key_ok bt) ss \<Longrightarrow> list_all (\<lambda>c. c < 2 ^ 64) cs \<Longrightarrow> entries_ok bt (zip ss (tl cs))"
  by (cases cs) (auto simp: entries_ok_def list_all_iff dest: set_zip_leftD set_zip_rightD)

lemma length_node_body:
  assumes "cfg_ok bt" "node_ok bt nd"
  shows "33 + length (node_body nd) \<le> bt_page_size bt"
proof (cases nd)
  case (LeafN par nxt rt es)
  then have "length (node_body nd) \<le> length es * (12 + bt_max_key_payload_bytes bt)"
    using assms(2) length_entries by simp
  also have "\<dots> \<le> MaxKeysPerNode bt * (12 + bt_max_key_payload_bytes bt)"
    using LeafN assms(2) by (intro mult_le_mono1) simp
  finally show ?thesis using assms(1) by (simp add: cfg_ok_def)
next
  case (InternalN par rt ss cs)
  then have "length (node_body nd) \<le> 8 + length (zip ss (tl cs)) * (12 + bt_max_key_payload_bytes bt)"
    using assms(2) length_entries [OF zip_entries_ok, of bt ss cs] by simp
  also have "\<dots> \<le> 8 + MaxKeysPerNode bt * (12 + bt_max_key_payload_bytes bt)"
    using InternalN assms(2) by (intro add_left_mono mult_le_mono1) simp
  finally show ?thesis using assms(1) by (simp add: cfg_ok_def)
qed

lemma length_node_page: "cfg_ok bt \<Longrightarrow> node_ok bt nd \<Longrightarrow> length (node_page bt nd) = bt_page_size bt"
  using length_node_body [of bt nd] by (simp add: node_page_def zero_padded_def)

lemma InvalidPageId_less: "InvalidPageId < 2 ^ 64"
  by (simp add: InvalidPageId_def)

lemma header_of_wf: "cfg_ok bt \<Longrightarrow> node_ok bt nd \<Longrightarrow> nh_wf (header_of nd)"
  using Max_small [of bt] InvalidPageId_less by (cases nd) (auto simp: nh_wf_def)

lemma node_page_header: "cfg_ok bt \<Longrightarrow> node_ok bt nd \<Longrightarrow> DeserializeNodeHeader (node_page bt nd) = Inr (header_of nd)"
  by (rule DeserializeNodeHeader_at) (simp_all add: header_of_wf node_page_def zero_padded_def has_at_def)

lemma decodes_entries:
  assumes "cfg_ok bt" "entries_ok bt es"
  shows "decodes (\<lambda>bs off. read_n (DeserializeLeafEntry (bt_key_type bt)) (length es) bs off) (concat (map SerializeLeafEntry es)) es"
proof (rule decodes_read_n [OF refl])
  fix e assume "e \<in> set es"
  then have "key_ok bt (fst e)" "snd e < 2 ^ 64" using assms(2) by (auto simp: entries_ok_def list_all_iff)
  then show "decodes (DeserializeLeafEntry (bt_key_type bt)) (SerializeLeafEntry e) e"
    using decodes_entry [of e] key_ok_small [OF assms(1)] by (simp add: key_ok_def)
qed

lemma body_at: "has_at (node_page bt nd) 33 (node_body nd)"
  by (simp add: node_page_def zero_padded_def has_at_def)

lemma ParseLeafPage_page:
  assumes "cfg_ok bt" "node_ok bt (LeafN par nxt rt es)"
  shows "ParseLeafPage bt (node_page bt (LeafN par nxt rt es)) = Inr (header_of (LeafN par nxt rt es), es)"
  using node_page_header [OF assms] decodesD [OF decodes_entries [OF assms(1)] body_at [of bt "LeafN par nxt rt es", simplified]] assms(2)
  by (simp add: ParseLeafPage_def NodeHeaderSize_eq)

lemma ParseLeafPage_wrong:
  assumes "cfg_ok bt" "node_ok bt (InternalN par rt ss cs)"
  shows "ParseLeafPage bt (node_page bt (InternalN par rt ss cs)) = Inl kInvalidArgument"
  using node_page_header [OF assms] by (simp add: ParseLeafPage_def)

lemma ParseInternalPage_page:
  assumes "cfg_ok bt" "node_ok bt (InternalN par rt ss cs)"
  shows "ParseInternalPage bt (node_page bt (InternalN par rt ss cs)) = Inr (header_of (InternalN par rt ss cs), (ss, cs))"
proof -
  let ?nd = "InternalN par rt ss cs" let ?es = "zip ss (tl cs)"
  have ok: "entries_ok bt ?es" "length ?es = length ss" and cs: "cs \<noteq> []" "hd cs < 2 ^ 64"
    using assms(2) zip_entries_ok [of bt ss cs] by (cases cs; auto)+
  have b: "has_at (node_page bt ?nd) 33 (le_bytes 8 (hd cs))" "has_at (node_page bt ?nd) (33 + 8) (concat (map SerializeLeafEntry ?es))"
    using body_at [of bt ?nd] by simp_all
  have "read_n (DeserializeLeafEntry (bt_key_type bt)) (length ss) (node_page bt ?nd) (33 + 8) =
      Inr (?es, 33 + 8 + length (concat (map SerializeLeafEntry ?es)))"
    using decodesD [OF decodes_entries [OF assms(1) ok(1)] b(2)] ok(2) by simp
  moreover have "hd cs # tl cs = cs" using cs(1) by simp
  ultimately show ?thesis
    using node_page_header [OF assms] ReadUint64_at [OF b(1) cs(2)] assms(2)
    by (simp add: ParseInternalPage_def NodeHeaderSize_eq DeserializeSepChild_leaf)
qed

lemma BuildLeafPage_ok:
  assumes "cfg_ok bt" "node_ok bt (LeafN (nh_parent_page_id h) (nh_next_leaf_page_id h) (nh_is_root h) es)"
  shows "BuildLeafPage bt h es = Inr (node_page bt (LeafN (nh_parent_page_id h) (nh_next_leaf_page_id h) (nh_is_root h) es))"
proof -
  have "length es mod 2 ^ 32 = length es" using assms Max_small [of bt] by simp
  then show ?thesis
    using length_node_body [OF assms] by (cases h) (simp add: BuildLeafPage_def node_page_def Let_def)
qed

lemma BuildInternalPage_ok:
  assumes "cfg_ok bt" "node_ok bt (InternalN (nh_parent_page_id h) (nh_is_root h) ss cs)"
  shows "BuildInternalPage bt h (ss, cs) = Inr (node_page bt (InternalN (nh_parent_page_id h) (nh_is_root h) ss cs))"
proof -
  have "length ss mod 2 ^ 32 = length ss" using assms Max_small [of bt] by simp
  moreover have "SerializeSepChild = SerializeLeafEntry" by (simp add: fun_eq_iff SerializeSepChild_eq SerializeLeafEntry_eq)
  ultimately show ?thesis
    using length_node_body [OF assms] assms(2)
    by (cases h) (simp add: BuildInternalPage_def node_page_def Let_def writer_appends)
qed


subsection \<open>The store of nodes\<close>

text \<open>
  The abstract store is a tuple \<open>(c, md, dk, N)\<close>: the number of pages, the metadata in memory and on page 0, and the
  nodes on the other pages. Pages that hold no node of \<open>N\<close> are arbitrary. The base object \<open>b\<close> carries the configuration.
\<close>

type_synonym store = "nat \<times> TreeMetadata \<times> TreeMetadata \<times> (nat \<Rightarrow> node option)"

definition meta_page :: "bstar_tree \<Rightarrow> TreeMetadata \<Rightarrow> bytes" where
  "meta_page b md = zero_padded (bt_page_size b) (bt_SerializeMetadata (b\<lparr>bt_metadata := md\<rparr>))"

definition store_ok :: "bstar_tree \<Rightarrow> store \<Rightarrow> bool" where
  "store_ok b a \<longleftrightarrow> (case a of (c, md, dk, N) \<Rightarrow> cfg_ok b \<and> 0 < c \<and> c < 2 ^ 64 - 1 \<and>
     (\<forall>p nd. N p = Some nd \<longrightarrow> 0 < p \<and> p < c \<and> node_ok b nd))"

definition lay :: "bstar_tree \<Rightarrow> store \<Rightarrow> bt_state \<Rightarrow> bool" where
  "lay b a s \<longleftrightarrow> (case (a, s) of ((c, md, dk, N), (fs, bt)) \<Rightarrow>
     store_ok b a \<and> bt = b\<lparr>bt_metadata := md, bt_page_manager := bt_page_manager bt\<rparr> \<and>
     pm_clean (bt_pm s) \<and> pm_page_size (bt_page_manager bt) = bt_page_size b \<and>
     length (pm_pages (bt_pm s)) = c \<and> pm_pages (bt_pm s) ! 0 = meta_page b dk \<and>
     (\<forall>p nd. N p = Some nd \<longrightarrow> pm_pages (bt_pm s) ! p = node_page b nd))"

definition run :: "bstar_tree \<Rightarrow> (bt_state, 'a) stm \<Rightarrow> store \<Rightarrow> 'a result \<Rightarrow> store \<Rightarrow> bool" where
  "run b m a r a' \<longleftrightarrow> (\<forall>s. lay b a s \<longrightarrow> (\<exists>s'. m s = (r, s') \<and> lay b a' s' \<and> pm_frame (bt_pm s) (bt_pm s')))"

definition room :: "bstar_tree \<Rightarrow> nat \<Rightarrow> nat \<Rightarrow> bool" where
  "room b n c \<longleftrightarrow> HeaderSize + (c + n) * bt_page_size b < 2 ^ 64"

text \<open>The configuration is the same whatever the object's metadata and page manager are.\<close>

named_theorems cfg_simps

lemma cfg_same [cfg_simps]:
  "MaxKeysPerNode (b\<lparr>bt_metadata := md, bt_page_manager := pm\<rparr>) = MaxKeysPerNode b"
  "MinKeysPerNonRootNode (b\<lparr>bt_metadata := md, bt_page_manager := pm\<rparr>) = MinKeysPerNonRootNode b"
  "BuildLeafPage (b\<lparr>bt_metadata := md, bt_page_manager := pm\<rparr>) = BuildLeafPage b"
  "BuildInternalPage (b\<lparr>bt_metadata := md, bt_page_manager := pm\<rparr>) = BuildInternalPage b"
  "ParseLeafPage (b\<lparr>bt_metadata := md, bt_page_manager := pm\<rparr>) = ParseLeafPage b"
  "ParseInternalPage (b\<lparr>bt_metadata := md, bt_page_manager := pm\<rparr>) = ParseInternalPage b"
  "ValidateKeyType (b\<lparr>bt_metadata := md, bt_page_manager := pm\<rparr>) = ValidateKeyType b"
  "ValidateRange (b\<lparr>bt_metadata := md, bt_page_manager := pm\<rparr>) = ValidateRange b"
  "bt_SerializeMetadata (b\<lparr>bt_metadata := md, bt_page_manager := pm\<rparr>) = bt_SerializeMetadata (b\<lparr>bt_metadata := md\<rparr>)"
  "IsLeafUnderfull (b\<lparr>bt_metadata := md, bt_page_manager := pm\<rparr>) = IsLeafUnderfull b"
  "IsInternalUnderfull (b\<lparr>bt_metadata := md, bt_page_manager := pm\<rparr>) = IsInternalUnderfull b"
  "bt_min_degree (b\<lparr>bt_metadata := md, bt_page_manager := pm\<rparr>) = bt_min_degree b"
  "bt_is_open (b\<lparr>bt_metadata := md, bt_page_manager := pm\<rparr>) = bt_is_open b"
  "bt_page_size (b\<lparr>bt_metadata := md, bt_page_manager := pm\<rparr>) = bt_page_size b"
  "bt_metadata (b\<lparr>bt_metadata := md, bt_page_manager := pm\<rparr>) = md"
  by (simp_all add: MaxKeysPerNode_def MinKeysPerNonRootNode_def BuildLeafPage_def BuildInternalPage_def ParseLeafPage_def
      ParseInternalPage_def ValidateKeyType_def ValidateRange_def bt_SerializeMetadata_def IsLeafUnderfull_def IsInternalUnderfull_def fun_eq_iff
      Let_def cong: option.case_cong if_cong)

lemma run_bind: "run b m a (Inr x) a' \<Longrightarrow> run b (f x) a' r a'' \<Longrightarrow> run b (bindS m f) a r a''"
  unfolding run_def by (fastforce simp: exec_simps dest: pmi.frame_trans)

lemma run_bind_err: "run b m a (Inl e) a' \<Longrightarrow> run b (bindS m f) a (Inl e) a'"
  unfolding run_def by (fastforce simp: exec_simps)

lemma run_same: "(\<And>s. lay b a s \<Longrightarrow> m s = (r, s)) \<Longrightarrow> run b m a r a"
  unfolding run_def using pmi.frame_refl by blast

lemma run_ret: "run b (ret x) a (Inr x) a"
  by (rule run_same) simp

lemma run_liftR: "run b (liftR r) a r a"
  by (rule run_same) simp

lemma run_guard: "c \<Longrightarrow> run b (guardS c e) a (Inr ()) a"
  by (rule run_same) (simp add: guardS_run)

lemma run_guard_err: "\<not> c \<Longrightarrow> run b (guardS c e) a (Inl e) a"
  by (rule run_same) (simp add: guardS_run)

lemma run_the_bt:
  assumes "\<And>pm. run b (f (b\<lparr>bt_metadata := md, bt_page_manager := pm\<rparr>)) (c, md, dk, N) r a'"
  shows "run b (bindS the_bt f) (c, md, dk, N) r a'"
  unfolding run_def
proof (intro allI impI)
  fix s assume s: "lay b (c, md, dk, N) s"
  then have "snd s = b\<lparr>bt_metadata := md, bt_page_manager := bt_page_manager (snd s)\<rparr>" by (cases s) (simp add: lay_def)
  then have "bindS the_bt f s = f (b\<lparr>bt_metadata := md, bt_page_manager := bt_page_manager (snd s)\<rparr>) s"
    by (simp only: the_bt_def bindS_gets)
  then show "\<exists>s'. bindS the_bt f s = (r, s') \<and> lay b a' s' \<and> pm_frame (bt_pm s) (bt_pm s')"
    using assms [of "bt_page_manager (snd s)"] s by (simp only: run_def)
qed

lemma run_visit_bound: "run b visit_bound (c, md, dk, N) (Inr (c + 1)) (c, md, dk, N)"
  by (rule run_same) (auto simp: visit_bound_def lay_def bt_pm_def pm_pages_def)

subsection \<open>The page operations on the store\<close>

lemma on_bpm_run: "m (bt_pm s) = (r, p) \<Longrightarrow> on_bpm m s = (r, bt_upd_pm p s)"
  by (simp add: on_bpm_def zoom_def)

lemma bt_pm_upd [simp]: "bt_pm (bt_upd_pm p s) = p"
  by (simp add: bt_pm_def bt_upd_pm_def)

lemma bt_upd_pm_same [simp]: "bt_upd_pm (bt_pm s) s = s"
  by (simp add: bt_pm_def bt_upd_pm_def)


lemma lay_upd:
  assumes "lay b (c, md, dk, N) s" "pm_clean p" "pm_frame (bt_pm s) p" "store_ok b (c', md, dk', N')"
    "length (pm_pages p) = c'" "pm_pages p ! 0 = meta_page b dk'"
    "\<And>q nd. N' q = Some nd \<Longrightarrow> pm_pages p ! q = node_page b nd"
  shows "lay b (c', md, dk', N') (bt_upd_pm p s)"
proof -
  obtain bt where bt: "s = (fst s, bt)" "bt = b\<lparr>bt_metadata := md, bt_page_manager := bt_page_manager bt\<rparr>"
    using assms(1) by (cases s) (auto simp: lay_def)
  have "bt\<lparr>bt_page_manager := snd p\<rparr> = b\<lparr>bt_metadata := md, bt_page_manager := snd p\<rparr>"
    by (subst bt(2)) simp
  moreover have "pm_page_size (snd p) = bt_page_size b"
    using assms(1) pmi.frame_psize [OF assms(3)] by (cases s) (simp add: lay_def bt_pm_def)
  ultimately show ?thesis using assms(2,4-7) bt(1)
    by (cases s) (auto simp: lay_def bt_upd_pm_def bt_pm_def)
qed

lemma Flush_clean: "pm_clean p \<Longrightarrow> pm_Flush p = (Inr (), p)"
  by (cases p) (auto simp: pm_clean_def pm_Flush_def pm_exec)

lemma run_ReadPage: "N p = Some nd \<Longrightarrow> run b (bt_ReadPage p) (c, md, dk, N) (Inr (node_page b nd)) (c, md, dk, N)"
proof (rule run_same)
  fix s assume a: "N p = Some nd" "lay b (c, md, dk, N) s"
  then have "ReadPage p (bt_pm s) = (Inr (node_page b nd), bt_pm s)"
    using pmi.read_in [of "bt_pm s" p] by (cases s) (auto simp: lay_def store_ok_def)
  then show "bt_ReadPage p s = (Inr (node_page b nd), s)"
    using on_bpm_run [of "ReadPage p" s] by (simp add: bt_ReadPage_def)
qed

lemma store_ok_upd:
  "store_ok b (c, md, dk, N) \<Longrightarrow> node_ok b nd \<Longrightarrow> 0 < p \<Longrightarrow> p < c \<Longrightarrow> store_ok b (c, md', dk', N(p \<mapsto> nd))"
  by (auto simp: store_ok_def)

lemma WritePage_lay:
  assumes "lay b (c, md, dk, N) s" "p < c" "length d = bt_page_size b"
  obtains q where "bt_WritePage p d s = (Inr (), bt_upd_pm q s)" "pm_clean q" "pm_frame (bt_pm s) q"
    "pm_pages q = (pm_pages (bt_pm s))[p := d]"
proof -
  have "pm_clean (bt_pm s)" "p < length (pm_pages (bt_pm s))" "length d = pm_page_size (snd (bt_pm s))"
    using assms by (cases s; auto simp: lay_def bt_pm_def)+
  then obtain q where q: "WritePage p d (bt_pm s) = (Inr (), q)" "pm_clean q"
      "pm_pages q = (pm_pages (bt_pm s))[p := d]" "pm_frame (bt_pm s) q"
    using pmi.write_in by blast
  have "bt_WritePage p d s = (Inr (), bt_upd_pm q s)"
    using on_bpm_run [of "WritePage p d" s, OF q(1)] on_bpm_run [of pm_Flush "bt_upd_pm q s" "Inr ()" q] Flush_clean [OF q(2)]
    by (simp add: bt_WritePage_def exec_simps) (simp add: bt_upd_pm_def)
  then show ?thesis using that q by blast
qed

lemma run_WritePage:
  assumes "node_ok b nd" "0 < p" "p < c"
  shows "run b (bt_WritePage p (node_page b nd)) (c, md, dk, N) (Inr ()) (c, md, dk, N(p \<mapsto> nd))"
  unfolding run_def
proof (intro allI impI)
  fix s assume s: "lay b (c, md, dk, N) s"
  then have ok: "store_ok b (c, md, dk, N)" "cfg_ok b" and
    pg: "length (pm_pages (bt_pm s)) = c" "pm_pages (bt_pm s) ! 0 = meta_page b dk"
      "\<And>q nd. N q = Some nd \<Longrightarrow> pm_pages (bt_pm s) ! q = node_page b nd"
    by (cases s; auto simp: lay_def store_ok_def)+
  obtain q where q: "bt_WritePage p (node_page b nd) s = (Inr (), bt_upd_pm q s)" "pm_clean q" "pm_frame (bt_pm s) q"
    "pm_pages q = (pm_pages (bt_pm s))[p := node_page b nd]"
    using WritePage_lay [OF s assms(3) length_node_page [OF ok(2) assms(1)]] by blast
  have "lay b (c, md, dk, N(p \<mapsto> nd)) (bt_upd_pm q s)"
    using q(2,3,4) ok assms pg by (intro lay_upd [OF s] store_ok_upd) (auto split: if_splits)
  then show "\<exists>s'. bt_WritePage p (node_page b nd) s = (Inr (), s') \<and> lay b (c, md, dk, N(p \<mapsto> nd)) s' \<and>
      pm_frame (bt_pm s) (bt_pm s')"
    using q(1,3) by auto
qed

lemma run_AllocateNodePage:
  assumes "room b 1 c"
  shows "run b AllocateNodePage (c, md, dk, N) (Inr c) (c + 1, md, dk, N)"
  unfolding run_def
proof (intro allI impI)
  fix s assume s: "lay b (c, md, dk, N) s"
  then have ok: "store_ok b (c, md, dk, N)" "pm_clean (bt_pm s)" "pm_page_size (snd (bt_pm s)) = bt_page_size b" and
    pg: "length (pm_pages (bt_pm s)) = c" "pm_pages (bt_pm s) ! 0 = meta_page b dk" "0 < c" "1 < bt_page_size b"
      "\<And>q nd. N q = Some nd \<Longrightarrow> pm_pages (bt_pm s) ! q = node_page b nd \<and> q < c"
    by (cases s; auto simp: lay_def store_ok_def cfg_ok_def bt_pm_def)+
  have "pm_room (Suc 0) (bt_pm s)"
    using assms ok(3) pg(1) length_pm_pages [of "bt_pm s"] by (simp add: pm_room_def room_def)
  then obtain q where q: "AllocatePage (bt_pm s) = (Inr c, q)" "pm_clean q"
      "pm_pages q = pm_pages (bt_pm s) @ [replicate (bt_page_size b) 0]" "pm_frame (bt_pm s) q"
    using pmi.alloc_in [OF ok(2), of 0] unfolding ok(3) pg(1) by blast
  have "(c + 1) * 2 \<le> (c + 1) * bt_page_size b" using pg(4) by (intro mult_le_mono2) simp
  then have "store_ok b (c + 1, md, dk, N)" using ok(1) assms by (auto simp: store_ok_def room_def intro: less_SucI)
  then have "lay b (c + 1, md, dk, N) (bt_upd_pm q s)"
    using q(2,3,4) pg by (intro lay_upd [OF s]) (auto simp: nth_append)
  moreover have "AllocateNodePage s = (Inr c, bt_upd_pm q s)"
    using on_bpm_run [of AllocatePage s, OF q(1)] on_bpm_run [of pm_Flush "bt_upd_pm q s" "Inr ()" q] Flush_clean [OF q(2)]
    by (simp add: AllocateNodePage_def exec_simps) (simp add: bt_upd_pm_def)
  ultimately show "\<exists>s'. AllocateNodePage s = (Inr c, s') \<and> lay b (c + 1, md, dk, N) s' \<and> pm_frame (bt_pm s) (bt_pm s')"
    using q(4) by auto
qed

lemma run_set_metadata: "run b (set_metadata f) (c, md, dk, N) (Inr ()) (c, f md, dk, N)"
  unfolding run_def
proof (intro allI impI)
  fix s assume s: "lay b (c, md, dk, N) s"
  obtain fs bt where fs: "s = (fs, bt)" by (cases s)
  have bt: "bt = b\<lparr>bt_metadata := md, bt_page_manager := bt_page_manager bt\<rparr>" using s by (simp add: lay_def fs)
  let ?bt = "bt\<lparr>bt_metadata := f (bt_metadata bt)\<rparr>"
  have "bt_metadata bt = md" by (subst bt) simp
  then have "?bt = b\<lparr>bt_metadata := f md, bt_page_manager := bt_page_manager bt\<rparr>" by (subst bt) simp
  then have "lay b (c, f md, dk, N) (fs, ?bt)" using s by (auto simp: lay_def fs store_ok_def bt_pm_def)
  then show "\<exists>s'. set_metadata f s = (Inr (), s') \<and> lay b (c, f md, dk, N) s' \<and> pm_frame (bt_pm s) (bt_pm s')"
    using pmi.frame_refl by (auto simp: set_metadata_def fs bt_pm_def on_obj_def)
qed

lemma length_meta: "cfg_ok b \<Longrightarrow> length (bt_SerializeMetadata (b\<lparr>bt_metadata := md\<rparr>)) \<le> bt_page_size b"
proof -
  assume a: "cfg_ok b"
  have "3 * 13 \<le> MaxKeysPerNode b * (12 + bt_max_key_payload_bytes b)"
    using a by (intro mult_le_mono) (auto simp: cfg_ok_def MaxKeysPerNode_def)
  then have "56 \<le> bt_page_size b" using a unfolding cfg_ok_def by linarith
  then show ?thesis by (simp add: bt_SerializeMetadata_def writer_appends length_tree_magics Let_def)
qed

lemma run_WriteMetadata: "run b bt_WriteMetadata (c, md, dk, N) (Inr ()) (c, md, md, N)"
  unfolding bt_WriteMetadata_def
proof (rule run_the_bt)
  fix pm
  let ?b = "b\<lparr>bt_metadata := md, bt_page_manager := pm\<rparr>"
  show "run b (let bs = bt_SerializeMetadata ?b in bindS (guardS (\<not> length bs > bt_page_size ?b) kInternalError)
      (\<lambda>_. bt_WritePage 0 (zero_padded (bt_page_size ?b) bs))) (c, md, dk, N) (Inr ()) (c, md, md, N)"
    unfolding run_def
  proof (intro allI impI)
    fix s assume s: "lay b (c, md, dk, N) s"
    then have ok: "cfg_ok b" "0 < c" "store_ok b (c, md, md, N)" and
      pg: "length (pm_pages (bt_pm s)) = c"
        "\<And>q nd. N q = Some nd \<Longrightarrow> pm_pages (bt_pm s) ! q = node_page b nd \<and> 0 < q"
      by (cases s; auto simp: lay_def store_ok_def)+
    have len: "length (meta_page b md) = bt_page_size b"
      using length_meta [OF ok(1), of md] by (simp add: meta_page_def zero_padded_def)
    obtain q where q: "bt_WritePage 0 (meta_page b md) s = (Inr (), bt_upd_pm q s)" "pm_clean q" "pm_frame (bt_pm s) q"
      "pm_pages q = (pm_pages (bt_pm s))[0 := meta_page b md]"
      using WritePage_lay [OF s ok(2) len] by blast
    have "lay b (c, md, md, N) (bt_upd_pm q s)"
      using q(2,3,4) ok pg by (intro lay_upd [OF s]) (auto split: if_splits)
    then show "\<exists>s'. (let bs = bt_SerializeMetadata ?b in bindS (guardS (\<not> length bs > bt_page_size ?b) kInternalError)
      (\<lambda>_. bt_WritePage 0 (zero_padded (bt_page_size ?b) bs))) s = (Inr (), s') \<and> lay b (c, md, md, N) s' \<and>
      pm_frame (bt_pm s) (bt_pm s')"
      using q(1,3) length_meta [OF ok(1), of md] by (auto simp: cfg_simps bindS_guardS meta_page_def Let_def)
  qed
qed

subsection \<open>Reading and writing nodes\<close>

lemma run_header:
  "cfg_ok b \<Longrightarrow> node_ok b nd \<Longrightarrow> run b (liftR (DeserializeNodeHeader (node_page b nd))) a (Inr (header_of nd)) a"
  using run_liftR [of b "DeserializeNodeHeader (node_page b nd)" a] by (simp add: node_page_header)

lemma run_store_ok: "(store_ok b a \<Longrightarrow> run b m a r a') \<Longrightarrow> run b m a r a'"
  by (auto simp: run_def lay_def)

lemma store_ok_node: "store_ok b (c, md, dk, N) \<Longrightarrow> N p = Some nd \<Longrightarrow> cfg_ok b \<and> node_ok b nd \<and> 0 < p \<and> p < c"
  by (auto simp: store_ok_def)

lemma run_parse_leaf:
  assumes "cfg_ok b" "node_ok b (LeafN par nxt rt es)"
  shows "run b (parse_leaf (node_page b (LeafN par nxt rt es))) a (Inr (header_of (LeafN par nxt rt es), es)) a"
  unfolding parse_leaf_def
  by (cases a) (auto intro!: run_the_bt simp only: cfg_simps ParseLeafPage_page [OF assms] intro: run_liftR)

lemma run_parse_internal:
  assumes "cfg_ok b" "node_ok b (InternalN par rt ss cs)"
  shows "run b (parse_internal (node_page b (InternalN par rt ss cs))) a (Inr (header_of (InternalN par rt ss cs), (ss, cs))) a"
  unfolding parse_internal_def
  by (cases a) (auto intro!: run_the_bt simp only: cfg_simps ParseInternalPage_page [OF assms] intro: run_liftR)

lemma run_read_leaf:
  assumes "N p = Some (LeafN par nxt rt es)"
  shows "run b (read_leaf p) (c, md, dk, N) (Inr (header_of (LeafN par nxt rt es), es)) (c, md, dk, N)"
  unfolding read_leaf_def using store_ok_node [of b c md dk N p "LeafN par nxt rt es"]
  by - (rule run_store_ok, intro run_bind [OF run_ReadPage [of N p, OF assms]] run_parse_leaf, simp_all add: assms)

lemma run_read_internal:
  assumes "N p = Some (InternalN par rt ss cs)"
  shows "run b (read_internal p) (c, md, dk, N) (Inr (header_of (InternalN par rt ss cs), (ss, cs))) (c, md, dk, N)"
  unfolding read_internal_def using store_ok_node [of b c md dk N p "InternalN par rt ss cs"]
  by - (rule run_store_ok, intro run_bind [OF run_ReadPage [of N p, OF assms]] run_parse_internal, simp_all add: assms)

lemma run_write_leaf:
  assumes "node_ok b (LeafN (nh_parent_page_id h) (nh_next_leaf_page_id h) (nh_is_root h) es)" "0 < p" "p < c"
  shows "run b (write_leaf p h es) (c, md, dk, N) (Inr ())
    (c, md, dk, N(p \<mapsto> LeafN (nh_parent_page_id h) (nh_next_leaf_page_id h) (nh_is_root h) es))"
proof (rule run_store_ok)
  assume "store_ok b (c, md, dk, N)"
  then have "cfg_ok b" by (simp add: store_ok_def)
  then show ?thesis
    unfolding write_leaf_def
    by (intro run_the_bt, simp only: cfg_simps BuildLeafPage_ok [OF _ assms(1)])
      (intro run_bind [OF run_liftR] run_WritePage assms)
qed

lemma run_write_internal:
  assumes "node_ok b (InternalN (nh_parent_page_id h) (nh_is_root h) ss cs)" "0 < p" "p < c"
  shows "run b (write_internal p h (ss, cs)) (c, md, dk, N) (Inr ())
    (c, md, dk, N(p \<mapsto> InternalN (nh_parent_page_id h) (nh_is_root h) ss cs))"
proof (rule run_store_ok)
  assume "store_ok b (c, md, dk, N)"
  then have "cfg_ok b" by (simp add: store_ok_def)
  then show ?thesis
    unfolding write_internal_def
    by (intro run_the_bt, simp only: cfg_simps BuildInternalPage_ok [OF _ assms(1)])
      (intro run_bind [OF run_liftR] run_WritePage assms)
qed

text \<open>The parent pointers are written back as they were.\<close>

lemma run_rewrite_parent:
  assumes "N p = Some nd"
  shows "run b (rewrite_parent q p) (c, md, dk, N) (Inr ()) (c, md, dk, N)"
proof (rule run_store_ok)
  assume "store_ok b (c, md, dk, N)"
  then have ok: "cfg_ok b" "node_ok b nd" "0 < p" "p < c" using store_ok_node assms by blast+
  have upd: "N(p \<mapsto> nd) = N" using assms by auto
  show ?thesis
  proof (cases nd)
    case (LeafN par nxt rt es)
    then show ?thesis
      unfolding rewrite_parent_def
      using ok assms upd run_write_leaf [of b "header_of nd" es p c md dk N]
      by (intro run_bind [OF run_ReadPage] run_bind [OF run_header])
        (auto intro!: run_bind [OF run_parse_leaf])
  next
    case (InternalN par rt ss cs)
    then show ?thesis
      unfolding rewrite_parent_def
      using ok assms upd run_write_internal [of b "header_of nd" ss cs p c md dk N]
      by (intro run_bind [OF run_ReadPage] run_bind [OF run_header])
        (auto intro!: run_bind [OF run_parse_internal])
  qed
qed

lemma run_rewrite_child_parent:
  assumes "set ps \<subseteq> dom N"
  shows "run b (rewrite_child_parent ps q) (c, md, dk, N) (Inr ()) (c, md, dk, N)"
  using assms unfolding rewrite_child_parent_def
proof (induction ps)
  case Nil
  show ?case by (simp only: forS.simps run_ret)
next
  case (Cons p ps)
  then obtain nd where "N p = Some nd" by auto
  then show ?case using Cons by (auto intro: run_bind [OF run_rewrite_parent])
qed

end
