(* ===== verification/BStar_Shape.thy ===== *)
theory BStar_Shape
  imports BStar_Tree "HOL-Library.Multiset"
begin

text \<open>
  The shape of the tree, apart from its pages. A \<open>ptree\<close> is the tree with the page id of every node; \<open>flat\<close> lists its
  entries and separators from left to right, which is what the order invariant and the contents are about. A search path
  is a zipper: a list of frames, innermost first, into which a subtree is plugged.
\<close>

subsection \<open>Entries and separators in order\<close>

datatype item = Ent Value nat | Sep Value

fun before :: "item \<Rightarrow> item \<Rightarrow> bool" where
  "before (Ent a _) (Ent b _) \<longleftrightarrow> a < b"
| "before (Ent a _) (Sep s) \<longleftrightarrow> a < s"
| "before (Sep s) (Ent b _) \<longleftrightarrow> s \<le> b"
| "before (Sep s) (Sep s') \<longleftrightarrow> s \<le> s'"

lemma before_trans: "before x y \<Longrightarrow> before y z \<Longrightarrow> before x z"
  by (cases x; cases y; cases z) auto

abbreviation ordered :: "item list \<Rightarrow> bool" where
  "ordered \<equiv> sorted_wrt before"

fun ents_of :: "item list \<Rightarrow> (Value \<times> nat) list" where
  "ents_of [] = []"
| "ents_of (Ent k r # xs) = (k, r) # ents_of xs"
| "ents_of (Sep s # xs) = ents_of xs"

abbreviation ent :: "Value \<times> nat \<Rightarrow> item" where
  "ent e \<equiv> Ent (fst e) (snd e)"

lemma ents_of_append [simp]: "ents_of (xs @ ys) = ents_of xs @ ents_of ys"
  by (induction xs rule: ents_of.induct) auto

lemma ents_of_map_ent [simp]: "ents_of (map ent es) = es"
  by (induction es) auto

lemma set_ents_of: "e \<in> set (ents_of xs) \<longleftrightarrow> ent e \<in> set xs"
  by (induction xs rule: ents_of.induct) auto

lemma ordered_ents: "ordered xs \<Longrightarrow> sorted_wrt (<) (map fst (ents_of xs))"
  by (induction xs rule: ents_of.induct) (fastforce simp: set_ents_of)+

text \<open>A separator may be put in front of the entry it is taken from, and any separator may be dropped.\<close>

lemma ordered_drop: "ordered (xs @ x # ys) \<Longrightarrow> ordered (xs @ ys)"
  by (auto simp: sorted_wrt_append)

lemma before_Sep_fst: "before x (Ent k r) \<Longrightarrow> before x (Sep k)" "before (Ent k r) y \<Longrightarrow> before (Sep k) y"
  by (cases x; auto) (cases y; auto)

lemma ordered_put: "ordered (xs @ Ent k r # ys) \<Longrightarrow> ordered (xs @ Sep k # Ent k r # ys)"
  by (auto simp: sorted_wrt_append intro: before_Sep_fst)

lemma ordered_replace: "ordered (xs @ Sep s # Ent k r # ys) \<Longrightarrow> ordered (xs @ Sep k # Ent k r # ys)"
  by (rule ordered_put [OF ordered_drop [of xs "Sep s" "Ent k r # ys"]])

subsection \<open>Trees\<close>

datatype ptree = PLeaf nat "(Value \<times> nat) list" | PNode nat "Value list" "ptree list"

fun weave :: "Value list \<Rightarrow> item list list \<Rightarrow> item list" where
  "weave ss [] = []"
| "weave [] (x # xs) = x @ weave [] xs"
| "weave (s # ss) (x # xs) = x @ Sep s # weave ss xs"

fun weave_right :: "Value list \<Rightarrow> item list list \<Rightarrow> item list" where
  "weave_right (s # ss) (x # xs) = Sep s # x @ weave_right ss xs"
| "weave_right _ _ = []"

lemma weave_append: "length ss = length xs \<Longrightarrow> weave (ss @ ss') (xs @ xs') = weave ss xs @ weave ss' xs'"
  by (induction ss xs rule: list_induct2) auto

lemma weave_Cons: "length ss = length xs \<Longrightarrow> weave ss (x # xs) = x @ weave_right ss xs"
  by (induction ss xs arbitrary: x rule: list_induct2) auto

lemma weave_hole:
  "length ls = length lxs \<Longrightarrow> length rs = length rxs \<Longrightarrow>
    weave (ls @ rs) (lxs @ x # rxs) = weave ls lxs @ x @ weave_right rs rxs"
  by (simp add: weave_append weave_Cons)

lemma weave_right_append:
  "length ss = length xs \<Longrightarrow> weave_right (ss @ ss') (xs @ xs') = weave_right ss xs @ weave_right ss' xs'"
  by (induction ss xs rule: list_induct2) auto

fun pid :: "ptree \<Rightarrow> nat" where
  "pid (PLeaf p es) = p"
| "pid (PNode p ss ts) = p"

fun first_leaf :: "ptree \<Rightarrow> nat" where
  "first_leaf (PLeaf p es) = p"
| "first_leaf (PNode p ss []) = p"
| "first_leaf (PNode p ss (t # ts)) = first_leaf t"

primrec flat :: "ptree \<Rightarrow> item list" where
  "flat (PLeaf p es) = map ent es"
| "flat (PNode p ss ts) = weave ss (map flat ts)"

primrec pids :: "ptree \<Rightarrow> nat list" where
  "pids (PLeaf p es) = [p]"
| "pids (PNode p ss ts) = p # concat (map pids ts)"

text \<open>
  \<open>sub b lo n t\<close>: the tree has depth \<open>n\<close> everywhere, its root at least \<open>lo\<close> keys, every other node at least the minimum,
  and no node more than the maximum.
\<close>

fun sub :: "bstar_tree \<Rightarrow> nat \<Rightarrow> nat \<Rightarrow> ptree \<Rightarrow> bool" where
  "sub b lo 0 (PLeaf p es) \<longleftrightarrow> lo \<le> length es \<and> length es \<le> MaxKeysPerNode b"
| "sub b lo (Suc n) (PNode p ss ts) \<longleftrightarrow> lo \<le> length ss \<and> length ss \<le> MaxKeysPerNode b \<and> length ts = Suc (length ss) \<and>
     list_all (sub b (MinKeysPerNonRootNode b) n) ts"
| "sub b lo _ _ \<longleftrightarrow> False"

lemma sub_0: "sub b lo 0 t \<longleftrightarrow> (\<exists>p es. t = PLeaf p es \<and> lo \<le> length es \<and> length es \<le> MaxKeysPerNode b)"
  by (cases t) auto

lemma sub_Suc: "sub b lo (Suc n) t \<longleftrightarrow> (\<exists>p ss ts. t = PNode p ss ts \<and> lo \<le> length ss \<and>
    length ss \<le> MaxKeysPerNode b \<and> length ts = Suc (length ss) \<and> list_all (sub b (MinKeysPerNonRootNode b) n) ts)"
  by (cases t) auto

lemma sub_mono: "sub b lo n t \<Longrightarrow> lo' \<le> lo \<Longrightarrow> sub b lo' n t"
  by (cases n) (auto simp: sub_0 sub_Suc)

lemma depth_pids: "sub b lo n t \<Longrightarrow> n < length (pids t)"
proof (induction n arbitrary: t lo)
  case (Suc n)
  then obtain p ss u ts where "t = PNode p ss (u # ts)" "sub b (MinKeysPerNonRootNode b) n u"
    by (fastforce simp: length_Suc_conv sub_Suc)
  then show ?case using Suc.IH [of "MinKeysPerNonRootNode b" u] by simp
qed (auto simp: sub_0)

subsection \<open>Contexts\<close>

type_synonym frame = "nat \<times> Value list \<times> ptree list \<times> Value list \<times> ptree list"
type_synonym ctx = "frame list"

fun plug :: "ctx \<Rightarrow> ptree \<Rightarrow> ptree" where
  "plug [] t = t"
| "plug ((p, ls, lts, rs, rts) # C) t = plug C (PNode p (ls @ rs) (lts @ t # rts))"

fun path_of :: "ctx \<Rightarrow> (nat \<times> nat) list" where
  "path_of [] = []"
| "path_of ((p, ls, lts, rs, rts) # C) = (p, length lts) # path_of C"

fun left_of :: "ctx \<Rightarrow> item list" where
  "left_of [] = []"
| "left_of ((p, ls, lts, rs, rts) # C) = left_of C @ weave ls (map flat lts)"

fun right_of :: "ctx \<Rightarrow> item list" where
  "right_of [] = []"
| "right_of ((p, ls, lts, rs, rts) # C) = weave_right rs (map flat rts) @ right_of C"

fun cpids :: "ctx \<Rightarrow> nat list" where
  "cpids [] = []"
| "cpids ((p, ls, lts, rs, rts) # C) = p # concat (map pids lts) @ concat (map pids rts) @ cpids C"

definition low :: "bstar_tree \<Rightarrow> ctx \<Rightarrow> nat" where
  "low b C = (if C = [] then 1 else MinKeysPerNonRootNode b)"

fun csub :: "bstar_tree \<Rightarrow> nat \<Rightarrow> ctx \<Rightarrow> bool" where
  "csub b n [] \<longleftrightarrow> True"
| "csub b n ((p, ls, lts, rs, rts) # C) \<longleftrightarrow> length ls = length lts \<and> length rs = length rts \<and>
     low b C \<le> length ls + length rs \<and> length ls + length rs \<le> MaxKeysPerNode b \<and>
     list_all (sub b (MinKeysPerNonRootNode b) n) lts \<and> list_all (sub b (MinKeysPerNonRootNode b) n) rts \<and>
     csub b (Suc n) C"

lemma sub_plug: "csub b n C \<Longrightarrow> sub b (low b C) n t \<Longrightarrow> sub b 1 (n + length C) (plug C t)"
proof (induction C arbitrary: n t)
  case Nil
  then show ?case by (simp add: low_def)
next
  case (Cons fr C)
  obtain p ls lts rs rts where "fr = (p, ls, lts, rs, rts)" by (cases fr)
  then show ?case using Cons.prems Cons.IH [of "Suc n" "PNode p (ls @ rs) (lts @ t # rts)"]
    by (auto simp: low_def)
qed

lemma flat_plug: "csub b n C \<Longrightarrow> flat (plug C t) = left_of C @ flat t @ right_of C"
proof (induction C arbitrary: n t)
  case (Cons fr C)
  obtain p ls lts rs rts where "fr = (p, ls, lts, rs, rts)" by (cases fr)
  then show ?case using Cons.prems Cons.IH [of "Suc n" "PNode p (ls @ rs) (lts @ t # rts)"]
    by (simp add: weave_hole)
qed simp

lemma pids_plug: "mset (pids (plug C t)) = mset (cpids C @ pids t)"
proof (induction C arbitrary: t)
  case (Cons fr C)
  obtain p ls lts rs rts where "fr = (p, ls, lts, rs, rts)" by (cases fr)
  then show ?case using Cons.IH [of "PNode p (ls @ rs) (lts @ t # rts)"] by simp
qed simp

lemma distinct_plug: "distinct (pids (plug C t)) \<longleftrightarrow> distinct (cpids C @ pids t)"
  using mset_eq_imp_distinct_iff [OF pids_plug] .

lemma set_pids_plug: "set (pids (plug C t)) = set (cpids C) \<union> set (pids t)"
  using mset_eq_setD [OF pids_plug, of C t] by simp

text \<open>The separator in front of the hole, wherever it is stored.\<close>

fun set_sep :: "Value \<Rightarrow> ctx \<Rightarrow> ctx" where
  "set_sep k [] = []"
| "set_sep k ((p, ls, lts, rs, rts) # C) =
     (if lts = [] then (p, ls, lts, rs, rts) # set_sep k C else (p, butlast ls @ [k], lts, rs, rts) # C)"

lemma weave_snoc: "length ls = length xs \<Longrightarrow> xs \<noteq> [] \<Longrightarrow>
    weave (butlast ls @ [k]) xs = weave (butlast ls) (butlast xs) @ last xs @ [Sep k]"
  by (cases xs rule: rev_cases; cases ls rule: rev_cases) (simp_all add: weave_append)

lemma weave_last: "length ls = length xs \<Longrightarrow> xs \<noteq> [] \<Longrightarrow>
    weave ls xs = weave (butlast ls) (butlast xs) @ last xs @ [Sep (last ls)]"
  using weave_snoc [of ls xs "last ls"] by (cases ls) auto

lemma set_sep_nil [simp]: "set_sep k C = [] \<longleftrightarrow> C = []"
  by (cases C) (auto split: if_splits)

lemma set_sep_facts [simp]:
  "path_of (set_sep k C) = path_of C" "right_of (set_sep k C) = right_of C" "cpids (set_sep k C) = cpids C"
  "length (set_sep k C) = length C"
  by (induction k C rule: set_sep.induct) auto

lemma csub_set_sep [simp]: "csub b n C \<Longrightarrow> csub b n (set_sep k C)"
proof (induction k C arbitrary: n rule: set_sep.induct)
  case (2 k p ls lts rs rts C)
  then show ?case by (cases ls) (auto simp: low_def)
qed simp

lemma left_set_sep:
  "csub b n C \<Longrightarrow> (left_of C = [] \<and> left_of (set_sep k C) = []) \<or>
    (\<exists>xs s. left_of C = xs @ [Sep s] \<and> left_of (set_sep k C) = xs @ [Sep k])"
proof (induction k C arbitrary: n rule: set_sep.induct)
  case (2 k p ls lts rs rts C)
  show ?case
  proof (cases "lts = []")
    case True
    then show ?thesis using 2 by fastforce
  next
    case False
    let ?xs = "map flat lts"
    have len: "length ls = length ?xs" "?xs \<noteq> []" using 2(2) False by auto
    show ?thesis
      using False by (simp add: weave_snoc [OF len] weave_last [OF len])
  qed
qed simp

lemma ordered_set_sep:
  assumes "csub b n C" "ordered (left_of C @ Ent k r # xs)"
  shows "ordered (left_of (set_sep k C) @ Ent k r # xs)"
  using left_set_sep [OF assms(1), of k] assms(2) ordered_replace by fastforce

lemma ents_set_sep: "csub b n C \<Longrightarrow> ents_of (left_of (set_sep k C)) = ents_of (left_of C)"
  using left_set_sep [of b n C k] by auto

end
