(* ===== verification/BStar_Search.thy ===== *)
theory BStar_Search
  imports BStar_Pages BStar_Shape
begin

text \<open>
  A tree on the pages of a store, and the methods that only read it: the descent to a leaf, \<open>Find\<close>, \<open>FindMinimumKey\<close>
  and \<open>RangeSearch\<close>.
\<close>

lemma run_ret_Pair [simp]: "run b (Pair (Inr x)) a (Inr x) a"
  by (rule run_same) simp

subsection \<open>A tree in a store\<close>

fun leaf_at :: "(nat \<Rightarrow> node option) \<Rightarrow> nat \<Rightarrow> nat \<Rightarrow> bool \<Rightarrow> LeafEntry list \<Rightarrow> bool" where
  "leaf_at N p nx rt es \<longleftrightarrow> (case N p of Some (LeafN par nx' rt' es') \<Rightarrow> nx' = nx \<and> rt' = rt \<and> es' = es | _ \<Rightarrow> False)"

fun inner_at :: "(nat \<Rightarrow> node option) \<Rightarrow> nat \<Rightarrow> bool \<Rightarrow> Value list \<Rightarrow> nat list \<Rightarrow> bool" where
  "inner_at N p rt ss cs \<longleftrightarrow> (case N p of Some (InternalN par rt' ss' cs') \<Rightarrow> rt' = rt \<and> ss' = ss \<and> cs' = cs | _ \<Rightarrow> False)"

declare leaf_at.simps [simp del] inner_at.simps [simp del]

lemma leaf_at_iff: "leaf_at N p nx rt es \<longleftrightarrow> (\<exists>par. N p = Some (LeafN par nx rt es))"
  by (auto simp: leaf_at.simps split: option.splits node.splits)

lemma inner_at_iff: "inner_at N p rt ss cs \<longleftrightarrow> (\<exists>par. N p = Some (InternalN par rt ss cs))"
  by (auto simp: inner_at.simps split: option.splits node.splits)

lemma at_upd [simp]:
  "p \<noteq> q \<Longrightarrow> leaf_at (N(q \<mapsto> nd)) p nx rt es = leaf_at N p nx rt es"
  "p \<noteq> q \<Longrightarrow> inner_at (N(q \<mapsto> nd)) p rt ss cs = inner_at N p rt ss cs"
  "leaf_at (N(p \<mapsto> LeafN par nx' rt' es')) p nx rt es \<longleftrightarrow> nx' = nx \<and> rt' = rt \<and> es' = es"
  "inner_at (N(p \<mapsto> InternalN par rt' ss' cs')) p rt ss cs \<longleftrightarrow> rt' = rt \<and> ss' = ss \<and> cs' = cs"
  by (auto simp: leaf_at_iff inner_at_iff)

definition next_leaf :: "ptree list \<Rightarrow> nat \<Rightarrow> nat" where
  "next_leaf ts nx = (case ts of [] \<Rightarrow> nx | t # _ \<Rightarrow> first_leaf t)"

lemma next_leaf_simps [simp]: "next_leaf [] nx = nx" "next_leaf (t # ts) nx = first_leaf t"
  "next_leaf (ts @ us) nx = next_leaf ts (next_leaf us nx)"
  by (auto simp: next_leaf_def split: list.splits)

text \<open>\<open>rep N rt nx t\<close>: the tree is on its pages, its last leaf is linked to \<open>nx\<close>; parent pointers are not read by the code.\<close>

fun rep :: "(nat \<Rightarrow> node option) \<Rightarrow> bool \<Rightarrow> nat \<Rightarrow> ptree \<Rightarrow> bool"
  and reps :: "(nat \<Rightarrow> node option) \<Rightarrow> nat \<Rightarrow> ptree list \<Rightarrow> bool" where
  "rep N rt nx (PLeaf p es) \<longleftrightarrow> leaf_at N p nx rt es"
| "rep N rt nx (PNode p ss ts) \<longleftrightarrow> inner_at N p rt ss (map pid ts) \<and> reps N nx ts"
| "reps N nx [] \<longleftrightarrow> True"
| "reps N nx (t # ts) \<longleftrightarrow> rep N False (next_leaf ts nx) t \<and> reps N nx ts"

lemma reps_append [simp]: "reps N nx (ts @ us) \<longleftrightarrow> reps N (next_leaf us nx) ts \<and> reps N nx us"
  by (induction ts) auto

lemma rep_upd [simp]:
  "q \<notin> set (pids t) \<Longrightarrow> rep (N(q \<mapsto> nd)) rt nx t = rep N rt nx t"
  "q \<notin> set (concat (map pids ts)) \<Longrightarrow> reps (N(q \<mapsto> nd)) nx ts = reps N nx ts"
  by (induction N rt nx t and N nx ts rule: rep_reps.induct) (simp_all del: fun_upd_apply)

lemma rep_dom:
  "rep N rt nx t \<Longrightarrow> set (pids t) \<subseteq> dom N"
  "reps N nx ts \<Longrightarrow> set (concat (map pids ts)) \<subseteq> dom N"
proof (induction N rt nx t and N nx ts rule: rep_reps.induct)
  case (1 N rt nx p es)
  then show ?case by (auto simp: leaf_at_iff)
next
  case (2 N rt nx p ss ts)
  then show ?case by (auto simp: inner_at_iff)
qed auto

fun nxt :: "ctx \<Rightarrow> nat" where
  "nxt [] = InvalidPageId"
| "nxt ((q, ls, lts, rs, rts) # C) = next_leaf rts (nxt C)"

fun crep :: "(nat \<Rightarrow> node option) \<Rightarrow> ctx \<Rightarrow> nat \<Rightarrow> nat \<Rightarrow> bool" where
  "crep N [] p f \<longleftrightarrow> True"
| "crep N ((q, ls, lts, rs, rts) # C) p f \<longleftrightarrow>
     inner_at N q (C = []) (ls @ rs) (map pid lts @ p # map pid rts) \<and> reps N f lts \<and> reps N (nxt C) rts \<and>
     crep N C q (next_leaf lts f)"

lemma crep_upd [simp]: "q \<notin> set (cpids C) \<Longrightarrow> crep (N(q \<mapsto> nd)) C p f = crep N C p f"
  by (induction N C p f rule: crep.induct) auto

lemma first_leaf_next: "ts \<noteq> [] \<Longrightarrow> first_leaf (PNode p ss ts) = next_leaf ts nx"
  by (cases ts) auto

lemma rep_plug: "rep N True InvalidPageId (plug C t) \<longleftrightarrow> crep N C (pid t) (first_leaf t) \<and> rep N (C = []) (nxt C) t"
proof (induction C arbitrary: t)
  case (Cons fr C)
  obtain p ls lts rs rts where fr: "fr = (p, ls, lts, rs, rts)" by (cases fr)
  let ?t = "PNode p (ls @ rs) (lts @ t # rts)"
  have "first_leaf ?t = next_leaf lts (first_leaf t)" using first_leaf_next [of "lts @ t # rts"] by simp
  then show ?case using Cons.IH [of ?t] fr by auto
qed simp

lemma pid_plug: "pid t = pid t' \<Longrightarrow> pid (plug C t) = pid (plug C t')"
  by (induction C arbitrary: t t') auto

lemma first_leaf_plug: "first_leaf t = first_leaf t' \<Longrightarrow> first_leaf (plug C t) = first_leaf (plug C t')"
proof (induction C arbitrary: t t')
  case (Cons fr C)
  obtain p ls lts rs rts where fr: "fr = (p, ls, lts, rs, rts)" by (cases fr)
  show ?case using Cons.prems unfolding fr by (cases lts) (auto intro!: Cons.IH)
qed simp

text \<open>The metadata of a tree of depth \<open>h\<close>, and the trees a store holds.\<close>

definition meta_ok :: "bstar_tree \<Rightarrow> TreeMetadata \<Rightarrow> bool" where
  "meta_ok b md \<longleftrightarrow> bm_version md = kTreeVersion \<and> bm_min_degree md = bt_min_degree b \<and>
     bm_max_key_payload_bytes md = bt_max_key_payload_bytes b"

definition roots :: "nat \<Rightarrow> ptree \<Rightarrow> TreeMetadata \<Rightarrow> bool" where
  "roots h T md \<longleftrightarrow> bm_root_page_id md = pid T \<and> bm_first_leaf_page_id md = first_leaf T \<and> bm_tree_height md = Suc h"

definition rooted :: "bstar_tree \<Rightarrow> nat \<Rightarrow> ptree \<Rightarrow> store \<Rightarrow> bool" where
  "rooted b h T a \<longleftrightarrow> (case a of (c, md, dk, N) \<Rightarrow> store_ok b a \<and> meta_ok b md \<and> dk = md \<and> roots h T md \<and>
     rep N True InvalidPageId T \<and> distinct (pids T))"

definition foc :: "bstar_tree \<Rightarrow> nat \<Rightarrow> ctx \<Rightarrow> ptree \<Rightarrow> store \<Rightarrow> bool" where
  "foc b n C t a \<longleftrightarrow> rooted b (n + length C) (plug C t) a \<and> csub b n C"

lemma foc_Nil: "foc b n [] t a \<longleftrightarrow> rooted b n t a"
  by (simp add: foc_def)

lemma foc_Cons: "foc b n ((p, ls, lts, rs, rts) # C) t a \<longleftrightarrow> length ls = length lts \<and> length rs = length rts \<and>
    low b C \<le> length ls + length rs \<and> length ls + length rs \<le> MaxKeysPerNode b \<and>
    list_all (sub b (MinKeysPerNonRootNode b) n) lts \<and> list_all (sub b (MinKeysPerNonRootNode b) n) rts \<and>
    foc b (Suc n) C (PNode p (ls @ rs) (lts @ t # rts)) a"
  by (auto simp: foc_def)

lemma foc_parts:
  assumes "foc b n C t (c, md, dk, N)"
  shows "store_ok b (c, md, dk, N)" "meta_ok b md" "dk = md" "roots (n + length C) (plug C t) md" "csub b n C"
    "crep N C (pid t) (first_leaf t)" "rep N (C = []) (nxt C) t" "distinct (cpids C @ pids t)"
  using assms by (auto simp: foc_def rooted_def rep_plug distinct_plug)

lemma rooted_pids: "rooted b h T (c, md, dk, N) \<Longrightarrow> length (pids T) \<le> c"
proof -
  assume a: "rooted b h T (c, md, dk, N)"
  then have "set (pids T) \<subseteq> {..<c}"
    using rep_dom(1) [of N True InvalidPageId T] by (fastforce simp: rooted_def store_ok_def)
  then have "card (set (pids T)) \<le> c" using card_mono [of "{..<c}" "set (pids T)"] by simp
  then show ?thesis using a distinct_card [of "pids T"] by (simp add: rooted_def)
qed

lemma rooted_depth: "rooted b h T (c, md, dk, N) \<Longrightarrow> sub b lo h T \<Longrightarrow> h < c"
  using rooted_pids [of b h T c md dk N] depth_pids [of b lo h T] by simp

lemma foc_dom: "foc b n C t (c, md, dk, N) \<Longrightarrow> p \<in> set (cpids C @ pids t) \<Longrightarrow> p \<in> dom N"
proof -
  assume a: "foc b n C t (c, md, dk, N)" "p \<in> set (cpids C @ pids t)"
  then have "rep N True InvalidPageId (plug C t)" by (simp add: foc_def rooted_def)
  from rep_dom(1) [OF this] a(2) show ?thesis using set_pids_plug [of C t] by auto
qed

lemma store_ok_bound: "store_ok b (c, md, dk, N) \<Longrightarrow> p \<in> dom N \<Longrightarrow> 0 < p \<and> p < c \<and> p < InvalidPageId"
  by (auto simp: store_ok_def InvalidPageId_def intro: less_trans)

subsection \<open>The descent\<close>

lemma choose_child_from_eq: "choose_child_from i ss k = i + length (takeWhile (\<lambda>s. \<not> k < s) ss)"
  by (induction i ss k rule: choose_child_from.induct) auto

lemma ChooseChildIndex_split:
  obtains ls rs where "ss = ls @ rs" "ChooseChildIndex ss k = length ls"
    "ls = [] \<or> last ls \<le> k" "rs = [] \<or> k < hd rs"
proof
  let ?P = "\<lambda>s. \<not> k < s"
  show "ss = takeWhile ?P ss @ dropWhile ?P ss" by simp
  show "ChooseChildIndex ss k = length (takeWhile ?P ss)" by (simp add: ChooseChildIndex_def choose_child_from_eq)
  show "takeWhile ?P ss = [] \<or> last (takeWhile ?P ss) \<le> k"
    using last_in_set set_takeWhileD not_less by metis
  show "dropWhile ?P ss = [] \<or> k < hd (dropWhile ?P ss)"
    using hd_dropWhile by blast
qed

text \<open>\<open>around k C\<close>: the place of key \<open>k\<close> is in the hole.\<close>

definition around :: "Value \<Rightarrow> ctx \<Rightarrow> bool" where
  "around k C \<longleftrightarrow> list_all (\<lambda>x. before x (Ent k 0)) (left_of C) \<and> list_all (before (Ent k 0)) (right_of C)"

lemma around_Cons:
  assumes "around k C" "length ls = length lts" "length rs = length rts" "ls = [] \<or> last ls \<le> k" "rs = [] \<or> k < hd rs"
    "ordered (weave ls (map flat lts))" "ordered (weave_right rs (map flat rts))"
  shows "around k ((p, ls, lts, rs, rts) # C)"
proof -
  have "list_all (\<lambda>x. before x (Ent k 0)) (weave ls (map flat lts))"
  proof (cases "lts = []")
    case False
    then have "weave ls (map flat lts) = weave (butlast ls) (butlast (map flat lts)) @ last (map flat lts) @ [Sep (last ls)]"
      using weave_last [of ls "map flat lts"] assms(2) by simp
    moreover have "before (Sep (last ls)) (Ent k 0)" using assms(2,4) False by auto
    ultimately show ?thesis
      using assms(6) before_trans [of _ "Sep (last ls)" "Ent k 0"] by (fastforce simp: list_all_iff sorted_wrt_append)
  qed simp
  moreover have "list_all (before (Ent k 0)) (weave_right rs (map flat rts))"
  proof (cases rts)
    case (Cons t ts)
    then obtain r rs' where rs: "rs = r # rs'" using assms(3) by (cases rs) auto
    then have "before (Ent k 0) (Sep r)" using assms(5) by simp
    then show ?thesis
      using assms(7) before_trans [of "Ent k 0" "Sep r"] rs Cons by (fastforce simp: list_all_iff)
  qed (cases rs; simp)
  ultimately show ?thesis using assms(1) by (simp add: around_def)
qed

lemma split_nth: "i < length ts \<Longrightarrow> \<exists>us t vs. ts = us @ t # vs \<and> length us = i"
  by (metis id_take_nth_drop length_take min.absorb4)

lemma split_children:
  assumes "length ts = Suc (length (ls @ rs))"
  obtains lts t rts where "ts = lts @ t # rts" "length ls = length lts" "length rs = length rts"
  using split_nth [of "length ls" ts] assms by fastforce

lemma run_page_header:
  assumes "N p = Some nd" "run b (f (node_page b nd) (header_of nd)) (c, md, dk, N) r a'"
  shows "run b (bindS (bt_ReadPage p) (\<lambda>page. bindS (liftR (DeserializeNodeHeader page)) (f page))) (c, md, dk, N) r a'"
proof (rule run_store_ok)
  assume "store_ok b (c, md, dk, N)"
  from store_ok_node [of b c md dk N p, OF this assms(1)] assms(2) show ?thesis
    by (intro run_bind [OF run_ReadPage [of N, OF assms(1)]] run_bind [OF run_header]) auto
qed

lemma run_parse_leaf_of:
  assumes "N p = Some (LeafN par nx rt es)" "run b (f (header_of (LeafN par nx rt es), es)) (c, md, dk, N) r a'"
  shows "run b (bindS (parse_leaf (node_page b (LeafN par nx rt es))) f) (c, md, dk, N) r a'"
proof (rule run_store_ok)
  assume "store_ok b (c, md, dk, N)"
  from store_ok_node [of b c md dk N p, OF this assms(1)] assms(2) show ?thesis
    by (intro run_bind [OF run_parse_leaf]) auto
qed

lemma run_parse_internal_of:
  assumes "N p = Some (InternalN par rt ss cs)" "run b (f (header_of (InternalN par rt ss cs), ss, cs)) (c, md, dk, N) r a'"
  shows "run b (bindS (parse_internal (node_page b (InternalN par rt ss cs))) f) (c, md, dk, N) r a'"
proof (rule run_store_ok)
  assume "store_ok b (c, md, dk, N)"
  from store_ok_node [of b c md dk N p, OF this assms(1)] assms(2) show ?thesis
    by (intro run_bind [OF run_parse_internal]) auto
qed

lemma run_descend_leaf:
  assumes "N p = Some (LeafN par nx rt es)"
  shows "run b (descend (Suc f) k path p) (c, md, dk, N) (Inr (path, p, entry_at es k)) (c, md, dk, N)"
  unfolding descend.simps using assms
  by (intro run_page_header [of N p, OF assms]) (simp add: run_ret run_parse_leaf_of)

lemma run_descend_inner:
  assumes "N p = Some (InternalN par rt ss cs)"
    "run b (descend f k ((p, ChooseChildIndex ss k) # path) (cs ! ChooseChildIndex ss k)) (c, md, dk, N) r a'"
  shows "run b (descend (Suc f) k path p) (c, md, dk, N) r a'"
  unfolding descend.simps using assms
  by (intro run_page_header [of N p, OF assms(1)]) (simp add: run_parse_internal_of Let_def)

lemma run_descend:
  assumes "foc b n C t a" "sub b (low b C) n t" "ordered (flat (plug C t))" "around k C" "n < fuel"
  shows "\<exists>C' p es. run b (descend fuel k (path_of C) (pid t)) a (Inr (path_of C', p, entry_at es k)) a \<and>
    plug C' (PLeaf p es) = plug C t \<and> foc b 0 C' (PLeaf p es) a \<and> sub b (low b C') 0 (PLeaf p es) \<and> around k C' \<and>
    length C' = n + length C"
  using assms
proof (induction n arbitrary: C t fuel)
  case 0
  then obtain p es f where t: "t = PLeaf p es" "fuel = Suc f" by (cases fuel) (auto simp: sub_0)
  obtain c md dk N where a: "a = (c, md, dk, N)" by (cases a)
  have ok: "store_ok b (c, md, dk, N)" "rep N (C = []) (nxt C) t"
    using foc_parts [of b 0 C t c md dk N] 0(1) a by simp_all
  then obtain par where N: "N p = Some (LeafN par (nxt C) (C = []) es)" using t by (auto simp: leaf_at_iff)
  have "run b (descend fuel k (path_of C) (pid t)) a (Inr (path_of C, p, entry_at es k)) a"
    unfolding a t pid.simps by (rule run_descend_leaf [of N, OF N])
  then show ?case using 0 t by auto
next
  case (Suc n)
  then obtain q ss ts f where t: "t = PNode q ss ts" "fuel = Suc f" "length ts = Suc (length ss)"
    "low b C \<le> length ss" "length ss \<le> MaxKeysPerNode b" "list_all (sub b (MinKeysPerNonRootNode b) n) ts"
    by (cases fuel) (auto simp: sub_Suc)
  obtain c md dk N where a: "a = (c, md, dk, N)" by (cases a)
  have ok: "store_ok b (c, md, dk, N)" "rep N (C = []) (nxt C) t" "csub b (Suc n) C"
    using foc_parts [of b "Suc n" C t c md dk N] Suc.prems(1) a by simp_all
  then obtain par where N: "N q = Some (InternalN par (C = []) ss (map pid ts))" using t by (auto simp: inner_at_iff)
  obtain ls rs where ss: "ss = ls @ rs" "ChooseChildIndex ss k = length ls" "ls = [] \<or> last ls \<le> k" "rs = [] \<or> k < hd rs"
    by (rule ChooseChildIndex_split)
  then obtain lts u rts where ts: "ts = lts @ u # rts" "length ls = length lts" "length rs = length rts"
    using split_children [of ts ls rs] t(3) by auto
  let ?C = "(q, ls, lts, rs, rts) # C"
  have "foc b n ?C u a" using Suc.prems(1) t ts ss(1) by (auto simp: foc_Cons)
  moreover have "sub b (low b ?C) n u" using t(6) ts by (simp add: low_def)
  moreover have "ordered (flat (plug ?C u))" using Suc.prems(3) t ts ss(1) by simp
  moreover have "around k ?C"
    using Suc.prems(3,4) ts ss t(1) by (intro around_Cons) (auto simp: flat_plug [OF ok(3)] weave_hole sorted_wrt_append)
  ultimately obtain C' p es where IH: "run b (descend f k (path_of ?C) (pid u)) a (Inr (path_of C', p, entry_at es k)) a"
    "plug C' (PLeaf p es) = plug ?C u" "foc b 0 C' (PLeaf p es) a" "sub b (low b C') 0 (PLeaf p es)" "around k C'"
    "length C' = n + length ?C"
    using Suc.IH [of ?C u f] Suc.prems(5) t(2) by auto
  have "run b (descend fuel k (path_of C) (pid t)) a (Inr (path_of C', p, entry_at es k)) a"
    unfolding a t pid.simps using IH(1) ss(2) ts a by (intro run_descend_inner [of N, OF N]) (simp add: nth_append)
  then show ?case using IH t ss(1) ts(1) by auto
qed


subsection \<open>The contents\<close>

definition holds :: "bstar_tree \<Rightarrow> store \<Rightarrow> LeafEntry list \<Rightarrow> bool" where
  "holds b a es \<longleftrightarrow> (case a of (c, md, dk, N) \<Rightarrow> store_ok b a \<and> meta_ok b md \<and> dk = md \<and>
     (if bm_root_page_id md = InvalidPageId
      then bm_first_leaf_page_id md = InvalidPageId \<and> bm_tree_height md = 0 \<and> es = []
      else \<exists>h T. rooted b h T a \<and> sub b 1 h T \<and> ordered (flat T) \<and> ents_of (flat T) = es))"

lemma rooted_valid: "rooted b h T (c, md, dk, N) \<Longrightarrow> bm_root_page_id md \<noteq> InvalidPageId"
proof -
  assume a: "rooted b h T (c, md, dk, N)"
  then have "pid T \<in> dom N" using rep_dom(1) [of N True InvalidPageId T] by (cases T) (auto simp: rooted_def)
  then show ?thesis using a store_ok_bound [of b c md dk N "pid T"] by (auto simp: rooted_def roots_def)
qed

lemma holds_tree:
  "rooted b h T a \<Longrightarrow> sub b 1 h T \<Longrightarrow> ordered (flat T) \<Longrightarrow> holds b a (ents_of (flat T))"
  using rooted_valid [of b h T] by (cases a) (auto simp: holds_def rooted_def)

lemma sorted_keys: "holds b a es \<Longrightarrow> sorted_wrt (<) (map fst es)"
  using ordered_ents by (cases a) (auto simp: holds_def split: if_splits)

lemma entry_at_eq: "sorted_wrt (<) (map fst es) \<Longrightarrow> entry_at es k = map_of es k"
proof (induction es)
  case (Cons e es)
  show ?case
  proof (cases "fst e < k")
    case True
    then show ?thesis using Cons by (cases e) (auto simp: entry_at_def FindEntryPosition_def Let_def)
  next
    case False
    have "map_of es k = None" if "k < fst e"
      using Cons.prems that by (fastforce simp: map_of_eq_None_iff)
    then show ?thesis using False by (cases e) (auto simp: entry_at_def FindEntryPosition_def)
  qed
qed (simp add: entry_at_def FindEntryPosition_def)

lemma around_keys:
  "around k C \<Longrightarrow> e \<in> set (ents_of (left_of C)) \<Longrightarrow> fst e < k"
  "around k C \<Longrightarrow> e \<in> set (ents_of (right_of C)) \<Longrightarrow> k < fst e"
  by (force simp: around_def list_all_iff set_ents_of)+

lemma map_of_around: "around k C \<Longrightarrow> map_of (ents_of (left_of C) @ es @ ents_of (right_of C)) k = map_of es k"
proof -
  assume a: "around k C"
  then have "map_of (ents_of (left_of C)) k = None" "map_of (ents_of (right_of C)) k = None"
    using around_keys [OF a] by (fastforce simp: map_of_eq_None_iff)+
  then show ?thesis by (simp add: map_add_def split: option.splits)
qed

lemma run_FindPathToLeaf:
  assumes "rooted b h T a" "sub b 1 h T" "ordered (flat T)"
  obtains C p es where "run b (FindPathToLeaf k) a (Inr (path_of C, p, map_of (ents_of (flat T)) k)) a"
    "plug C (PLeaf p es) = T" "foc b 0 C (PLeaf p es) a" "sub b (low b C) 0 (PLeaf p es)" "around k C" "length C = h"
    "map_of (ents_of (flat T)) k = map_of es k" "ents_of (flat T) = ents_of (left_of C) @ es @ ents_of (right_of C)"
proof -
  obtain c md dk N where a: "a = (c, md, dk, N)" by (cases a)
  have "foc b h [] T a" "sub b (low b []) h T" using assms by (simp_all add: foc_Nil low_def)
  moreover have "h < c + 1" using rooted_depth [of b h T c md dk N 1] assms(1,2) a by simp
  ultimately obtain C p es where d: "run b (descend (c + 1) k (path_of []) (pid T)) a (Inr (path_of C, p, entry_at es k)) a"
    "plug C (PLeaf p es) = plug [] T" "foc b 0 C (PLeaf p es) a" "sub b (low b C) 0 (PLeaf p es)" "around k C"
    "length C = h + length ([] :: ctx)"
    using run_descend [of b h "[]" T a k "c + 1"] assms(3) by (auto simp: around_def)
  have cs: "csub b 0 C" using d(3) by (simp add: foc_def)
  have ents: "ents_of (flat T) = ents_of (left_of C) @ es @ ents_of (right_of C)"
    using arg_cong [OF d(2), of "\<lambda>t. ents_of (flat t)"] by (simp add: flat_plug [OF cs])
  have "sorted_wrt (<) (map fst es)"
    using ordered_ents [OF assms(3)] by (simp add: ents sorted_wrt_append)
  then have m: "entry_at es k = map_of (ents_of (flat T)) k" "map_of (ents_of (flat T)) k = map_of es k"
    using entry_at_eq map_of_around [OF d(5)] ents by simp_all
  have root: "bm_root_page_id md = pid T" "bm_root_page_id md \<noteq> InvalidPageId"
    using assms(1) rooted_valid [of b h T c md dk N] a by (auto simp: rooted_def roots_def)
  have "run b (FindPathToLeaf k) a (Inr (path_of C, p, map_of (ents_of (flat T)) k)) a"
    unfolding FindPathToLeaf_def a
    by (rule run_the_bt, simp only: cfg_simps root(2) if_False)
      (use d(1) a m(1) root in \<open>auto intro!: run_bind [OF run_visit_bound]\<close>)
  then show ?thesis using that [OF _ _ d(3-5) _ m(2) ents] d(2,6) by simp
qed

lemma run_Find:
  assumes "holds b a es" "bt_is_open b" "ValidateKeyType b k = Inr ()"
  shows "run b (bt_Find k) a (Inr (map_of es k)) a"
proof -
  obtain c md dk N where a: "a = (c, md, dk, N)" by (cases a)
  show ?thesis
  proof (cases "bm_root_page_id md = InvalidPageId")
    case True
    then have "es = []" using assms(1) a by (simp add: holds_def)
    then show ?thesis unfolding bt_Find_def a using assms(2,3) True
      by (intro run_the_bt, simp only: cfg_simps)
        (auto intro!: run_bind [OF run_guard] run_bind [OF run_liftR] run_ret)
  next
    case False
    then obtain h T where T: "rooted b h T a" "sub b 1 h T" "ordered (flat T)" "ents_of (flat T) = es"
      using assms(1) a by (auto simp: holds_def)
    obtain C p where "run b (FindPathToLeaf k) a (Inr (path_of C, p, map_of es k)) a"
      using run_FindPathToLeaf [OF T(1-3), of k] T(4) by metis
    then show ?thesis unfolding bt_Find_def a using assms(2,3) False
      by (intro run_the_bt, simp only: cfg_simps if_False)
        (rule run_bind [OF run_guard], simp, simp, rule run_bind [OF run_liftR], rule run_bind, assumption, simp add: run_ret)
  qed
qed

subsection \<open>The leaf chain\<close>

primrec leaves :: "ptree \<Rightarrow> (nat \<times> LeafEntry list) list" where
  "leaves (PLeaf p es) = [(p, es)]"
| "leaves (PNode p ss ts) = concat (map leaves ts)"

definition head_page :: "(nat \<times> LeafEntry list) list \<Rightarrow> nat \<Rightarrow> nat" where
  "head_page ls nx = (case ls of [] \<Rightarrow> nx | (p, _) # _ \<Rightarrow> p)"

lemma head_page_simps [simp]: "head_page [] nx = nx" "head_page ((p, es) # ls) nx = p"
  "head_page (ls @ ms) nx = head_page ls (head_page ms nx)"
  by (auto simp: head_page_def split: list.splits)

fun chain :: "(nat \<Rightarrow> node option) \<Rightarrow> nat \<Rightarrow> (nat \<times> LeafEntry list) list \<Rightarrow> bool" where
  "chain N nx [] \<longleftrightarrow> True"
| "chain N nx ((p, es) # ls) \<longleftrightarrow> (leaf_at N p (head_page ls nx) True es \<or> leaf_at N p (head_page ls nx) False es) \<and> chain N nx ls"

lemma chain_append [simp]: "chain N nx (ls @ ms) \<longleftrightarrow> chain N (head_page ms nx) ls \<and> chain N nx ms"
  by (induction ls) auto

lemma rep_chain:
  "rep N rt nx t \<Longrightarrow> sub b lo n t \<Longrightarrow> chain N nx (leaves t) \<and> leaves t \<noteq> [] \<and> head_page (leaves t) nx' = first_leaf t"
  "reps N nx ts \<Longrightarrow> list_all (sub b lo n) ts \<Longrightarrow> chain N nx (concat (map leaves ts)) \<and>
     head_page (concat (map leaves ts)) nx' = next_leaf ts nx'"
proof (induction N rt nx t and N nx ts arbitrary: n lo nx' and n lo nx' rule: rep_reps.induct)
  case (1 N rt nx p es)
  then show ?case by (cases rt) auto
next
  case (2 N rt nx p ss ts)
  then obtain m where m: "n = Suc m" "list_all (sub b (MinKeysPerNonRootNode b) m) ts" "ts \<noteq> []"
    by (cases n; cases ts) auto
  moreover have "concat (map leaves ts) \<noteq> []"
  proof
    assume e: "concat (map leaves ts) = []"
    have "head_page (concat (map leaves ts)) q = next_leaf ts q" for q using 2 m by auto
    then have "q = next_leaf ts q" for q unfolding e by simp
    from this [of "Suc (first_leaf (hd ts))"] show False using m(3) by (cases ts) auto
  qed
  ultimately show ?case using 2 by (cases ts) fastforce+
next
  case (4 N nx t ts)
  then show ?case by fastforce
qed auto

lemma leaves_ents:
  "sub b lo n t \<Longrightarrow> concat (map snd (leaves t)) = ents_of (flat t)"
proof (induction n arbitrary: t lo)
  case (Suc n)
  then obtain p ss ts where t: "t = PNode p ss ts" "length ts = Suc (length ss)"
    "list_all (sub b (MinKeysPerNonRootNode b) n) ts" by (auto simp: sub_Suc)
  have "concat (map snd (concat (map leaves us))) = ents_of (weave qs (map flat us))"
    if "list_all (sub b (MinKeysPerNonRootNode b) n) us" for qs us
    using that by (induction qs "map flat us" arbitrary: us rule: weave.induct) (auto simp: Suc.IH)
  then show ?case using t by simp
qed (auto simp: sub_0)

lemma leaves_plug:
  "csub b n C \<Longrightarrow> \<exists>pre post. leaves (plug C t) = pre @ leaves t @ post \<and>
    concat (map snd pre) = ents_of (left_of C) \<and> concat (map snd post) = ents_of (right_of C)"
proof (induction C arbitrary: n t)
  case Nil
  show ?case by (intro exI [of _ "[]"]) simp
next
  case (Cons fr C)
  obtain p ls lts rs rts where fr: "fr = (p, ls, lts, rs, rts)" by (cases fr)
  let ?t = "PNode p (ls @ rs) (lts @ t # rts)"
  have l: "concat (map snd (concat (map leaves lts))) = ents_of (weave ls (map flat lts))"
    if "length ls = length lts" "list_all (sub b (MinKeysPerNonRootNode b) n) lts" for ls lts
    using that by (induction ls lts rule: list_induct2) (auto simp: leaves_ents)
  have r: "concat (map snd (concat (map leaves rts))) = ents_of (weave_right rs (map flat rts))"
    if "length rs = length rts" "list_all (sub b (MinKeysPerNonRootNode b) n) rts" for rs rts
    using that by (induction rs rts rule: list_induct2) (auto simp: leaves_ents)
  obtain pre post where IH: "leaves (plug C ?t) = pre @ leaves ?t @ post"
    "concat (map snd pre) = ents_of (left_of C)" "concat (map snd post) = ents_of (right_of C)"
    using Cons.IH [of "Suc n" ?t] Cons.prems fr by auto
  show ?case
    using Cons.prems fr IH l [of ls lts] r [of rs rts]
    by (intro exI [of _ "pre @ concat (map leaves lts)"] exI [of _ "concat (map leaves rts) @ post"]) auto
qed

lemma length_leaves: "length (leaves t) \<le> length (pids t)"
proof (induction t)
  case (PNode p ss ts)
  then have "length (concat (map leaves ts)) \<le> length (concat (map pids ts))"
    by (induction ts) fastforce+
  then show ?case by simp
qed simp

subsection \<open>Range search\<close>

lemma range_leaf_append: "range_leaf rng (xs @ ys) = (case range_leaf rng xs of (rids, stop) \<Rightarrow>
    if stop then (rids, True) else case range_leaf rng ys of (rids', stop') \<Rightarrow> (rids @ rids', stop'))"
  by (induction xs) (auto simp: Let_def split: prod.splits if_splits)

lemma range_leaf_filter:
  "sorted_wrt (<) (map fst es) \<Longrightarrow> fst (range_leaf rng es) = map snd (filter (\<lambda>e. FitsInRange (fst e) rng) es)"
proof (induction es)
  case (Cons e es)
  have "\<not> FitsInRange (fst e') rng"
    if "e' \<in> set (e # es)" "rg_high rng = Some hi" "if rg_include_high rng then fst e > hi else \<not> fst e < hi" for e' hi
    using that Cons.prems by (cases "rg_include_high rng") (fastforce simp: FitsInRange_def)+
  then show ?case using Cons by (auto simp: Let_def split: option.splits prod.splits)
qed simp

lemma run_range_walk:
  assumes "chain N InvalidPageId ls" "length ls < fuel" "\<And>q. q \<in> dom N \<Longrightarrow> q \<noteq> InvalidPageId"
  shows "run b (range_walk fuel rng (head_page ls InvalidPageId)) (c, md, dk, N)
    (Inr (fst (range_leaf rng (concat (map snd ls))))) (c, md, dk, N)"
  using assms(1,2)
proof (induction ls arbitrary: fuel)
  case Nil
  then obtain f where "fuel = Suc f" by (cases fuel) auto
  then show ?case by simp
next
  case (Cons l ls)
  obtain p es f where l: "l = (p, es)" "fuel = Suc f" using Cons.prems(2) by (cases l; cases fuel) auto
  then obtain par rt where N: "N p = Some (LeafN par (head_page ls InvalidPageId) rt es)"
    using Cons.prems(1) by (auto simp: leaf_at_iff)
  then have v: "p \<noteq> InvalidPageId" using assms(3) by auto
  have IH: "run b (range_walk f rng (head_page ls InvalidPageId)) (c, md, dk, N)
      (Inr (fst (range_leaf rng (concat (map snd ls))))) (c, md, dk, N)"
    using Cons l by auto
  obtain rids stop where r: "range_leaf rng es = (rids, stop)" by fastforce
  have "run b (range_walk fuel rng p) (c, md, dk, N)
      (Inr (if stop then rids else rids @ fst (range_leaf rng (concat (map snd ls))))) (c, md, dk, N)"
    unfolding l range_walk.simps if_not_P [OF v]
    by (rule run_bind [OF run_read_leaf [of N, OF N]]) (use r in \<open>auto intro: run_ret run_bind [OF IH]\<close>)
  moreover have "fst (range_leaf rng (concat (map snd (l # ls)))) =
      (if stop then rids else rids @ fst (range_leaf rng (concat (map snd ls))))"
    using r l(1) by (simp add: range_leaf_append split: prod.splits)
  ultimately show ?case by (simp only: l(1) head_page_simps)
qed

lemma run_RangeSearch:
  assumes "holds b a es" "bt_is_open b" "ValidateRange b rng = Inr ()"
  shows "run b (bt_RangeSearch rng) a (Inr (map snd (filter (\<lambda>e. FitsInRange (fst e) rng) es))) a"
proof -
  obtain c md dk N where a: "a = (c, md, dk, N)" by (cases a)
  show ?thesis
  proof (cases "bm_root_page_id md = InvalidPageId")
    case True
    then have "es = []" using assms(1) a by (simp add: holds_def)
    then show ?thesis unfolding bt_RangeSearch_def a using assms(2,3) True
      by (intro run_the_bt, simp only: cfg_simps)
        (auto intro!: run_bind [OF run_guard] run_bind [OF run_liftR] run_ret)
  next
    case False
    then obtain h T where T: "rooted b h T a" "sub b 1 h T" "ordered (flat T)" "ents_of (flat T) = es"
      using assms(1) a by (auto simp: holds_def)
    have rep: "rep N True InvalidPageId T" "distinct (pids T)" "store_ok b (c, md, dk, N)" "bm_first_leaf_page_id md = first_leaf T"
      using T(1) a by (auto simp: rooted_def roots_def)
    note ch = rep_chain(1) [OF rep(1) T(2)]
    let ?start = "case rg_low rng of None \<Rightarrow> ret (first_leaf T)
       | Some lo \<Rightarrow> bindS (FindPathToLeaf lo) (\<lambda>(_, leaf, _). ret leaf)"
    have "\<exists>pre ls. leaves T = pre @ ls \<and> run b ?start a (Inr (head_page ls InvalidPageId)) a \<and>
        (\<forall>e\<in>set (concat (map snd pre)). \<not> FitsInRange (fst e) rng)"
    proof (cases "rg_low rng")
      case None
      then show ?thesis using ch by (intro exI [of _ "[]"] exI [of _ "leaves T"]) (auto intro: run_ret)
    next
      case (Some k)
      obtain C p es' where C: "run b (FindPathToLeaf k) a (Inr (path_of C, p, map_of (ents_of (flat T)) k)) a"
        "plug C (PLeaf p es') = T" "foc b 0 C (PLeaf p es') a" "around k C"
        using run_FindPathToLeaf [OF T(1-3), of k] by metis
      then obtain pre post where l: "leaves T = pre @ (p, es') # post" "concat (map snd pre) = ents_of (left_of C)"
        using leaves_plug [of b 0 C "PLeaf p es'"] by (auto simp: foc_def)
      have "\<not> FitsInRange (fst e) rng" if "e \<in> set (concat (map snd pre))" for e
        using around_keys(1) [OF C(4), of e] that Some unfolding l(2) by (auto simp: FitsInRange_def)
      then show ?thesis using l Some C(1)
        by (intro exI [of _ pre] exI [of _ "(p, es') # post"]) (auto intro!: run_bind [OF C(1)] run_ret)
    qed
    then obtain pre ls where ls: "leaves T = pre @ ls" "run b ?start a (Inr (head_page ls InvalidPageId)) a"
      "\<And>e. e \<in> set (concat (map snd pre)) \<Longrightarrow> \<not> FitsInRange (fst e) rng" by blast
    have es: "es = concat (map snd pre) @ concat (map snd ls)" using leaves_ents [OF T(2)] T(4) ls(1) by simp
    have "length ls < c + 1 + 1"
      using length_leaves [of T] rooted_pids [of b h T c md dk N] T(1) a ls(1) by simp
    moreover have "chain N InvalidPageId ls" using ch ls(1) by simp
    moreover have "q \<noteq> InvalidPageId" if "q \<in> dom N" for q using store_ok_bound [OF rep(3) that] by simp
    moreover have "sorted_wrt (<) (map fst (concat (map snd ls)))"
      using sorted_keys [OF assms(1)] unfolding es map_append sorted_wrt_append by blast
    moreover have "filter (\<lambda>e. FitsInRange (fst e) rng) es = filter (\<lambda>e. FitsInRange (fst e) rng) (concat (map snd ls))"
      unfolding es filter_append by (subst filter_False) (use ls(3) in blast, simp only: append_Nil)
    ultimately have w: "run b (range_walk (c + 1 + 1) rng (head_page ls InvalidPageId)) a
        (Inr (map snd (filter (\<lambda>e. FitsInRange (fst e) rng) es))) a"
      using run_range_walk [of N ls "c + 1 + 1" b rng c md dk] range_leaf_filter [of "concat (map snd ls)" rng] a by simp
    show ?thesis unfolding bt_RangeSearch_def a using assms(2,3) False
      by (intro run_the_bt, simp only: cfg_simps if_False rep(4))
        (rule run_bind [OF run_guard], simp, rule run_bind [OF run_liftR [of b "Inr ()"]],
          rule run_bind [OF ls(2) [unfolded a]], rule run_bind [OF run_visit_bound], rule w [unfolded a])
  qed
qed

end
