(* ===== verification/BStar_Update.thy ===== *)
theory BStar_Update
  imports BStar_Search
begin

text \<open>
  What insertion and deletion share: writing one node, the separator of the parent, and moving entries or children between
  two siblings.
\<close>

declare run_ret [simp]

subsection \<open>Updating a node in its context\<close>

lemma run_write_leaf_to:
  assumes "node_ok b nd" "0 < p" "p < c" "nd = LeafN (nh_parent_page_id h) (nh_next_leaf_page_id h) (nh_is_root h) es"
  shows "run b (write_leaf p h es) (c, md, dk, N) (Inr ()) (c, md, dk, N(p \<mapsto> nd))"
  using run_write_leaf [of b h es p c] assms by simp

lemma run_write_internal_to:
  assumes "node_ok b nd" "0 < p" "p < c" "nd = InternalN (nh_parent_page_id h) (nh_is_root h) ss cs"
  shows "run b (write_internal p h (ss, cs)) (c, md, dk, N) (Inr ()) (c, md, dk, N(p \<mapsto> nd))"
  using run_write_internal [of b h ss cs p c] assms by simp

lemma foc_iff: "foc b n C t (c, md, dk, N) \<longleftrightarrow> store_ok b (c, md, dk, N) \<and> meta_ok b md \<and> dk = md \<and>
    roots (n + length C) (plug C t) md \<and> csub b n C \<and> crep N C (pid t) (first_leaf t) \<and> rep N (C = []) (nxt C) t \<and>
    distinct (cpids C @ pids t)"
  by (auto simp: foc_def rooted_def rep_plug distinct_plug)

lemma roots_plug: "roots h (plug C t) md \<Longrightarrow> pid t' = pid t \<Longrightarrow> first_leaf t' = first_leaf t \<Longrightarrow> roots h (plug C t') md"
  using pid_plug [of t' t C] first_leaf_plug [of t' t C] by (simp add: roots_def)

lemma crep_dom: "crep N C p f \<Longrightarrow> set (cpids C) \<subseteq> dom N"
  by (induction N C p f rule: crep.induct) (auto simp: inner_at_iff dest!: rep_dom(2), blast+)

lemma rep_cong:
  "(\<And>q. q \<in> set (pids t) \<Longrightarrow> N' q = N q) \<Longrightarrow> rep N' rt nx t = rep N rt nx t"
  "(\<And>q. q \<in> set (concat (map pids ts)) \<Longrightarrow> N' q = N q) \<Longrightarrow> reps N' nx ts = reps N nx ts"
  by (induction N rt nx t and N nx ts rule: rep_reps.induct) (auto simp: leaf_at_iff inner_at_iff)

lemma crep_cong: "(\<And>q. q \<in> set (cpids C) \<Longrightarrow> N' q = N q) \<Longrightarrow> crep N' C p f = crep N C p f"
proof (induction N C p f rule: crep.induct)
  case (2 N q ls lts rs rts C p f)
  have "reps N' f lts = reps N f lts" "reps N' (nxt C) rts = reps N (nxt C) rts"
    using 2(2) by (intro rep_cong(2); force)+
  then show ?case using 2 by (simp add: inner_at_iff)
qed simp

text \<open>Everything outside the hole stays, the hole gets a new tree on the same page with the same first leaf.\<close>

lemma foc_replace:
  assumes "foc b n C t (c, md, dk, N)" "store_ok b (c', md, dk, N')" "\<And>q. q \<in> set (cpids C) \<Longrightarrow> N' q = N q"
    "rep N' (C = []) (nxt C) t'" "pid t' = pid t" "first_leaf t' = first_leaf t" "distinct (cpids C @ pids t')"
  shows "foc b n C t' (c', md, dk, N')"
  using assms(1,2,4-7) crep_cong [of C N' N, OF assms(3)] roots_plug by (auto simp: foc_iff)

lemma fresh: "foc b n C t (c, md, dk, N) \<Longrightarrow> c \<le> q \<Longrightarrow> q \<notin> set (cpids C) \<and> q \<notin> set (pids t)"
  using foc_dom [of b n C t c md dk N q] by (fastforce simp: foc_iff store_ok_def)

lemma foc_node_ok:
  "foc b n C (PLeaf p es) (c, md, dk, N) \<Longrightarrow> \<exists>par. N p = Some (LeafN par (nxt C) (C = []) es) \<and>
     node_ok b (LeafN par (nxt C) (C = []) es)"
  "foc b n C (PNode p ss ts) (c, md, dk, N) \<Longrightarrow> \<exists>par. N p = Some (InternalN par (C = []) ss (map pid ts)) \<and>
     node_ok b (InternalN par (C = []) ss (map pid ts))"
  by (auto simp: foc_iff leaf_at_iff inner_at_iff dest: store_ok_node)

lemma foc_leaf_upd:
  assumes "foc b n C (PLeaf p es) (c, md, dk, N)" "node_ok b (LeafN par (nxt C) (C = []) es')"
  shows "foc b n C (PLeaf p es') (c, md, dk, N(p \<mapsto> LeafN par (nxt C) (C = []) es'))"
proof -
  have s: "store_ok b (c, md, dk, N)" and p: "p \<in> dom N" "p \<notin> set (cpids C)"
    using assms(1) foc_dom [OF assms(1), of p] by (auto simp: foc_iff)
  then show ?thesis
    using store_ok_upd [OF s assms(2)] store_ok_bound [OF s p(1)] assms(1) by (intro foc_replace [OF assms(1)]) (auto simp: foc_iff)
qed

lemma foc_node_upd:
  assumes "foc b n C (PNode p ss ts) (c, md, dk, N)" "node_ok b (InternalN par (C = []) ss' (map pid ts))"
  shows "foc b n C (PNode p ss' ts) (c, md, dk, N(p \<mapsto> InternalN par (C = []) ss' (map pid ts)))"
proof -
  have s: "store_ok b (c, md, dk, N)" and p: "p \<in> dom N" "p \<notin> set (cpids C)"
    using assms(1) foc_dom [OF assms(1), of p] by (auto simp: foc_iff)
  have "first_leaf (PNode p ss' ts) = first_leaf (PNode p ss ts)" by (cases ts) auto
  then show ?thesis
    using store_ok_upd [OF s assms(2)] store_ok_bound [OF s p(1)] assms(1) p(2)
    by (intro foc_replace [OF assms(1)]) (auto simp: foc_iff)
qed

subsection \<open>The separator in front of a subtree\<close>

lemma nxt_set_sep [simp]: "nxt (set_sep k C) = nxt C"
  by (induction k C rule: set_sep.induct) auto

lemma pid_plug_set_sep: "pid (plug (set_sep k C) t) = pid (plug C t)"
  by (induction k C arbitrary: t rule: set_sep.induct) (auto intro: pid_plug)

lemma first_leaf_plug_set_sep: "first_leaf (plug (set_sep k C) t) = first_leaf (plug C t)"
proof (induction k C arbitrary: t rule: set_sep.induct)
  case (2 k p ls lts rs rts C)
  then show ?case by (cases lts) (auto intro!: first_leaf_plug)
qed simp

lemma run_UpdateParentSeparator:
  assumes "foc b n C t a" "key_ok b k"
  shows "\<exists>a'. run b (UpdateParentSeparatorAfterChildChange (path_of C) k) a (Inr ()) a' \<and> foc b n (set_sep k C) t a' \<and>
    fst a' = fst a"
  using assms
proof (induction k C arbitrary: n t rule: set_sep.induct)
  case (1 k)
  then show ?case by (intro exI [of _ a]) simp
next
  case (2 k p ls lts rs rts C)
  obtain c md dk N where a: "a = (c, md, dk, N)" by (cases a)
  show ?case
  proof (cases "lts = []")
    case True
    obtain a' where "run b (UpdateParentSeparatorAfterChildChange (path_of C) k) a (Inr ()) a'"
      "foc b (Suc n) (set_sep k C) (PNode p (ls @ rs) (lts @ t # rts)) a'" "fst a' = fst a"
      using 2 True by (fastforce simp: foc_Cons)
    then show ?thesis using True 2(2) by (intro exI [of _ a']) (auto simp: foc_Cons low_def)
  next
    case False
    let ?t = "PNode p (ls @ rs) (lts @ t # rts)"
    have f: "foc b (Suc n) C ?t (c, md, dk, N)" and len: "length ls = length lts" "length rs = length rts"
      using 2(2) a by (auto simp: foc_Cons)
    obtain par where N: "N p = Some (InternalN par (C = []) (ls @ rs) (map pid (lts @ t # rts)))"
      "node_ok b (InternalN par (C = []) (ls @ rs) (map pid (lts @ t # rts)))"
      using foc_node_ok(2) [OF f] by blast
    have up: "(ls @ rs)[length lts - 1 := k] = butlast ls @ k # rs"
      using len False by (cases ls rule: rev_cases) (auto simp: list_update_append)
    have ok: "node_ok b (InternalN par (C = []) (butlast ls @ k # rs) (map pid (lts @ t # rts)))"
      using N(2) 2(2,3) len False by (cases ls rule: rev_cases) (auto simp: foc_Cons)
    have "foc b (Suc n) C (PNode p (butlast ls @ k # rs) (lts @ t # rts))
        (c, md, dk, N(p \<mapsto> InternalN par (C = []) (butlast ls @ k # rs) (map pid (lts @ t # rts))))"
      by (rule foc_node_upd [OF f ok])
    then have "foc b n (set_sep k ((p, ls, lts, rs, rts) # C)) t
        (c, md, dk, N(p \<mapsto> InternalN par (C = []) (butlast ls @ k # rs) (map pid (lts @ t # rts))))"
      using 2(2) len False by (cases ls rule: rev_cases) (auto simp: foc_Cons)
    moreover have "run b (UpdateParentSeparatorAfterChildChange (path_of ((p, ls, lts, rs, rts) # C)) k) (c, md, dk, N) (Inr ())
        (c, md, dk, N(p \<mapsto> InternalN par (C = []) (butlast ls @ k # rs) (map pid (lts @ t # rts))))"
    proof -
      have "0 < p" "p < c" using f store_ok_node [of b c md dk N p, OF _ N(1)] by (auto simp: foc_iff)
      then show ?thesis using False ok
        by (simp, intro run_bind [OF run_read_internal [of N, OF N(1)]])
          (auto intro!: run_write_internal_to simp: up [simplified])
    qed
    ultimately show ?thesis unfolding a by (metis fst_conv)
  qed
qed


subsection \<open>Choosing where to cut\<close>

definition imbalance :: "nat \<Rightarrow> nat \<Rightarrow> nat" where
  "imbalance n i = (if i > n - i then i - (n - i) else n - i - i)"

lemma choose_split_loop_spec:
  assumes "\<forall>i d. best = Some (i, d) \<longrightarrow> fits i (n - i) \<and> d = imbalance n i"
  shows "case choose_split_loop fits n is best of
      None \<Rightarrow> best = None \<and> (\<forall>i\<in>set is. \<not> fits i (n - i))
    | Some (i, d) \<Rightarrow> fits i (n - i) \<and> d = imbalance n i \<and> (i \<in> set is \<or> best = Some (i, d)) \<and>
        (\<forall>j\<in>set is. fits j (n - j) \<longrightarrow> d \<le> imbalance n j) \<and> (\<forall>j e. best = Some (j, e) \<longrightarrow> d \<le> e)"
  using assms
proof (induction "is" arbitrary: best)
  case Nil
  then show ?case by (auto split: option.splits)
next
  case (Cons i "is")
  let ?best = "case best of None \<Rightarrow> Some (i, imbalance n i)
    | Some (b, d) \<Rightarrow> if imbalance n i < d then Some (i, imbalance n i) else Some (b, d)"
  show ?case
  proof (cases "fits i (n - i)")
    case False
    then show ?thesis using Cons.IH [OF Cons.prems] by (auto simp: Let_def split: option.splits)
  next
    case True
    have step: "choose_split_loop fits n (i # is) best = choose_split_loop fits n is ?best"
      by (simp only: choose_split_loop.simps Let_def imbalance_def [symmetric] True not_True_eq_False if_False)
    have "\<forall>j d. ?best = Some (j, d) \<longrightarrow> fits j (n - j) \<and> d = imbalance n j"
      using Cons.prems True by (auto split: option.splits prod.splits if_splits)
    from Cons.IH [OF this] show ?thesis
      unfolding step using Cons.prems True by (auto split: option.splits prod.splits if_splits)
  qed
qed

lemma choose_split_loop_cong:
  "(\<And>i. i \<in> set is \<Longrightarrow> fits i (n - i) = fits' i (n - i)) \<Longrightarrow>
    choose_split_loop fits n is best = choose_split_loop fits' n is best"
  by (induction "is" arbitrary: best) (auto simp: Let_def)

lemma choose_middle_eq: "choose_middle_loop fits n ms best = choose_split_loop fits (n - 1) ms best"
  by (induction ms arbitrary: best) (auto simp: Let_def)


lemma split_exists:
  assumes "(m::nat) \<le> M" "0 < M" "2 * m \<le> n" "n \<le> 2 * M" "2 \<le> n"
  shows "\<exists>i. 1 \<le> i \<and> i < n \<and> m \<le> i \<and> i \<le> M \<and> m \<le> n - i \<and> n - i \<le> M"
  using assms by (intro exI [of _ "n div 2"]) auto

lemma entries_ok_simps [simp]:
  "entries_ok b (xs @ ys) \<longleftrightarrow> entries_ok b xs \<and> entries_ok b ys"
  "entries_ok b (e # ys) \<longleftrightarrow> key_ok b (fst e) \<and> snd e < 2 ^ 64 \<and> entries_ok b ys"
  "entries_ok b []"
  by (auto simp: entries_ok_def)

lemma entries_ok_take: "entries_ok b xs \<Longrightarrow> entries_ok b (take i xs)" "entries_ok b xs \<Longrightarrow> entries_ok b (drop i xs)"
  by (auto simp: entries_ok_def list_all_iff dest: in_set_takeD in_set_dropD)

lemma cfg_Min: "cfg_ok b \<Longrightarrow> 1 \<le> MinKeysPerNonRootNode b \<and> MaxKeysPerNode b = 2 * MinKeysPerNonRootNode b + 1"
  by (auto simp: cfg_ok_def MinKeysPerNonRootNode_def MaxKeysPerNode_def)

subsection \<open>Sharing between two leaves\<close>

text \<open>The two leaves and their parent after their entries are divided anew.\<close>

lemma share_leaves:
  assumes f: "foc b 1 C (PNode q (ls @ s # rs) (lts @ PLeaf p es0 # PLeaf p2 es2 # rts)) (c, md, dk, N)"
    and len: "length ls = length lts" "length rs = length rts"
    and L: "node_ok b (LeafN par p2 False L)" and R: "node_ok b (LeafN par2 (next_leaf rts (nxt C)) False R)" and k: "key_ok b k"
    and q: "N q = Some (InternalN parq (C = []) (ls @ s # rs) cs)"
    and cs_def: "cs = map pid lts @ p # p2 # map pid rts"
  defines "N' \<equiv> N(p \<mapsto> LeafN par p2 False L, p2 \<mapsto> LeafN par2 (next_leaf rts (nxt C)) False R,
      q \<mapsto> InternalN parq (C = []) (ls @ k # rs) cs)"
  shows "foc b 1 C (PNode q (ls @ k # rs) (lts @ PLeaf p L # PLeaf p2 R # rts)) (c, md, dk, N')"
    "node_ok b (InternalN parq (C = []) (ls @ k # rs) cs)"
proof -
  note s = foc_parts(1) [OF f]
  have b: "0 < p \<and> p < c" "0 < p2 \<and> p2 < c" "0 < q \<and> q < c"
    using foc_dom [OF f] store_ok_bound [OF s] by simp_all
  show ok: "node_ok b (InternalN parq (C = []) (ls @ k # rs) cs)"
    using store_ok_node [OF s, of q, OF q] k len by (simp add: cs_def)
  have "store_ok b (c, md, dk, N')"
    unfolding N'_def using s L R ok b by (intro store_ok_upd) auto
  moreover have "first_leaf (PNode q (ls @ k # rs) (lts @ PLeaf p L # PLeaf p2 R # rts)) =
      first_leaf (PNode q (ls @ s # rs) (lts @ PLeaf p es0 # PLeaf p2 es2 # rts))"
    by (cases lts) auto
  ultimately show "foc b 1 C (PNode q (ls @ k # rs) (lts @ PLeaf p L # PLeaf p2 R # rts)) (c, md, dk, N')"
    using f by (intro foc_replace [OF f]) (auto simp: foc_iff N'_def cs_def)
qed


lemma ChooseBalancedSplit_cases:
  assumes "\<And>i. 0 < i \<Longrightarrow> i < n \<Longrightarrow> fits i (n - i) \<longleftrightarrow> m \<le> i \<and> i \<le> M \<and> m \<le> n - i \<and> n - i \<le> M" "m \<le> M" "0 < M"
  shows "if 2 * m \<le> n \<and> n \<le> 2 * M \<and> 2 \<le> n
    then \<exists>i. ChooseBalancedSplit n fits = Some i \<and> 0 < i \<and> i < n \<and> m \<le> i \<and> i \<le> M \<and> m \<le> n - i \<and> n - i \<le> M
    else ChooseBalancedSplit n fits = None"
proof -
  note spec = choose_split_loop_spec [of None fits n "[1..<n]"]
  show ?thesis
  proof (cases "choose_split_loop fits n [1..<n] None")
    case None
    then have "\<not> fits i (n - i)" if "1 \<le> i" "i < n" for i using spec that by auto
    then have "\<not> (2 * m \<le> n \<and> n \<le> 2 * M \<and> 2 \<le> n)" using split_exists [of m M n] assms by fastforce
    then show ?thesis using None by (simp add: ChooseBalancedSplit_def)
  next
    case (Some r)
    then obtain i d where "r = (i, d)" "fits i (n - i)" "0 < i" "i < n" using spec by (cases r) auto
    then show ?thesis using Some assms by (auto simp: ChooseBalancedSplit_def)
  qed
qed

lemma run_RedistributeLeaf:
  assumes f: "foc b 1 C (PNode q (ls @ s # rs) (lts @ PLeaf p es0 # PLeaf p2 es2 # rts)) a"
    and len: "length ls = length lts" "length rs = length rts" and ok: "entries_ok b exp"
  defines "com \<equiv> exp @ es2" and "m \<equiv> MinKeysPerNonRootNode b" and "M \<equiv> MaxKeysPerNode b"
    and "redis \<equiv> RedistributeLeafWithRightSibling p ((q, length lts) # path_of C) exp"
  shows "if 2 * m \<le> length com \<and> length com \<le> 2 * M
    then \<exists>i a'. run b redis a (Inr True) a' \<and> m \<le> i \<and> i \<le> M \<and> m \<le> length com - i \<and> length com - i \<le> M \<and> i < length com \<and> 0 < i \<and>
        fst a' = fst a \<and>
        foc b 1 (if lts = [] then set_sep (fst (hd com)) C else C)
         (PNode q (ls @ fst (hd (drop i com)) # rs) (lts @ PLeaf p (take i com) # PLeaf p2 (drop i com) # rts)) a'
    else run b redis a (Inr False) a"
proof -
  obtain c md dk N where a: "a = (c, md, dk, N)" by (cases a)
  note f = f [unfolded a]
  note st = foc_parts(1) [OF f]
  have cfg: "cfg_ok b" using st by (simp add: store_ok_def)
  let ?cs = "map pid lts @ p # p2 # map pid rts" and ?nx = "next_leaf rts (nxt C)"
  obtain parq par par2 where N: "N q = Some (InternalN parq (C = []) (ls @ s # rs) ?cs)"
    "N p = Some (LeafN par p2 False es0)" "N p2 = Some (LeafN par2 ?nx False es2)"
    using f by (auto simp: foc_iff inner_at_iff leaf_at_iff)
  note nok = store_ok_node [OF st, of q, OF N(1)] store_ok_node [OF st, of p, OF N(2)] store_ok_node [OF st, of p2, OF N(3)]
  let ?h = "header_of (LeafN par p2 False es0)" and ?h2 = "header_of (LeafN par2 ?nx False es2)"
  let ?fits = "\<lambda>l r. \<not> (l < m \<or> l > M) \<and> \<not> (r < m \<or> r > M) \<and> \<not> isl (BuildLeafPage b ?h (take l com)) \<and>
     \<not> isl (BuildLeafPage b ?h2 (drop l com))"
  have com: "entries_ok b com" using nok(3) ok by (simp add: com_def)
  have L: "node_ok b (LeafN par p2 False (take i com))" if "i \<le> M" for i
    using nok(2) that entries_ok_take(1) [OF com] by (simp add: M_def)
  have R: "node_ok b (LeafN par2 ?nx False (drop i com))" if "length com - i \<le> M" for i
    using nok(3) that entries_ok_take(2) [OF com] by (simp add: M_def)
  have "?fits i (length com - i) \<longleftrightarrow> m \<le> i \<and> i \<le> M \<and> m \<le> length com - i \<and> length com - i \<le> M" for i
    using BuildLeafPage_ok [OF cfg, of ?h "take i com"] BuildLeafPage_ok [OF cfg, of ?h2 "drop i com"] L [of i] R [of i] by auto
  from ChooseBalancedSplit_cases [of "length com" ?fits m M, OF this] cfg_Min [OF cfg]
  have ch: "if 2 * m \<le> length com \<and> length com \<le> 2 * M
    then \<exists>i. ChooseBalancedSplit (length com) ?fits = Some i \<and> 0 < i \<and> i < length com \<and> m \<le> i \<and> i \<le> M \<and>
      m \<le> length com - i \<and> length com - i \<le> M
    else ChooseBalancedSplit (length com) ?fits = None"
    by (auto simp: m_def M_def split: if_splits)
  let ?body = "\<lambda>split. case split of None \<Rightarrow> ret False | Some i \<Rightarrow>
     bindS (write_leaf p (?h\<lparr>nh_next_leaf_page_id := p2\<rparr>) (take i com)) (\<lambda>_.
     bindS (write_leaf p2 ?h2 (drop i com)) (\<lambda>_.
     bindS (write_internal q (header_of (InternalN parq (C = []) (ls @ s # rs) ?cs)) ((ls @ s # rs)[length lts := fst (hd (drop i com))], ?cs)) (\<lambda>_.
     bindS (if length lts = 0 \<and> take i com \<noteq> []
            then UpdateParentSeparatorAfterChildChange ((q, length lts) # path_of C) (fst (hd (take i com))) else ret ()) (\<lambda>_.
       ret True))))"
  have exec: "run b redis a r a'" if "run b (?body (ChooseBalancedSplit (length com) ?fits)) a r a'" for r a'
  proof -
    have nth: "?cs ! (length lts + 1) = p2" "\<not> length lts + 1 \<ge> length ?cs" by (simp_all add: nth_append)
    show ?thesis
      unfolding redis_def RedistributeLeafWithRightSibling_def list.case prod.case a
      apply (rule run_bind [OF run_read_internal [of N, OF N(1)]])
      apply (simp only: prod.case nth if_False Let_def [of p2])
      apply (rule run_bind [OF run_ReadPage [of N, OF N(2)]])
      apply (rule run_bind [OF run_ReadPage [of N, OF N(3)]])
      apply (rule run_parse_leaf_of [of N, OF N(2)])
      apply (simp only: prod.case)
      apply (rule run_parse_leaf_of [of N, OF N(3)])
      apply (simp only: prod.case)
      apply (rule run_the_bt)
      apply (simp only: cfg_simps Let_def com_def [symmetric] m_def [symmetric] M_def [symmetric])
      apply (rule that [unfolded a])
      done
  qed
  show ?thesis
  proof (cases "2 * m \<le> length com \<and> length com \<le> 2 * M")
    case False
    have none: "ChooseBalancedSplit (length com) ?fits = None" using ch unfolding if_not_P [OF False] .
    show ?thesis unfolding if_not_P [OF False] by (rule exec, simp only: none option.case run_ret)
  next
    case True
    obtain i where i: "ChooseBalancedSplit (length com) ?fits = Some i" "0 < i" "i < length com" "m \<le> i" "i \<le> M"
      "m \<le> length com - i" "length com - i \<le> M" using ch unfolding if_P [OF True] by blast
    let ?k = "fst (hd (drop i com))" and ?C = "if lts = [] then set_sep (fst (hd com)) C else C"
    have key: "key_ok b ?k" "key_ok b (fst (hd com))" and hd: "take i com \<noteq> []" "hd (take i com) = hd com"
      using com i(2,3) entries_ok_take(2) [OF com, of i] by (cases "drop i com"; cases com; auto)+
    let ?N = "N(p \<mapsto> LeafN par p2 False (take i com), p2 \<mapsto> LeafN par2 ?nx False (drop i com),
      q \<mapsto> InternalN parq (C = []) (ls @ ?k # rs) ?cs)"
    let ?t = "PNode q (ls @ ?k # rs) (lts @ PLeaf p (take i com) # PLeaf p2 (drop i com) # rts)"
    note sh = share_leaves [OF f len L [OF i(5)] R [OF i(7)] key(1) N(1) refl]
    obtain a' where a': "run b (if length lts = 0 \<and> take i com \<noteq> []
        then UpdateParentSeparatorAfterChildChange ((q, length lts) # path_of C) (fst (hd (take i com))) else ret ())
        (c, md, dk, ?N) (Inr ()) a'" "foc b 1 ?C ?t a'" "fst a' = c"
    proof (cases "lts = []")
      case True
      then show ?thesis using run_UpdateParentSeparator [OF sh(1) key(2)] that hd by auto
    next
      case False
      then show ?thesis using that [of "(c, md, dk, ?N)"] sh(1) by (simp add: run_ret)
    qed
    have up: "(ls @ s # rs)[length lts := ?k] = ls @ ?k # rs" using len(1) by (simp add: list_update_append)
    have "run b (?body (Some i)) (c, md, dk, N) (Inr True) a'"
      unfolding option.case up
      by (rule run_bind [OF run_write_leaf_to [OF L [OF i(5)]]], simp_all only: nok header_of.simps NodeHeader.simps simp_thms,
        rule run_bind [OF run_write_leaf_to [OF R [OF i(7)]]], simp_all only: nok header_of.simps NodeHeader.simps simp_thms,
        rule run_bind [OF run_write_internal_to [OF sh(2)]], simp_all only: nok header_of.simps NodeHeader.simps simp_thms,
        rule run_bind [OF a'(1)], rule run_ret)
    then have "run b redis a (Inr True) a'" by (intro exec, unfold i(1) a)
    then show ?thesis unfolding if_P [OF True] using i a'(2,3) a
      by (intro exI [of _ i] exI [of _ a']) (simp del: length_0_conv)
  qed
qed


lemma run_RedistributeLeaf_last:
  assumes "path = [] \<or> (\<exists>par rt ss cs q path'. path = (q, length ss) # path' \<and> N q = Some (InternalN par rt ss cs) \<and> length cs = Suc (length ss))"
  shows "run b (RedistributeLeafWithRightSibling p path exp) (c, md, dk, N) (Inr False) (c, md, dk, N)"
  using assms
proof
  assume "path = []"
  then show ?thesis unfolding RedistributeLeafWithRightSibling_def by (simp only: list.case run_ret)
next
  assume "\<exists>par rt ss cs q path'. path = (q, length ss) # path' \<and> N q = Some (InternalN par rt ss cs) \<and> length cs = Suc (length ss)"
  then obtain par rt ss cs q path' where path: "path = (q, length ss) # path'" and
    N: "N q = Some (InternalN par rt ss cs)" "length cs = Suc (length ss)" by blast
  show ?thesis unfolding RedistributeLeafWithRightSibling_def path list.case prod.case
    by (rule run_bind [OF run_read_internal [of N, OF N(1)]]) (simp add: N(2))
qed

subsection \<open>Nodes that are about to be written\<close>

text \<open>
  \<open>pend b n C t p par rt ss ts a\<close>: the tree \<open>t\<close> would be in the hole of \<open>C\<close> once page \<open>p\<close>, an internal node, were written with
  the separators \<open>ss\<close> and the children \<open>ts\<close>; there may be too many of them for the page.
\<close>

definition foc_at :: "bstar_tree \<Rightarrow> nat \<Rightarrow> ctx \<Rightarrow> ptree \<Rightarrow> TreeMetadata \<Rightarrow> (nat \<Rightarrow> node option) \<Rightarrow> bool" where
  "foc_at b n C t md N \<longleftrightarrow> meta_ok b md \<and> roots (n + length C) (plug C t) md \<and> csub b n C \<and>
     crep N C (pid t) (first_leaf t) \<and> rep N (C = []) (nxt C) t \<and> distinct (cpids C @ pids t)"

lemma foc_foc_at: "foc b n C t (c, md, dk, N) \<longleftrightarrow> store_ok b (c, md, dk, N) \<and> dk = md \<and> foc_at b n C t md N"
  by (auto simp: foc_iff foc_at_def)

definition pend :: "bstar_tree \<Rightarrow> nat \<Rightarrow> ctx \<Rightarrow> ptree \<Rightarrow> nat \<Rightarrow> nat \<Rightarrow> bool \<Rightarrow> Value list \<Rightarrow> ptree list \<Rightarrow> store \<Rightarrow> bool" where
  "pend b n C t p par rt ss ts a \<longleftrightarrow> (case a of (c, md, dk, N) \<Rightarrow> store_ok b a \<and> dk = md \<and>
     (\<exists>ss0 cs0. N p = Some (InternalN par rt ss0 cs0)) \<and> list_all (key_ok b) ss \<and> length ts = Suc (length ss) \<and>
     foc_at b n C t md (N(p \<mapsto> InternalN par rt ss (map pid ts))))"

lemma foc_at_plug: "foc_at b n C t md N \<longleftrightarrow> meta_ok b md \<and> roots (n + length C) (plug C t) md \<and> csub b n C \<and>
    rep N True InvalidPageId (plug C t) \<and> distinct (pids (plug C t))"
  by (auto simp: foc_at_def rep_plug distinct_plug)

lemma foc_at_Cons: "foc_at b n ((p, ls, lts, rs, rts) # C) t md N \<longleftrightarrow> length ls = length lts \<and> length rs = length rts \<and>
    low b C \<le> length ls + length rs \<and> length ls + length rs \<le> MaxKeysPerNode b \<and>
    list_all (sub b (MinKeysPerNonRootNode b) n) lts \<and> list_all (sub b (MinKeysPerNonRootNode b) n) rts \<and>
    foc_at b (Suc n) C (PNode p (ls @ rs) (lts @ t # rts)) md N"
  by (auto simp: foc_at_plug)

lemma foc_at_subst:
  assumes "foc_at b n C t md N" "\<And>q. q \<in> set (cpids C) \<Longrightarrow> N' q = N q"
    "rep N' (C = []) (nxt C) t'" "pid t' = pid t" "first_leaf t' = first_leaf t" "distinct (cpids C @ pids t')"
  shows "foc_at b n C t' md N'"
  using assms(1,3-6) crep_cong [of C N' N, OF assms(2)] roots_plug by (auto simp: foc_at_def)

lemma foc_at_replace:
  assumes "foc_at b n C t md N" "\<And>q. q \<in> set (cpids C) \<Longrightarrow> N' q = N q"
    "rep N' (C = []) (nxt C) t'" "pid t' = pid t" "first_leaf t' = first_leaf t" "mset (pids t') = mset (pids t)"
  shows "foc_at b n C t' md N'"
proof (rule foc_at_subst [OF assms(1-5)])
  show "distinct (cpids C @ pids t')" using assms(1,6) mset_eq_imp_distinct_iff [of "cpids C @ pids t'" "cpids C @ pids t"]
    by (simp add: foc_at_def)
qed auto

subsection \<open>Sharing between two internal nodes\<close>

lemma weave_snoc_sep: "length xs = Suc (length ss) \<Longrightarrow> weave (ss @ s # ss') (xs @ xs') = weave ss xs @ Sep s # weave ss' xs'"
proof (induction ss xs rule: weave.induct)
  case (2 x xs)
  then show ?case by simp
qed auto

lemma weave_cut:
  assumes "length xs = Suc (length ss)" "m < length ss"
  shows "weave ss xs = weave (take m ss) (take (Suc m) xs) @ Sep (ss ! m) # weave (drop (Suc m) ss) (drop (Suc m) xs)"
  using weave_snoc_sep [of "take (Suc m) xs" "take m ss" "ss ! m" "drop (Suc m) ss" "drop (Suc m) xs"] assms
  by (simp add: id_take_nth_drop [symmetric])


lemma list_all_cut: "list_all P xs \<Longrightarrow> list_all P (take i xs)" "list_all P xs \<Longrightarrow> list_all P (drop i xs)"
  by (auto simp: list_all_iff dest: in_set_takeD in_set_dropD)

lemma pid_in_pids: "pid t \<in> set (pids t)"
  by (cases t) auto

lemma pids_dom:
  assumes "reps N nx ts"
  shows "set (map pid ts) \<subseteq> dom N"
proof
  fix p assume "p \<in> set (map pid ts)"
  then obtain t where "t \<in> set ts" "p = pid t" by auto
  then have "p \<in> set (concat (map pids ts))" using pid_in_pids [of t] by auto
  then show "p \<in> dom N" using rep_dom(2) [OF assms] by blast
qed

lemma children_small:
  assumes "store_ok b (c, md, dk, N)" "reps N nx ts"
  shows "list_all (\<lambda>c. c < 2 ^ 64) (map pid ts)"
  unfolding list_all_iff
proof
  fix p assume "p \<in> set (map pid ts)"
  then have "p \<in> dom N" using pids_dom [OF assms(2)] by blast
  then show "p < 2 ^ 64" using store_ok_bound [OF assms(1), of p] by (simp add: InvalidPageId_def)
qed

lemma share_nodes:
  assumes pd: "pend b n C (PNode q (ls @ s # rs) (lts @ PNode p ss ts # PNode p2 ss2 ts2 # rts)) p par False ss ts (c, md, dk, N)"
    and keys: "keys = ss @ s # ss2" and ch: "ch = ts @ ts2"
    and m: "m < length keys" "m \<le> MaxKeysPerNode b" "length keys - m - 1 \<le> MaxKeysPerNode b"
    and N: "N q = Some (InternalN parq (C = []) (ls @ s # rs) cs)" "N p2 = Some (InternalN par2 False ss2 (map pid ts2))"
    and cs: "cs = map pid lts @ p # p2 # map pid rts"
    and L: "L = InternalN par False (take m keys) (take (Suc m) (map pid ch))"
    and R: "R = InternalN par2 False (drop (Suc m) keys) (drop (Suc m) (map pid ch))"
    and Q: "Q = InternalN parq (C = []) (ls @ keys ! m # rs) cs"
  shows "node_ok b L" "node_ok b R" "node_ok b Q"
    "foc b n C (PNode q (ls @ keys ! m # rs) (lts @ PNode p (take m keys) (take (Suc m) ch) #
        PNode p2 (drop (Suc m) keys) (drop (Suc m) ch) # rts)) (c, md, dk, N(p \<mapsto> L, p2 \<mapsto> R, q \<mapsto> Q))"
proof -
  let ?N0 = "N(p \<mapsto> InternalN par False ss (map pid ts))"
  have pd': "store_ok b (c, md, dk, N)" "dk = md" "list_all (key_ok b) ss" "length ts = Suc (length ss)"
    and fa: "foc_at b n C (PNode q (ls @ s # rs) (lts @ PNode p ss ts # PNode p2 ss2 ts2 # rts)) md ?N0"
    using pd by (auto simp: pend_def)
  obtain ss0 cs0 where Np: "N p = Some (InternalN par False ss0 cs0)" using pd by (auto simp: pend_def)
  note nq = store_ok_node [OF pd'(1), of q, OF N(1)] and n2 = store_ok_node [OF pd'(1), of p2, OF N(2)]
    and np = store_ok_node [OF pd'(1), of p, OF Np]
  have len: "length ch = Suc (length keys)" "length ts2 = Suc (length ss2)" using n2 pd'(4) keys ch by auto
  have kok: "list_all (key_ok b) keys" using pd'(3) nq n2 keys by simp
  have dist: "distinct (cpids C @ pids (PNode q (ls @ s # rs) (lts @ PNode p ss ts # PNode p2 ss2 ts2 # rts)))"
    and reps: "reps ?N0 (first_leaf (PNode p ss ts)) lts" "reps ?N0 (next_leaf rts (nxt C)) ts2" "reps ?N0 (nxt C) rts"
      "reps ?N0 (first_leaf (PNode p2 ss2 ts2)) ts"
    using fa by (auto simp: foc_at_def)
  define us where "us = take (Suc m) ch"
  define vs where "vs = drop (Suc m) ch"
  have uv: "ch = us @ vs" "length us = Suc m" "us \<noteq> []" "vs \<noteq> []" "ts \<noteq> []" "ts2 \<noteq> []"
    using len m(1) pd'(4) by (auto simp: us_def vs_def)
  have fl: "first_leaf (PNode r x ts2) = next_leaf ts2 y" "first_leaf (PNode r x ts) = next_leaf ts y"
    "first_leaf (PNode r x vs) = next_leaf vs y" "first_leaf (PNode r x us) = next_leaf us y" for r x y
    using uv by (auto intro: first_leaf_next)
  have nus: "next_leaf ts x = next_leaf us y" for x y using uv ch by (cases ts; cases us) auto
  have rch: "reps N (next_leaf rts (nxt C)) ch"
    using reps(2) reps(4) [unfolded fl(1) [of _ _ "next_leaf rts (nxt C)"]] dist by (simp add: ch)
  have reps': "reps N (first_leaf (PNode p2 x vs)) us" "reps N (next_leaf rts (nxt C)) vs" for x
    using rch unfolding uv(1) fl(3) [of _ _ "next_leaf rts (nxt C)"] by auto
  have fle: "first_leaf (PNode p x us) = first_leaf (PNode p ss ts)" for x
    using nus [of 0 0] fl(2) [of p ss 0] fl(4) [of p x 0] by simp
  have "key_ok b (keys ! m)" using kok m(1) by (simp add: list_all_length)
  then show ok: "node_ok b L" "node_ok b R" "node_ok b Q"
    using np n2 nq kok children_small [OF pd'(1) rch] len m
    by (auto simp: L R Q cs intro!: list_all_cut)
  have ms: "mset (concat (map pids us)) + mset (concat (map pids vs)) = mset (concat (map pids ts)) + mset (concat (map pids ts2))"
    using arg_cong [OF uv(1) [unfolded ch], of "\<lambda>xs. mset (concat (map pids xs))"] by simp
  let ?N = "N(p \<mapsto> L, p2 \<mapsto> R, q \<mapsto> Q)"
  let ?t = "PNode q (ls @ keys ! m # rs) (lts @ PNode p (take m keys) us # PNode p2 (drop (Suc m) keys) vs # rts)"
  have "store_ok b (c, md, dk, ?N)" using pd'(1) ok np n2 nq by (intro store_ok_upd) auto
  moreover have "foc_at b n C ?t md ?N"
  proof (rule foc_at_replace [OF fa])
    show "mset (pids ?t) = mset (pids (PNode q (ls @ s # rs) (lts @ PNode p ss ts # PNode p2 ss2 ts2 # rts)))"
      using ms by simp
    have nin: "x \<notin> set (concat (map pids us)) \<and> x \<notin> set (concat (map pids vs))" if "x \<in> {p, p2, q}" for x
      using arg_cong [OF ms, of set_mset] dist that by auto
    show "rep ?N (C = []) (nxt C) ?t"
      using reps(1,3) dist reps' nin [of p] nin [of p2] nin [of q]
      by (simp add: L R Q cs uv(1,2) fle)
    show "first_leaf ?t = first_leaf (PNode q (ls @ s # rs) (lts @ PNode p ss ts # PNode p2 ss2 ts2 # rts))"
      using fle by (cases lts) auto
  qed (use dist in auto)
  ultimately show "foc b n C (PNode q (ls @ keys ! m # rs) (lts @ PNode p (take m keys) (take (Suc m) ch) #
        PNode p2 (drop (Suc m) keys) (drop (Suc m) ch) # rts)) (c, md, dk, ?N)"
    using pd'(2) by (simp add: foc_foc_at us_def vs_def)
qed


lemma choose_middle_cases:
  assumes "\<And>i. m \<le> i \<Longrightarrow> i < n \<Longrightarrow> fits i (n - i - 1) \<longleftrightarrow> i \<le> M \<and> m \<le> n - i - 1 \<and> n - i - 1 \<le> M" "m \<le> M"
  shows "if 2 * m + 1 \<le> n \<and> n \<le> 2 * M + 1
    then \<exists>i d. choose_middle_loop fits n [m..<n] None = Some (i, d) \<and> m \<le> i \<and> i \<le> M \<and> i < n \<and> m \<le> n - i - 1 \<and> n - i - 1 \<le> M
    else choose_middle_loop fits n [m..<n] None = None"
proof -
  note spec = choose_split_loop_spec [of None fits "n - 1" "[m..<n]", folded choose_middle_eq]
  show ?thesis
  proof (cases "choose_middle_loop fits n [m..<n] None")
    case None
    then have "\<not> fits i (n - i - 1)" if "m \<le> i" "i < n" for i using spec that by (auto simp: diff_commute)
    moreover have "m \<le> n div 2 \<and> n div 2 < n \<and> n div 2 \<le> M \<and> m \<le> n - n div 2 - 1 \<and> n - n div 2 - 1 \<le> M"
      if "2 * m + 1 \<le> n" "n \<le> 2 * M + 1"
    proof -
      have "n = 2 * (n div 2) \<or> n = 2 * (n div 2) + 1" by presburger
      then show ?thesis using that by linarith
    qed
    ultimately have "\<not> (2 * m + 1 \<le> n \<and> n \<le> 2 * M + 1)" using assms(1) [of "n div 2"] by blast
    then show ?thesis using None by simp
  next
    case (Some r)
    then obtain i d where "r = (i, d)" "fits i (n - i - 1)" "m \<le> i" "i < n" using spec by (cases r) (auto simp: diff_commute)
    then show ?thesis using Some assms(1) [of i] by auto
  qed
qed

lemma run_RedistributeInternal:
  assumes pd: "pend b n C (PNode q (ls @ s # rs) (lts @ PNode p ss ts # PNode p2 ss2 ts2 # rts)) p par False ss ts a"
    and len: "length ls = length lts" "length rs = length rts"
    and keys: "keys = ss @ s # ss2" and ch: "ch = ts @ ts2"
  defines "m \<equiv> MinKeysPerNonRootNode b" and "M \<equiv> MaxKeysPerNode b"
    and "redis \<equiv> RedistributeInternalWithRightSibling p ((q, length lts) # path_of C) (ss, map pid ts)"
  shows "if 2 * m + 1 \<le> length keys \<and> length keys \<le> 2 * M + 1
    then \<exists>i a'. run b redis a (Inr True) a' \<and> m \<le> i \<and> i \<le> M \<and> i < length keys \<and> m \<le> length keys - i - 1 \<and>
        length keys - i - 1 \<le> M \<and> fst a' = fst a \<and>
        foc b n C (PNode q (ls @ keys ! i # rs) (lts @ PNode p (take i keys) (take (Suc i) ch) #
          PNode p2 (drop (Suc i) keys) (drop (Suc i) ch) # rts)) a'
    else run b redis a (Inr False) a"
proof -
  obtain c md dk N where a: "a = (c, md, dk, N)" by (cases a)
  note pd = pd [unfolded a]
  let ?cs = "map pid lts @ p # p2 # map pid rts"
  have st: "store_ok b (c, md, dk, N)" using pd by (auto simp: pend_def)
  have cfg: "cfg_ok b" using st by (simp add: store_ok_def)
  obtain ss0 cs0 parq par2 where N: "N q = Some (InternalN parq (C = []) (ls @ s # rs) ?cs)"
    "N p = Some (InternalN par False ss0 cs0)" "N p2 = Some (InternalN par2 False ss2 (map pid ts2))"
    using pd by (auto simp: pend_def foc_at_def inner_at_iff)
  note nok = store_ok_node [OF st, of q, OF N(1)] store_ok_node [OF st, of p, OF N(2)] store_ok_node [OF st, of p2, OF N(3)]
  note sh = share_nodes [OF pd keys ch _ _ _ N(1,3) refl refl refl refl]
  let ?hq = "header_of (InternalN parq (C = []) (ls @ s # rs) ?cs)" and ?h = "header_of (InternalN par False ss0 cs0)"
  let ?h2 = "header_of (InternalN par2 False ss2 (map pid ts2))"
  let ?lo = "\<lambda>i. (take i keys, take (i + 1) (map pid ch))" and ?hi = "\<lambda>i. (drop (i + 1) keys, drop (i + 1) (map pid ch))"
  let ?fits = "\<lambda>i r. \<not> (i > M \<or> r < m \<or> r > M) \<and> \<not> isl (BuildInternalPage b ?h (?lo i)) \<and> \<not> isl (BuildInternalPage b ?h2 (?hi i))"
  have fit: "?fits i (length keys - i - 1) \<longleftrightarrow> i \<le> M \<and> m \<le> length keys - i - 1 \<and> length keys - i - 1 \<le> M"
    if "m \<le> i" "i < length keys" for i
    using sh(1,2) [of i] that
      BuildInternalPage_ok [OF cfg, of ?h "take i keys" "take (i + 1) (map pid ch)"]
      BuildInternalPage_ok [OF cfg, of ?h2 "drop (i + 1) keys" "drop (i + 1) (map pid ch)"]
    by (auto simp: M_def)
  have "m \<le> M" using cfg_Min [OF cfg] by (simp add: m_def M_def)
  note ch' = choose_middle_cases [of m "length keys" ?fits M, OF fit this]
  let ?body = "\<lambda>best. case best of None \<Rightarrow> ret False
     | Some (i, _) \<Rightarrow>
     bindS (write_internal p ?h (?lo i)) (\<lambda>_.
     bindS (write_internal p2 ?h2 (?hi i)) (\<lambda>_.
     bindS (write_internal q ?hq ((ls @ s # rs)[length lts := keys ! i], ?cs)) (\<lambda>_.
     bindS (rewrite_child_parent (snd (?lo i)) p) (\<lambda>_.
     bindS (rewrite_child_parent (snd (?hi i)) p2) (\<lambda>_.
       ret True)))))"
  have exec: "run b redis a r a'" if "run b (?body (choose_middle_loop ?fits (length keys) [m..<length keys] None)) a r a'" for r a'
  proof -
    have nth: "?cs ! (length lts + 1) = p2" "\<not> length lts + 1 \<ge> length ?cs" "(ls @ s # rs) ! length lts = s"
      using len by (simp_all add: nth_append)
    show ?thesis
      unfolding redis_def RedistributeInternalWithRightSibling_def list.case prod.case a
      apply (rule run_bind [OF run_read_internal [of N, OF N(1)]])
      apply (simp only: prod.case nth if_False Let_def [of p2])
      apply (rule run_bind [OF run_ReadPage [of N, OF N(2)]])
      apply (rule run_bind [OF run_ReadPage [of N, OF N(3)]])
      apply (rule run_parse_internal_of [of N, OF N(2)])
      apply (simp only: prod.case)
      apply (rule run_parse_internal_of [of N, OF N(3)])
      apply (simp only: prod.case)
      apply (rule run_the_bt)
      apply (simp only: cfg_simps Let_def keys [symmetric] fst_conv snd_conv append_Cons append_Nil m_def [symmetric] M_def [symmetric] map_append [symmetric] ch [symmetric])
      apply (rule that [unfolded a snd_conv])
      done
  qed
  show ?thesis
  proof (cases "2 * m + 1 \<le> length keys \<and> length keys \<le> 2 * M + 1")
    case False
    have none: "choose_middle_loop ?fits (length keys) [m..<length keys] None = None" using ch' unfolding if_not_P [OF False] .
    show ?thesis unfolding if_not_P [OF False] by (rule exec, simp only: none option.case run_ret)
  next
    case True
    obtain i d where i: "choose_middle_loop ?fits (length keys) [m..<length keys] None = Some (i, d)" "m \<le> i" "i \<le> M"
      "i < length keys" "m \<le> length keys - i - 1" "length keys - i - 1 \<le> M" using ch' unfolding if_P [OF True] by blast
    note sh = sh [OF i(4) i(3) [unfolded M_def] i(6) [unfolded M_def], folded Suc_eq_plus1]
    let ?N = "N(p \<mapsto> InternalN par False (take i keys) (take (Suc i) (map pid ch)),
        p2 \<mapsto> InternalN par2 False (drop (Suc i) keys) (drop (Suc i) (map pid ch)),
        q \<mapsto> InternalN parq (C = []) (ls @ keys ! i # rs) ?cs)"
    have up: "(ls @ s # rs)[length lts := keys ! i] = ls @ keys ! i # rs" using len(1) by (simp add: list_update_append)
    have sub: "set (take (Suc i) (map pid ch)) \<subseteq> dom ?N" "set (drop (Suc i) (map pid ch)) \<subseteq> dom ?N"
      using foc_parts(7) [OF sh(4)] pids_dom [of ?N] unfolding rep.simps reps_append reps.simps take_map drop_map by blast+
    have "run b (?body (Some (i, d))) (c, md, dk, N) (Inr True) (c, md, dk, ?N)"
      unfolding option.case prod.case up snd_conv Suc_eq_plus1 [symmetric]
      by (rule run_bind [OF run_write_internal_to [OF sh(1)]], simp_all only: nok header_of.simps NodeHeader.simps simp_thms,
        rule run_bind [OF run_write_internal_to [OF sh(2)]], simp_all only: nok header_of.simps NodeHeader.simps simp_thms,
        rule run_bind [OF run_write_internal_to [OF sh(3)]], simp_all only: nok header_of.simps NodeHeader.simps simp_thms,
        rule run_bind [OF run_rewrite_child_parent [OF sub(1)]], rule run_bind [OF run_rewrite_child_parent [OF sub(2)]], rule run_ret)
    then have "run b redis a (Inr True) (c, md, dk, ?N)" by (intro exec, unfold i(1) a)
    then show ?thesis unfolding if_P [OF True] a using i(2-6) sh(4)
      by (intro exI [of _ i] exI [of _ "(c, md, dk, ?N)"] conjI) (simp_all only: fst_conv)
  qed
qed


lemma run_RedistributeInternal_last:
  assumes "path = [] \<or> (\<exists>par rt ss cs q path'. path = (q, length ss) # path' \<and> N q = Some (InternalN par rt ss cs) \<and> length cs = Suc (length ss))"
  shows "run b (RedistributeInternalWithRightSibling p path node) (c, md, dk, N) (Inr False) (c, md, dk, N)"
  using assms
proof
  assume "path = []"
  then show ?thesis unfolding RedistributeInternalWithRightSibling_def by (simp only: list.case run_ret)
next
  assume "\<exists>par rt ss cs q path'. path = (q, length ss) # path' \<and> N q = Some (InternalN par rt ss cs) \<and> length cs = Suc (length ss)"
  then obtain par rt ss cs q path' where path: "path = (q, length ss) # path'" and
    N: "N q = Some (InternalN par rt ss cs)" "length cs = Suc (length ss)" by blast
  show ?thesis unfolding RedistributeInternalWithRightSibling_def path list.case prod.case
    by (rule run_bind [OF run_read_internal [of N, OF N(1)]]) (simp add: N(2))
qed

end
