(* ===== verification/BStar_Insert.thy ===== *)
theory BStar_Insert
  imports BStar_Update
begin

text \<open>
  Insertion. \<open>InsertIntoInternal\<close> and \<open>SplitInternal\<close> are followed up the path by induction on the context; a page store with
  room for two pages more than the tree has levels is enough.
\<close>

subsection \<open>Room for new pages\<close>

lemma room_mono: "room b n c \<Longrightarrow> m \<le> n \<Longrightarrow> room b m c"
  unfolding room_def using mult_le_mono1 [of "c + m" "c + n" "bt_page_size b"] by linarith

lemma room_Suc: "room b (Suc n) c \<longleftrightarrow> room b n (Suc c)"
  by (simp add: room_def)

lemma room_small: "cfg_ok b \<Longrightarrow> room b n c \<Longrightarrow> c + n < 2 ^ 64 - 1"
proof -
  assume a: "cfg_ok b" "room b n c"
  have "(c + n) * 2 \<le> (c + n) * bt_page_size b" using a(1) by (intro mult_le_mono2) (auto simp: cfg_ok_def)
  then show ?thesis using a(2) by (auto simp: room_def HeaderSize_def)
qed

lemma store_ok_grow: "store_ok b (c, md, dk, N) \<Longrightarrow> room b n c \<Longrightarrow> store_ok b (c + n, md', dk', N)"
  using room_small [of b n c] by (fastforce simp: store_ok_def)

subsection \<open>A split below a parent, and a split of the root\<close>

lemma pend_split:
  assumes fa: "foc_at b n ((q, ls, lts, rs, rts) # C) t md N0"
    and N2: "\<And>x. x \<in> set (cpids ((q, ls, lts, rs, rts) # C)) \<Longrightarrow> N2 x = N0 x"
    and L: "rep N2 False (first_leaf R) L" and R: "rep N2 False (next_leaf rts (nxt C)) R"
    and t: "pid L = pid t" "first_leaf L = first_leaf t"
    and dist: "distinct (cpids ((q, ls, lts, rs, rts) # C) @ pids L @ pids R)"
    and k: "key_ok b k" and st: "store_ok b (c, md, md, N2)"
  obtains par where "N2 q = Some (InternalN par (C = []) (ls @ rs) (map pid (lts @ L # rts)))"
    "pend b (Suc n) C (PNode q (ls @ k # rs) (lts @ L # R # rts)) q par (C = []) (ls @ k # rs) (lts @ L # R # rts) (c, md, md, N2)"
proof -
  have fa': "foc_at b (Suc n) C (PNode q (ls @ rs) (lts @ t # rts)) md N0" "length ls = length lts" "length rs = length rts"
    using fa by (simp_all add: foc_at_Cons)
  then obtain par where q0: "N0 q = Some (InternalN par (C = []) (ls @ rs) (map pid (lts @ t # rts)))"
    by (auto simp: foc_at_def inner_at_iff)
  then have q: "N2 q = Some (InternalN par (C = []) (ls @ rs) (map pid (lts @ L # rts)))" using N2 [of q] t(1) by simp
  have "list_all (key_ok b) (ls @ rs)" using store_ok_node [OF st, of q, OF q] by simp
  moreover have "foc_at b (Suc n) C (PNode q (ls @ k # rs) (lts @ L # R # rts)) md
      (N2(q \<mapsto> InternalN par (C = []) (ls @ k # rs) (map pid (lts @ L # R # rts))))"
  proof (rule foc_at_subst [OF fa'(1)])
    have "reps N2 (first_leaf t) lts = reps N0 (first_leaf t) lts" "reps N2 (nxt C) rts = reps N0 (nxt C) rts"
      using N2 by (intro rep_cong(2); force)+
    then show "rep (N2(q \<mapsto> InternalN par (C = []) (ls @ k # rs) (map pid (lts @ L # R # rts)))) (C = []) (nxt C)
        (PNode q (ls @ k # rs) (lts @ L # R # rts))"
      using fa'(1) dist L R t by (simp add: foc_at_def)
    show "first_leaf (PNode q (ls @ k # rs) (lts @ L # R # rts)) = first_leaf (PNode q (ls @ rs) (lts @ t # rts))"
      using t by (cases lts) auto
    show "distinct (cpids C @ pids (PNode q (ls @ k # rs) (lts @ L # R # rts)))" using dist by auto
  qed (use N2 dist in auto)
  ultimately show ?thesis using that [OF q] k st q fa'(2,3) by (auto simp: pend_def)
qed

lemma rooted_split:
  assumes md: "meta_ok b md" "roots n t md" "n < c" and L: "rep N2 False (first_leaf R) L" and R: "rep N2 False InvalidPageId R"
    and t: "pid L = pid t" "first_leaf L = first_leaf t"
    and dist: "distinct (r # pids L @ pids R)" and st: "store_ok b (c, md, dk, N2)" "0 < r" "r < c" and k: "key_ok b k"
    and sub: "sub b (MinKeysPerNonRootNode b) n L" "sub b (MinKeysPerNonRootNode b) n R"
    and md': "md' = md\<lparr>bm_root_page_id := r, bm_tree_height := (bm_tree_height md + 1) mod 2 ^ 64\<rparr>"
    and nd: "nd = InternalN InvalidPageId True [k] [pid L, pid R]"
  shows "node_ok b nd" "rooted b (Suc n) (PNode r [k] [L, R]) (c, md', md', N2(r \<mapsto> nd))" "sub b 1 (Suc n) (PNode r [k] [L, R])"
proof -
  have cfg: "cfg_ok b" "c < 2 ^ 64 - 1" using st(1) by (auto simp: store_ok_def)
  have "list_all (\<lambda>c. c < 2 ^ 64) (map pid [L, R])"
    using L R by (intro children_small [OF st(1), of InvalidPageId]) simp
  then show ok: "node_ok b nd" using k cfg cfg_Min [of b] by (simp add: nd InvalidPageId_def)
  have "(bm_tree_height md + 1) mod 2 ^ 64 = Suc (Suc n)" using md(2,3) cfg(2) by (simp add: roots_def)
  then show "rooted b (Suc n) (PNode r [k] [L, R]) (c, md', md', N2(r \<mapsto> nd))"
    using md(1,2) L R t dist store_ok_upd [OF st(1) ok st(2,3), of md' md'] by (auto simp: rooted_def roots_def meta_ok_def md' nd)
  show "sub b 1 (Suc n) (PNode r [k] [L, R])" using sub cfg_Min [OF cfg(1)] by simp
qed


lemma split_node:
  assumes pd: "pend b (Suc n) C (PNode q ss ts) q par (C = []) ss ts (c, md, dk, N)"
    and ss: "length ss = MaxKeysPerNode b + 1" and sub: "list_all (sub b (MinKeysPerNonRootNode b) n) ts" and par: "par' < 2 ^ 64"
    and m: "m = MinKeysPerNonRootNode b"
    and L: "L = PNode q (take m ss) (take (Suc m) ts)" and R: "R = PNode c (drop (Suc m) ss) (drop (Suc m) ts)"
    and nl: "nl = InternalN par' False (take m ss) (take (Suc m) (map pid ts))"
    and nr: "nr = InternalN par' False (drop (Suc m) ss) (drop (Suc m) (map pid ts))"
  shows "node_ok b nl" "node_ok b nr" "key_ok b (ss ! m)"
    "rep (N(q \<mapsto> nl, c \<mapsto> nr)) False (first_leaf R) L" "rep (N(q \<mapsto> nl, c \<mapsto> nr)) False (nxt C) R"
    "sub b (MinKeysPerNonRootNode b) (Suc n) L" "sub b (MinKeysPerNonRootNode b) (Suc n) R"
    "first_leaf L = first_leaf (PNode q ss ts)" "distinct (cpids C @ pids L @ pids R)"
    "weave ss (map flat ts) = flat L @ Sep (ss ! m) # flat R"
    "\<And>x. x \<in> set (cpids C) \<Longrightarrow> (N(q \<mapsto> nl, c \<mapsto> nr)) x = (N(q \<mapsto> InternalN par (C = []) ss (map pid ts))) x"
    "reps N (nxt C) ts"
proof -
  let ?N0 = "N(q \<mapsto> InternalN par (C = []) ss (map pid ts))"
  have st: "store_ok b (c, md, dk, N)" "list_all (key_ok b) ss" "length ts = Suc (length ss)"
    and fa: "foc_at b (Suc n) C (PNode q ss ts) md ?N0" and q: "q \<in> dom N"
    using pd by (auto simp: pend_def)
  have cfg: "cfg_ok b" using st(1) by (simp add: store_ok_def)
  have sizes: "MaxKeysPerNode b = 2 * m + 1" "m < length ss" "Suc m < length ts" "0 < m" using cfg_Min [OF cfg] ss st(3) m by auto
  have dist: "distinct (cpids C @ q # concat (map pids ts))" and rp: "crep ?N0 C q (first_leaf (PNode q ss ts))" "reps ?N0 (nxt C) ts"
    using fa by (auto simp: foc_at_def)
  have rN: "reps N (nxt C) ts" "crep N C q (first_leaf (PNode q ss ts))" using rp dist by auto
  have c: "c \<notin> set (cpids C)" "c \<notin> set (concat (map pids ts))" "c \<noteq> q"
    using crep_dom [OF rN(2)] rep_dom(2) [OF rN(1)] q store_ok_bound [OF st(1), of c] store_ok_bound [OF st(1), of q] by blast+
  define us where "us = take (Suc m) ts"
  define vs where "vs = drop (Suc m) ts"
  have uv: "ts = us @ vs" "length us = Suc m" "us \<noteq> []" "vs \<noteq> []" using sizes by (auto simp: us_def vs_def)
  have fl: "first_leaf (PNode r x us) = first_leaf (PNode r' x' ts)" "first_leaf (PNode r x vs) = next_leaf vs (nxt C)" for r r' x x'
    using uv by (cases us; simp; fail) (use uv(4) in \<open>rule first_leaf_next\<close>)
  have ru: "reps N (next_leaf vs (nxt C)) us" "reps N (nxt C) vs" using rN(1) unfolding uv(1) by simp_all
  show "reps N (nxt C) ts" by (rule rN(1))
  show "key_ok b (ss ! m)" using st(2) sizes(2) by (simp add: list_all_length)
  show "node_ok b nl" "node_ok b nr"
    using st(2) children_small [OF st(1) rN(1)] ss st(3) sizes par by (auto simp: nl nr intro!: list_all_cut)
  show "rep (N(q \<mapsto> nl, c \<mapsto> nr)) False (first_leaf R) L" "rep (N(q \<mapsto> nl, c \<mapsto> nr)) False (nxt C) R"
    using ru dist c unfolding L R fl(2) us_def [symmetric] vs_def [symmetric] nl nr take_map drop_map by (auto simp: uv(1))
  show "sub b (MinKeysPerNonRootNode b) (Suc n) L" "sub b (MinKeysPerNonRootNode b) (Suc n) R"
    using sub ss st(3) sizes m unfolding L R by (auto intro!: list_all_cut)
  show "first_leaf L = first_leaf (PNode q ss ts)" unfolding L us_def [symmetric] by (rule fl(1))
  show "distinct (cpids C @ pids L @ pids R)"
    using dist c unfolding L R us_def [symmetric] vs_def [symmetric] by (auto simp: uv(1))
  show "weave ss (map flat ts) = flat L @ Sep (ss ! m) # flat R"
    using weave_cut [of "map flat ts" ss m] sizes(2) st(3) by (simp add: L R take_map drop_map)
  show "\<And>x. x \<in> set (cpids C) \<Longrightarrow> (N(q \<mapsto> nl, c \<mapsto> nr)) x = ?N0 x" using c dist by auto
qed


subsection \<open>Splitting an internal node\<close>

lemma cut_dom:
  "set xs \<subseteq> dom N \<Longrightarrow> set (take i xs) \<subseteq> dom (N(p \<mapsto> x, q \<mapsto> y))"
  "set xs \<subseteq> dom N \<Longrightarrow> set (drop i xs) \<subseteq> dom (N(p \<mapsto> x, q \<mapsto> y))"
  by (auto simp: subset_iff dest!: in_set_takeD in_set_dropD)

lemma run_SplitInternal_inner:
  assumes pd: "pend b (Suc n) C (PNode q ss ts) q par (C = []) ss ts (c, md, dk, N)" and C: "C = (q', ls, lts, rs, rts) # C'"
    and ss: "length ss = MaxKeysPerNode b + 1" and sub: "list_all (sub b (MinKeysPerNonRootNode b) n) ts" and room: "room b 1 c"
    and m: "m = MinKeysPerNonRootNode b"
    and nl: "nl = InternalN q' False (take m ss) (take (Suc m) (map pid ts))"
    and nr: "nr = InternalN q' False (drop (Suc m) ss) (drop (Suc m) (map pid ts))"
    and cont: "run b (f q' (length lts) (ss ! m) c) (c + 1, md, dk, N(q \<mapsto> nl, c \<mapsto> nr)) r a'"
  shows "run b (SplitInternal f q (path_of C) (ss, map pid ts)) (c, md, dk, N) r a'"
proof -
  have st: "store_ok b (c, md, dk, N)" and ts: "length ts = Suc (length ss)"
    and fa: "foc_at b (Suc n) C (PNode q ss ts) md (N(q \<mapsto> InternalN par (C = []) ss (map pid ts)))"
    using pd by (auto simp: pend_def)
  obtain ss0 cs0 where N: "N q = Some (InternalN par (C = []) ss0 cs0)" using pd by (auto simp: pend_def)
  have q: "0 < q" "q < c" using store_ok_node [OF st, of q, OF N] by auto
  have q': "q' < 2 ^ 64" "q' \<noteq> q"
    using fa C crep_dom [of "N(q \<mapsto> InternalN par (C = []) ss (map pid ts))" C q] store_ok_bound [OF st, of q']
    by (auto simp: foc_at_def InvalidPageId_def)
  note sn = split_node [OF pd ss sub q'(1) m refl refl nl nr]
  have deg: "bt_min_degree b - 1 = m" by (simp add: m MinKeysPerNonRootNode_def)
  have ne: "\<not> (take (m + 1) (map pid ts) = [] \<or> drop (m + 1) (map pid ts) = [])"
    using cfg_Min [of b] st ss ts m by (auto simp: store_ok_def)
  have sub': "set (take (Suc m) (map pid ts)) \<subseteq> dom (N(q \<mapsto> nl, c \<mapsto> nr))" "set (drop (Suc m) (map pid ts)) \<subseteq> dom (N(q \<mapsto> nl, c \<mapsto> nr))"
    by (intro cut_dom pids_dom [OF sn(12)])+
  show ?thesis
    unfolding SplitInternal_def C path_of.simps list.case prod.case parent_of_def
    apply (rule run_the_bt)
    apply (simp only: cfg_simps fst_conv snd_conv deg)
    apply (rule run_bind [OF run_guard [OF ss]])
    apply (rule run_bind [OF run_read_internal [of N, OF N]])
    apply (simp only: prod.case Let_def fst_conv snd_conv)
    apply (rule run_bind [OF run_guard [OF ne]])
    apply (rule run_bind [OF run_AllocateNodePage [OF room]])
    apply (rule run_bind [OF run_write_internal_to [OF sn(1)]])
    using q apply simp
    using q apply simp
    apply (simp add: nl)
    apply (rule run_bind [OF run_write_internal_to [OF sn(2)]])
    using q apply simp
    apply simp
    apply (simp add: nr)
    unfolding Suc_eq_plus1 [symmetric]
    apply (rule run_bind [OF run_rewrite_child_parent [OF sub'(1)]])
    apply (rule run_bind [OF run_rewrite_child_parent [OF sub'(2)]])
    using cont apply simp
    done
qed

lemma run_SplitInternal_root:
  assumes pd: "pend b (Suc n) [] (PNode q ss ts) q par True ss ts (c, md, dk, N)"
    and ss: "length ss = MaxKeysPerNode b + 1" and sub: "list_all (sub b (MinKeysPerNonRootNode b) n) ts" and room: "room b 2 c"
    and depth: "Suc n < c"
  shows "\<exists>a' T. run b (SplitInternal f q [] (ss, map pid ts)) (c, md, dk, N) (Inr ()) a' \<and> rooted b (Suc (Suc n)) T a' \<and>
    sub b 1 (Suc (Suc n)) T \<and> flat T = weave ss (map flat ts)"
proof -
  define m where "m = MinKeysPerNonRootNode b"
  have st: "store_ok b (c, md, dk, N)" "dk = md" and ts: "length ts = Suc (length ss)"
    and fa: "foc_at b (Suc n) [] (PNode q ss ts) md (N(q \<mapsto> InternalN par True ss (map pid ts)))"
    using pd by (auto simp: pend_def)
  obtain ss0 cs0 where N: "N q = Some (InternalN par True ss0 cs0)" using pd by (auto simp: pend_def)
  have q: "0 < q" "q < c" and cfg: "cfg_ok b" using store_ok_node [OF st(1), of q, OF N] by auto
  have room': "room b 1 c" "room b 1 (c + 1)" using room room_mono [of b 2 c 1] room_Suc [of b 1 c] by (simp_all add: numeral_2_eq_2)
  have small: "c + 1 < 2 ^ 64" using room_small [OF cfg room] by simp
  define nl where "nl = InternalN (c + 1) False (take m ss) (take (Suc m) (map pid ts))"
  define nr where "nr = InternalN (c + 1) False (drop (Suc m) ss) (drop (Suc m) (map pid ts))"
  let ?L = "PNode q (take m ss) (take (Suc m) ts)" and ?R = "PNode c (drop (Suc m) ss) (drop (Suc m) ts)"
  let ?N2 = "N(q \<mapsto> nl, c \<mapsto> nr)"
  let ?md = "md\<lparr>bm_root_page_id := c + 1, bm_tree_height := (bm_tree_height md + 1) mod 2 ^ 64\<rparr>"
  have "pend b (Suc n) [] (PNode q ss ts) q par (([] :: ctx) = []) ss ts (c, md, dk, N)" using pd by simp
  note sn = split_node [OF this ss sub small m_def refl refl nl_def nr_def]
  have st2: "store_ok b (c + 2, md, md, ?N2)"
    using store_ok_grow [OF st(1) room, of md md] sn(1,2) q by (intro store_ok_upd) auto
  note rs = rooted_split [of b md "Suc n" "PNode q ss ts" "c + 2" ?N2 ?R ?L "c + 1" md "ss ! m", OF _ _ _ sn(4) sn(5) [unfolded nxt.simps] _ sn(8) _ st2 _ _ sn(3) sn(6,7) refl refl]
  have "c + 1 \<notin> set (pids ?L @ pids ?R)"
  proof
    assume "c + 1 \<in> set (pids ?L @ pids ?R)"
    then have "c + 1 \<in> dom ?N2" using rep_dom(1) [OF sn(4)] rep_dom(1) [OF sn(5)] by auto
    moreover have "c + 1 \<notin> dom N" using st(1) by (fastforce simp: store_ok_def)
    ultimately show False using q by auto
  qed
  then have rooted: "node_ok b (InternalN InvalidPageId True [ss ! m] [q, c])"
      "rooted b (Suc (Suc n)) (PNode (c + 1) [ss ! m] [?L, ?R]) (c + 2, ?md, ?md, ?N2(c + 1 \<mapsto> InternalN InvalidPageId True [ss ! m] [q, c]))"
      "sub b 1 (Suc (Suc n)) (PNode (c + 1) [ss ! m] [?L, ?R])"
    using rs fa sn(9) depth by (simp_all add: foc_at_def)
  have deg: "bt_min_degree b - 1 = m" by (simp add: m_def MinKeysPerNonRootNode_def)
  have ne: "\<not> (take (m + 1) (map pid ts) = [] \<or> drop (m + 1) (map pid ts) = [])"
    using cfg_Min [OF cfg] ss ts m_def by auto
  have sub': "set (take (Suc m) (map pid ts)) \<subseteq> dom ?N2" "set (drop (Suc m) (map pid ts)) \<subseteq> dom ?N2"
    by (intro cut_dom pids_dom [OF sn(12)])+
  have "run b (SplitInternal f q [] (ss, map pid ts)) (c, md, dk, N) (Inr ())
      (c + 2, ?md, ?md, ?N2(c + 1 \<mapsto> InternalN InvalidPageId True [ss ! m] [q, c]))"
    unfolding SplitInternal_def list.case prod.case parent_of_def
    apply (rule run_the_bt)
    apply (simp only: cfg_simps fst_conv snd_conv deg)
    apply (rule run_bind [OF run_guard [OF ss]])
    apply (rule run_bind [OF run_read_internal [of N, OF N]])
    apply (simp only: prod.case Let_def fst_conv snd_conv)
    apply (rule run_bind [OF run_guard [OF ne]])
    apply (rule run_bind [OF run_AllocateNodePage [OF room'(1)]])
    apply (rule run_bind [OF run_AllocateNodePage [OF room'(2)]])
    apply (rule run_bind [OF run_write_internal_to [OF sn(1)]])
    using q apply simp
    using q apply simp
    apply (simp add: nl_def)
    apply (rule run_bind [OF run_write_internal_to [OF sn(2)]])
    using q apply simp
    apply simp
    apply (simp add: nr_def)
    apply (rule run_bind [OF run_rewrite_child_parent], use sub' in simp)+
    apply (rule run_bind [OF run_write_internal_to [OF rooted(1)]])
    apply simp
    apply simp
    apply (simp add: root_node_header_def)
    apply (rule run_bind [OF run_set_metadata])
    using run_WriteMetadata apply (simp add: add.commute)
    done
  then show ?thesis using rooted(2,3) sn(10) by fastforce
qed


subsection \<open>A new child in an internal node\<close>

declare InsertIntoInternal.simps [simp del]

lemma insert_at_app: "length xs = i \<Longrightarrow> insert_at i x (xs @ ys) = xs @ x # ys"
  by (auto simp: insert_at_def)

lemma run_InsertIntoInternal_steps:
  assumes "N q = Some (InternalN par rt (ls @ rs) (map pid (lts @ L # rts)))" "length ls = length lts"
    "ss = ls @ k # rs" "ts = lts @ L # R # rts"
    "run b (if length ss \<le> MaxKeysPerNode b
       then bindS (write_internal q (header_of (InternalN par rt (ls @ rs) (map pid (lts @ L # rts)))) (ss, map pid ts)) (\<lambda>_. rewrite_parent q (pid R))
       else bindS (RedistributeInternalWithRightSibling q path (ss, map pid ts)) (\<lambda>redistributed.
         if redistributed then ret ()
         else SplitInternal (case path of [] \<Rightarrow> (\<lambda>_ _ _ _. ret ()) | _ # parent_path \<Rightarrow> InsertIntoInternal parent_path) q path (ss, map pid ts)))
       (c, md, dk, N) r a'"
  shows "run b (InsertIntoInternal path q (length lts) k (pid R)) (c, md, dk, N) r a'"
proof -
  have at: "insert_at (length lts) k (ls @ rs) = ss"
    "insert_at (length lts + 1) (pid R) (map pid (lts @ L # rts)) = map pid ts"
    using insert_at_app [of ls "length lts" k rs] insert_at_app [of "map pid (lts @ [L])" "length lts + 1" "pid R" "map pid rts"] assms(2-4)
    by simp_all
  show ?thesis
    apply (subst InsertIntoInternal.simps)
    apply (rule run_bind [OF run_read_internal [of N, OF assms(1)]])
    apply (simp only: prod.case)
    apply (rule run_the_bt)
    apply (simp only: cfg_simps Let_def at fst_conv)
    apply (rule assms(5))
    done
qed

lemma pend_depth:
  assumes "pend b (Suc n) C (PNode q ss ts) q par rt ss ts (c, md, dk, N)" "list_all (sub b (MinKeysPerNonRootNode b) n) ts"
  shows "Suc n < c"
proof -
  have st: "store_ok b (c, md, dk, N)" "length ts = Suc (length ss)" "q \<in> dom N"
    and fa: "foc_at b (Suc n) C (PNode q ss ts) md (N(q \<mapsto> InternalN par rt ss (map pid ts)))"
    using assms(1) by (auto simp: pend_def)
  have d: "distinct (q # concat (map pids ts))" and r: "reps N (nxt C) ts" using fa by (auto simp: foc_at_def)
  have "set (q # concat (map pids ts)) \<subseteq> {..<c}"
    using rep_dom(2) [OF r] store_ok_bound [OF st(1)] st(3) by (fastforce simp: subset_iff)
  then have "length (q # concat (map pids ts)) \<le> c"
    using distinct_card [OF d] card_mono [of "{..<c}" "set (q # concat (map pids ts))"] by simp
  moreover obtain t us where "ts = t # us" "sub b (MinKeysPerNonRootNode b) n t" using st(2) assms(2) by (cases ts) auto
  ultimately show ?thesis using depth_pids [of b "MinKeysPerNonRootNode b" n t] by simp
qed

lemma pend_write:
  assumes "pend b (Suc n) C (PNode q ss ts) q par (C = []) ss ts (c, md, dk, N)" "length ss \<le> MaxKeysPerNode b"
  shows "node_ok b (InternalN par (C = []) ss (map pid ts))"
    "foc b (Suc n) C (PNode q ss ts) (c, md, dk, N(q \<mapsto> InternalN par (C = []) ss (map pid ts)))"
proof -
  have st: "store_ok b (c, md, dk, N)" "length ts = Suc (length ss)" "list_all (key_ok b) ss" "dk = md"
    and fa: "foc_at b (Suc n) C (PNode q ss ts) md (N(q \<mapsto> InternalN par (C = []) ss (map pid ts)))"
    using assms(1) by (auto simp: pend_def)
  obtain ss0 cs0 where N: "N q = Some (InternalN par (C = []) ss0 cs0)" using assms(1) by (auto simp: pend_def)
  note q = store_ok_node [OF st(1), of q, OF N]
  have r: "reps N (nxt C) ts" using fa by (auto simp: foc_at_def)
  show ok: "node_ok b (InternalN par (C = []) ss (map pid ts))" using q st children_small [OF st(1) r] assms(2) by simp
  show "foc b (Suc n) C (PNode q ss ts) (c, md, dk, N(q \<mapsto> InternalN par (C = []) ss (map pid ts)))"
    using fa st(4) store_ok_upd [OF st(1) ok, of q dk md] q by (simp add: foc_foc_at)
qed

lemma dom_upd_pid: "reps N nx (lts @ L # R # rts) \<Longrightarrow> \<exists>nd. (N(q \<mapsto> x)) (pid R) = Some nd"
  using pids_dom [of N nx "lts @ L # R # rts"] by (cases "pid R = q") auto

lemma run_InsertIntoInternal_fits:
  assumes pd: "pend b (Suc n) C (PNode q ss ts) q par (C = []) ss ts (c, md, dk, N)"
    and N: "N q = Some (InternalN par (C = []) (ls @ rs) (map pid (lts @ L # rts)))" "length ls = length lts"
    and ss: "ss = ls @ k # rs" "ts = lts @ L # R # rts" and low: "low b C \<le> length (ls @ rs)"
    and sub: "list_all (sub b (MinKeysPerNonRootNode b) n) ts" and fits: "length ss \<le> MaxKeysPerNode b"
  shows "\<exists>a' h T. run b (InsertIntoInternal (path_of C) q (length lts) k (pid R)) (c, md, dk, N) (Inr ()) a' \<and>
    rooted b h T a' \<and> sub b 1 h T \<and> flat T = left_of C @ weave ss (map flat ts) @ right_of C"
proof -
  note pw = pend_write [OF pd fits]
  have st: "store_ok b (c, md, dk, N)" "length ts = Suc (length ss)" and r: "reps N (nxt C) ts"
    using pd by (auto simp: pend_def foc_at_def)
  have q: "0 < q" "q < c" using store_ok_node [OF st(1), of q, OF N(1)] by auto
  let ?nd = "InternalN par (C = []) ss (map pid ts)"
  obtain nd where nd: "(N(q \<mapsto> ?nd)) (pid R) = Some nd" using dom_upd_pid [OF r [unfolded ss(2)]] by blast
  have "run b (InsertIntoInternal (path_of C) q (length lts) k (pid R)) (c, md, dk, N) (Inr ()) (c, md, dk, N(q \<mapsto> ?nd))"
    apply (rule run_InsertIntoInternal_steps [of N q, OF N ss])
    unfolding if_P [OF fits]
    apply (rule run_bind [OF run_write_internal_to [OF pw(1) q]], simp)
    apply (rule run_rewrite_parent [of "N(q \<mapsto> ?nd)", OF nd])
    done
  moreover have "rooted b (Suc n + length C) (plug C (PNode q ss ts)) (c, md, dk, N(q \<mapsto> ?nd))" "csub b (Suc n) C"
    using pw(2) by (simp_all add: foc_def)
  moreover from this(2) have "sub b 1 (Suc n + length C) (plug C (PNode q ss ts))"
    using sub st(2) fits low ss(1) by (intro sub_plug) auto
  ultimately show ?thesis using flat_plug [of b "Suc n" C "PNode q ss ts"] by (metis flat.simps(2))
qed

lemma run_InsertIntoInternal_root:
  assumes pd: "pend b (Suc n) [] (PNode q ss ts) q par True ss ts (c, md, dk, N)"
    and N: "N q = Some (InternalN par True (ls @ rs) (map pid (lts @ L # rts)))" "length ls = length lts"
    and ss: "ss = ls @ k # rs" "ts = lts @ L # R # rts"
    and sub: "list_all (sub b (MinKeysPerNonRootNode b) n) ts" and over: "\<not> length ss \<le> MaxKeysPerNode b" and room: "room b 2 c"
  shows "\<exists>a' h T. run b (InsertIntoInternal [] q (length lts) k (pid R)) (c, md, dk, N) (Inr ()) a' \<and>
    rooted b h T a' \<and> sub b 1 h T \<and> flat T = weave ss (map flat ts)"
proof -
  have st: "store_ok b (c, md, dk, N)" using pd by (auto simp: pend_def)
  have len: "length ss = MaxKeysPerNode b + 1" using over store_ok_node [OF st, of q, OF N(1)] ss(1) by auto
  obtain a' T where s: "run b (SplitInternal (\<lambda>_ _ _ _. ret ()) q [] (ss, map pid ts)) (c, md, dk, N) (Inr ()) a'"
    "rooted b (Suc (Suc n)) T a'" "sub b 1 (Suc (Suc n)) T" "flat T = weave ss (map flat ts)"
    using run_SplitInternal_root [OF pd len sub room pend_depth [OF pd sub]] by blast
  have "run b (InsertIntoInternal [] q (length lts) k (pid R)) (c, md, dk, N) (Inr ()) a'"
    apply (rule run_InsertIntoInternal_steps [of N q, OF N ss])
    unfolding if_not_P [OF over] list.case
    apply (rule run_bind [OF run_RedistributeInternal_last])
    using s(1) by simp_all
  then show ?thesis using s(2-4) by blast
qed

lemma weave_pair:
  "length ls = length lxs \<Longrightarrow> length rs = length rxs \<Longrightarrow>
    weave (ls @ s # rs) (lxs @ x # y # rxs) = weave ls lxs @ x @ Sep s # y @ weave_right rs rxs"
  by (simp add: weave_append weave_Cons)

lemma share_nodes_final:
  assumes f: "foc b (Suc (Suc n)) C (PNode q (ls @ keys ! i # rs) (lts @ PNode p (take i keys) (take (Suc i) ch) #
      PNode p2 (drop (Suc i) keys) (drop (Suc i) ch) # rts)) a'"
    and keys: "keys = ss @ s # ss2" "ch = ts @ ts2" "length ts = Suc (length ss)" "length ts2 = Suc (length ss2)"
    and len: "length ls = length lts" "length rs = length rts" "low b C \<le> Suc (length ls + length rs)"
      "Suc (length ls + length rs) \<le> MaxKeysPerNode b"
    and i: "MinKeysPerNonRootNode b \<le> i" "i \<le> MaxKeysPerNode b" "i < length keys" "MinKeysPerNonRootNode b \<le> length keys - i - 1"
      "length keys - i - 1 \<le> MaxKeysPerNode b"
    and sub: "list_all (sub b (MinKeysPerNonRootNode b) n) ch" "list_all (sub b (MinKeysPerNonRootNode b) (Suc n)) lts"
      "list_all (sub b (MinKeysPerNonRootNode b) (Suc n)) rts"
  shows "\<exists>h T. rooted b h T a' \<and> sub b 1 h T \<and>
    flat T = left_of C @ flat (PNode q (ls @ s # rs) (lts @ PNode p ss ts # PNode p2 ss2 ts2 # rts)) @ right_of C"
proof -
  let ?t = "PNode q (ls @ keys ! i # rs) (lts @ PNode p (take i keys) (take (Suc i) ch) #
      PNode p2 (drop (Suc i) keys) (drop (Suc i) ch) # rts)"
  have c: "csub b (Suc (Suc n)) C" "rooted b (Suc (Suc n) + length C) (plug C ?t) a'" using f by (simp_all add: foc_def)
  have lc: "length ch = Suc (length keys)" using keys by simp
  have "sub b (low b C) (Suc (Suc n)) ?t"
    using len i lc sub by (auto intro!: list_all_cut)
  from sub_plug [OF c(1) this] have "sub b 1 (Suc (Suc n) + length C) (plug C ?t)" .
  moreover have "flat ?t = flat (PNode q (ls @ s # rs) (lts @ PNode p ss ts # PNode p2 ss2 ts2 # rts))"
    using weave_cut [of "map flat ch" keys i] weave_snoc_sep [of "map flat ts" ss s ss2 "map flat ts2"] keys i(3) lc len(1,2)
    by (simp add: weave_pair take_map drop_map)
  ultimately show ?thesis using c(2) flat_plug [OF c(1), of ?t] by metis
qed

text \<open>Without a right sibling that has room, nothing is moved.\<close>

lemma redistribute_full:
  assumes pd: "pend b (Suc n) (fr # C) (PNode q ss ts) q par (fr # C = []) ss ts (c, md, dk, N)"
    and fr: "fr = (q', ls', lts', rs', rts')" and len: "length ss = MaxKeysPerNode b + 1"
    and full: "\<not> (\<exists>p2 ss2 ts2 rts2. rts' = PNode p2 ss2 ts2 # rts2 \<and> length ss2 < MaxKeysPerNode b)"
  shows "run b (RedistributeInternalWithRightSibling q (path_of (fr # C)) (ss, map pid ts)) (c, md, dk, N) (Inr False) (c, md, dk, N)"
proof -
  have fa: "foc_at b (Suc n) (fr # C) (PNode q ss ts) md (N(q \<mapsto> InternalN par (fr # C = []) ss (map pid ts)))"
    using pd by (auto simp: pend_def)
  have fa': "length ls' = length lts'" "length rs' = length rts'" "list_all (sub b (MinKeysPerNonRootNode b) (Suc n)) rts'"
    using fa fr by (simp_all add: foc_at_Cons)
  show ?thesis
  proof (cases rts')
    case Nil
    obtain par' where "N q' = Some (InternalN par' (C = []) (ls' @ rs') (map pid lts' @ q # map pid rts'))"
      using fa fr by (auto simp: foc_at_def inner_at_iff)
    then show ?thesis using fa'(1,2) Nil by (intro run_RedistributeInternal_last) (auto simp: fr)
  next
    case (Cons u rts2)
    then obtain p2 ss2 ts2 s rs2 where r: "rts' = PNode p2 ss2 ts2 # rts2" "rs' = s # rs2" "length ss2 = MaxKeysPerNode b" "length rs2 = length rts2"
      using fa'(2,3) full by (cases rs') (fastforce simp: sub_Suc)+
    have pd2: "pend b (Suc (Suc n)) C (PNode q' (ls' @ s # rs2) (lts' @ PNode q ss ts # PNode p2 ss2 ts2 # rts2)) q par False ss ts (c, md, dk, N)"
      using pd fr r by (auto simp: pend_def foc_at_Cons)
    from run_RedistributeInternal [OF pd2 fa'(1) r(4) refl refl] show ?thesis using len r fr by simp
  qed
qed

lemma run_InsertIntoInternal:
  assumes "pend b (Suc n) C (PNode q ss ts) q par (C = []) ss ts (c, md, md, N)"
    "N q = Some (InternalN par (C = []) (ls @ rs) (map pid (lts @ L # rts)))" "length ls = length lts"
    "ss = ls @ k # rs" "ts = lts @ L # R # rts" "low b C \<le> length (ls @ rs)"
    "list_all (sub b (MinKeysPerNonRootNode b) n) ts" "room b (length C + 2) c"
  shows "\<exists>a' h T. run b (InsertIntoInternal (path_of C) q (length lts) k (pid R)) (c, md, md, N) (Inr ()) a' \<and>
    rooted b h T a' \<and> sub b 1 h T \<and> flat T = left_of C @ weave ss (map flat ts) @ right_of C"
  using assms
proof (induction C arbitrary: n q ss ts par c N ls rs lts L rts k R)
  case Nil
  show ?case
  proof (cases "length ss \<le> MaxKeysPerNode b")
    case True
    then show ?thesis using run_InsertIntoInternal_fits [OF Nil(1-7)] by blast
  next
    case False
    then show ?thesis using run_InsertIntoInternal_root [of b n q ss ts par c md md N ls rs lts L rts k R] Nil by (simp add: numeral_2_eq_2)
  qed
next
  case (Cons fr C)
  obtain q' ls' lts' rs' rts' where fr: "fr = (q', ls', lts', rs', rts')" by (cases fr)
  show ?case
  proof (cases "length ss \<le> MaxKeysPerNode b")
    case True
    then show ?thesis using run_InsertIntoInternal_fits [OF Cons.prems(1-7)] by blast
  next
    case over: False
    note pd = Cons.prems(1)
    have st: "store_ok b (c, md, md, N)" "length ts = Suc (length ss)" and
      fa: "foc_at b (Suc n) (fr # C) (PNode q ss ts) md (N(q \<mapsto> InternalN par (fr # C = []) ss (map pid ts)))"
      using pd by (auto simp: pend_def)
    have len: "length ss = MaxKeysPerNode b + 1" using over store_ok_node [OF st(1), of q, OF Cons.prems(2)] Cons.prems(4) by auto
    have fa': "length ls' = length lts'" "length rs' = length rts'" "low b C \<le> length ls' + length rs'"
      "length ls' + length rs' \<le> MaxKeysPerNode b" "list_all (sub b (MinKeysPerNonRootNode b) (Suc n)) lts'"
      "list_all (sub b (MinKeysPerNonRootNode b) (Suc n)) rts'"
      using fa fr by (simp_all add: foc_at_Cons)
    show ?thesis
    proof (cases "\<exists>p2 ss2 ts2 rts2. rts' = PNode p2 ss2 ts2 # rts2 \<and> length ss2 < MaxKeysPerNode b")
      case True
      then obtain p2 ss2 ts2 rts2 s rs2 where r: "rts' = PNode p2 ss2 ts2 # rts2" "rs' = s # rs2" "length ss2 < MaxKeysPerNode b"
        using fa'(2) by (cases rs') auto
      have pd2: "pend b (Suc (Suc n)) C (PNode q' (ls' @ s # rs2) (lts' @ PNode q ss ts # PNode p2 ss2 ts2 # rts2)) q par False ss ts (c, md, md, N)"
        using pd fr r by (auto simp: pend_def foc_at_Cons)
      have "2 * MinKeysPerNonRootNode b + 1 \<le> length (ss @ s # ss2) \<and> length (ss @ s # ss2) \<le> 2 * MaxKeysPerNode b + 1"
        using len r(3) cfg_Min [of b] st(1) by (auto simp: store_ok_def)
      then obtain i a' where i: "run b (RedistributeInternalWithRightSibling q ((q', length lts') # path_of C) (ss, map pid ts)) (c, md, md, N) (Inr True) a'"
        "MinKeysPerNonRootNode b \<le> i" "i \<le> MaxKeysPerNode b" "i < length (ss @ s # ss2)" "MinKeysPerNonRootNode b \<le> length (ss @ s # ss2) - i - 1"
        "length (ss @ s # ss2) - i - 1 \<le> MaxKeysPerNode b"
        "foc b (Suc (Suc n)) C (PNode q' (ls' @ (ss @ s # ss2) ! i # rs2) (lts' @ PNode q (take i (ss @ s # ss2)) (take (Suc i) (ts @ ts2)) #
          PNode p2 (drop (Suc i) (ss @ s # ss2)) (drop (Suc i) (ts @ ts2)) # rts2)) a'"
        using run_RedistributeInternal [OF pd2 fa'(1) _ refl refl] fa'(2) r by (auto split: if_splits)
      have "\<exists>h T. rooted b h T a' \<and> sub b 1 h T \<and> flat T = left_of C @
          flat (PNode q' (ls' @ s # rs2) (lts' @ PNode q ss ts # PNode p2 ss2 ts2 # rts2)) @ right_of C"
        using fa' r Cons.prems(7) st(2) i(2-6) by (intro share_nodes_final [OF i(7)]) auto
      moreover have "run b (InsertIntoInternal (path_of (fr # C)) q (length lts) k (pid R)) (c, md, md, N) (Inr ()) a'"
        apply (rule run_InsertIntoInternal_steps [of N q, OF Cons.prems(2-5)])
        unfolding if_not_P [OF over] fr path_of.simps
        by (rule run_bind [OF i(1)]) simp
      ultimately show ?thesis using fr fa'(1,2) r by (fastforce simp: weave_pair)
    next
      case False
      let ?m = "MinKeysPerNonRootNode b"
      let ?k = "ss ! ?m" and ?L = "PNode q (take ?m ss) (take (Suc ?m) ts)" and ?R = "PNode c (drop (Suc ?m) ss) (drop (Suc ?m) ts)"
      let ?nl = "InternalN q' False (take ?m ss) (take (Suc ?m) (map pid ts))" and ?nr = "InternalN q' False (drop (Suc ?m) ss) (drop (Suc ?m) (map pid ts))"
      let ?N2 = "N(q \<mapsto> ?nl, c \<mapsto> ?nr)"
      have small: "q' < 2 ^ 64"
        using fa fr crep_dom [of "N(q \<mapsto> InternalN par (fr # C = []) ss (map pid ts))" "fr # C" q] store_ok_bound [OF st(1), of q']
        by (auto simp: foc_at_def InvalidPageId_def)
      note sn = split_node [OF pd len Cons.prems(7) small refl refl refl refl refl]
      have room: "room b 1 c" "room b (length C + 2) (c + 1)"
        using Cons.prems(8) room_mono [of b "length C + 3" c 1] room_Suc [of b "length C + 2" c] by (simp_all add: eval_nat_numeral)
      have q: "0 < q" "q < c" using store_ok_node [OF st(1), of q, OF Cons.prems(2)] by auto
      have st2: "store_ok b (c + 1, md, md, ?N2)"
        using store_ok_grow [OF st(1) room(1), of md md] sn(1,2) q by (intro store_ok_upd) auto
      obtain par' where ps: "?N2 q' = Some (InternalN par' (C = []) (ls' @ rs') (map pid (lts' @ ?L # rts')))"
        "pend b (Suc (Suc n)) C (PNode q' (ls' @ ?k # rs') (lts' @ ?L # ?R # rts')) q' par' (C = []) (ls' @ ?k # rs') (lts' @ ?L # ?R # rts') (c + 1, md, md, ?N2)"
        using pend_split [OF fa [unfolded fr] sn(11) [unfolded fr] sn(4) sn(5) [unfolded fr nxt.simps] _ sn(8) sn(9) [unfolded fr] sn(3) st2] by auto
      have subs: "list_all (sub b ?m (Suc n)) (lts' @ ?L # ?R # rts')" and lowc: "low b C \<le> length (ls' @ rs')"
        using fa'(3,5,6) sn(6,7) by simp_all
      obtain a' h T where IH: "run b (InsertIntoInternal (path_of C) q' (length lts') ?k (pid ?R)) (c + 1, md, md, ?N2) (Inr ()) a'"
        "rooted b h T a'" "sub b 1 h T" "flat T = left_of C @ weave (ls' @ ?k # rs') (map flat (lts' @ ?L # ?R # rts')) @ right_of C"
        using Cons.IH [OF ps(2) ps(1) fa'(1) refl refl lowc subs room(2)] by blast
      have split: "run b (SplitInternal (InsertIntoInternal (path_of C)) q (path_of (fr # C)) (ss, map pid ts)) (c, md, md, N) (Inr ()) a'"
        using IH(1) fr by (intro run_SplitInternal_inner [OF pd _ len Cons.prems(7) room(1) refl refl refl]) auto
      have "run b (InsertIntoInternal (path_of (fr # C)) q (length lts) k (pid R)) (c, md, md, N) (Inr ()) a'"
        apply (intro run_InsertIntoInternal_steps [of N q, OF Cons.prems(2-5)])
        unfolding if_not_P [OF over]
        by (rule run_bind [OF redistribute_full [OF pd fr len False]]) (use split fr in simp)
      then show ?thesis using IH(2-4) fr fa'(1,2) sn(10) by (fastforce simp: weave_pair)
    qed
  qed
qed


subsection \<open>Splitting a leaf\<close>

lemma split_leaf:
  assumes f: "foc b 0 C (PLeaf p es0) (c, md, dk, N)" and ex: "length ex = MaxKeysPerNode b + 1" "entries_ok b ex"
    and par: "par' < 2 ^ 64" and m: "m = bt_min_degree b"
    and L: "L = PLeaf p (take m ex)" and R: "R = PLeaf c (drop m ex)"
    and nl: "nl = LeafN par' c False (take m ex)" and nr: "nr = LeafN par' (nxt C) False (drop m ex)"
  shows "node_ok b nl" "node_ok b nr" "key_ok b (fst (hd (drop m ex)))"
    "rep (N(p \<mapsto> nl, c \<mapsto> nr)) False (first_leaf R) L" "rep (N(p \<mapsto> nl, c \<mapsto> nr)) False (nxt C) R"
    "sub b (MinKeysPerNonRootNode b) 0 L" "sub b (MinKeysPerNonRootNode b) 0 R" "distinct (cpids C @ pids L @ pids R)"
    "\<And>x. x \<in> set (cpids C) \<Longrightarrow> (N(p \<mapsto> nl, c \<mapsto> nr)) x = N x" "drop m ex \<noteq> []" "take m ex \<noteq> []"
proof -
  note st = foc_parts(1) [OF f]
  have cfg: "cfg_ok b" and c: "c < 2 ^ 64" using st by (auto simp: store_ok_def)
  have sizes: "m = MinKeysPerNonRootNode b + 1" "MaxKeysPerNode b = 2 * MinKeysPerNonRootNode b + 1"
    using cfg_Min [OF cfg] cfg by (auto simp: m cfg_ok_def MinKeysPerNonRootNode_def)
  have p: "c \<noteq> p" "c \<notin> set (cpids C)" "p \<notin> set (cpids C)" using fresh [OF f, of c] f by (auto simp: foc_iff)
  obtain par where "node_ok b (LeafN par (nxt C) (C = []) es0)" using foc_node_ok(1) [OF f] by blast
  then have nx: "nxt C < 2 ^ 64" by simp
  show "node_ok b nl" "node_ok b nr" using par c nx ex sizes entries_ok_take [OF ex(2)] by (auto simp: nl nr)
  show ne: "drop m ex \<noteq> []" "take m ex \<noteq> []" using ex(1) sizes by auto
  show "key_ok b (fst (hd (drop m ex)))" using entries_ok_take(2) [OF ex(2), of m] ne(1) by (cases "drop m ex") auto
  show "rep (N(p \<mapsto> nl, c \<mapsto> nr)) False (first_leaf R) L" "rep (N(p \<mapsto> nl, c \<mapsto> nr)) False (nxt C) R"
    using p by (simp_all add: L R nl nr)
  show "sub b (MinKeysPerNonRootNode b) 0 L" "sub b (MinKeysPerNonRootNode b) 0 R" using ex(1) sizes by (simp_all add: L R)
  show "distinct (cpids C @ pids L @ pids R)" using f p by (auto simp: L R foc_iff)
  show "\<And>x. x \<in> set (cpids C) \<Longrightarrow> (N(p \<mapsto> nl, c \<mapsto> nr)) x = N x" using p by auto
qed

lemma run_SplitLeaf_inner:
  assumes f: "foc b 0 C (PLeaf p es0) (c, md, dk, N)" and C: "C = (q', ls, lts, rs, rts) # C'"
    and ex: "length ex = MaxKeysPerNode b + 1" "entries_ok b ex" and room: "room b 1 c" and m: "m = bt_min_degree b"
    and nl: "nl = LeafN q' c False (take m ex)" and nr: "nr = LeafN q' (nxt C) False (drop m ex)"
    and cont: "run b (InsertIntoInternal (path_of C') q' (length lts) (fst (hd (drop m ex))) c)
      (c + 1, md, dk, N(p \<mapsto> nl, c \<mapsto> nr)) r a'"
  shows "run b (SplitLeaf p (path_of C) ex) (c, md, dk, N) r a'"
proof -
  note st = foc_parts(1) [OF f]
  obtain par where N: "N p = Some (LeafN par (nxt C) (C = []) es0)" using foc_node_ok(1) [OF f] by blast
  have p: "0 < p" "p < c" using store_ok_node [OF st, of p, OF N] by auto
  have "q' < 2 ^ 64" using foc_dom [OF f, of q'] C store_ok_bound [OF st, of q'] by (simp add: InvalidPageId_def)
  note sl = split_leaf [OF f ex this m refl refl nl nr]
  show ?thesis
    unfolding SplitLeaf_def C path_of.simps list.case prod.case parent_of_def
    apply (rule run_the_bt)
    apply (simp only: cfg_simps m [symmetric])
    apply (rule run_bind [OF run_guard [OF ex(1)]])
    apply (rule run_bind [OF run_read_leaf [of N, OF N]])
    apply (simp only: prod.case Let_def)
    apply (rule run_bind [OF run_guard])
    using sl(10,11) apply simp
    apply (rule run_bind [OF run_AllocateNodePage [OF room]])
    apply (rule run_bind [OF run_write_leaf_to [OF sl(1)]])
    using p apply simp
    using p apply simp
    apply (simp add: nl)
    apply (rule run_bind [OF run_write_leaf_to [OF sl(2)]])
    using p apply simp
    apply simp
    apply (simp add: nr C)
    apply (rule cont)
    done
qed

lemma run_SplitLeaf_root:
  assumes f: "foc b 0 [] (PLeaf p es0) (c, md, md, N)" and ex: "length ex = MaxKeysPerNode b + 1" "entries_ok b ex" and room: "room b 2 c"
    and m: "m = bt_min_degree b"
  shows "\<exists>a' T. run b (SplitLeaf p [] ex) (c, md, md, N) (Inr ()) a' \<and> rooted b 1 T a' \<and> sub b 1 1 T \<and>
    flat T = map ent (take m ex) @ Sep (fst (hd (drop m ex))) # map ent (drop m ex)"
proof -
  note st = foc_parts(1) [OF f]
  obtain par where N: "N p = Some (LeafN par InvalidPageId True es0)" using foc_node_ok(1) [OF f] by auto
  have p: "0 < p" "p < c" and cfg: "cfg_ok b" using store_ok_node [OF st, of p, OF N] by auto
  have room': "room b 1 c" "room b 1 (c + 1)" using room room_mono [of b 2 c 1] room_Suc [of b 1 c] by (simp_all add: numeral_2_eq_2)
  have small: "c + 1 < 2 ^ 64" using room_small [OF cfg room] by simp
  define nl where "nl = LeafN (c + 1) c False (take m ex)"
  define nr where "nr = LeafN (c + 1) (nxt []) False (drop m ex)"
  let ?L = "PLeaf p (take m ex)" and ?R = "PLeaf c (drop m ex)" and ?N2 = "N(p \<mapsto> nl, c \<mapsto> nr)" and ?k = "fst (hd (drop m ex))"
  let ?md = "md\<lparr>bm_root_page_id := c + 1, bm_tree_height := (bm_tree_height md + 1) mod 2 ^ 64\<rparr>"
  note sl = split_leaf [OF f ex small m refl refl nl_def nr_def]
  have st2: "store_ok b (c + 2, md, md, ?N2)"
    using store_ok_grow [OF st room, of md md] sl(1,2) p by (intro store_ok_upd) auto
  have md: "meta_ok b md" "roots 0 (PLeaf p es0) md" using f by (simp_all add: foc_iff)
  note rs = rooted_split [of b md 0 "PLeaf p es0" "c + 2" ?N2 ?R ?L "c + 1" md ?k, OF md _ sl(4) sl(5) [unfolded nxt.simps] _ _ _ st2 _ _ sl(3) sl(6,7) refl refl]
  have rooted: "node_ok b (InternalN InvalidPageId True [?k] [p, c])"
      "rooted b 1 (PNode (c + 1) [?k] [?L, ?R]) (c + 2, ?md, ?md, ?N2(c + 1 \<mapsto> InternalN InvalidPageId True [?k] [p, c]))"
      "sub b 1 1 (PNode (c + 1) [?k] [?L, ?R])"
    using rs p by simp_all
  have md': "md\<lparr>bm_root_page_id := c + 1, bm_first_leaf_page_id := p, bm_tree_height := (bm_tree_height md + 1) mod 2 ^ 64\<rparr> = ?md"
    using md(2) by (cases md) (simp add: roots_def)
  have "run b (SplitLeaf p [] ex) (c, md, md, N) (Inr ())
      (c + 2, ?md, ?md, ?N2(c + 1 \<mapsto> InternalN InvalidPageId True [?k] [p, c]))"
    unfolding SplitLeaf_def list.case prod.case parent_of_def
    apply (rule run_the_bt)
    apply (simp only: cfg_simps m [symmetric])
    apply (rule run_bind [OF run_guard [OF ex(1)]])
    apply (rule run_bind [OF run_read_leaf [of N, OF N]])
    apply (simp only: prod.case Let_def)
    apply (rule run_bind [OF run_guard])
    using sl(10,11) apply simp
    apply (rule run_bind [OF run_AllocateNodePage [OF room'(1)]])
    apply (rule run_bind [OF run_AllocateNodePage [OF room'(2)]])
    apply (rule run_bind [OF run_write_leaf_to [OF sl(1)]])
    using p apply simp
    using p apply simp
    apply (simp add: nl_def)
    apply (rule run_bind [OF run_write_leaf_to [OF sl(2)]])
    using p apply simp
    apply simp
    apply (simp add: nr_def)
    apply (rule run_bind [OF run_write_internal_to [OF rooted(1)]])
    apply simp
    apply simp
    apply (simp add: root_node_header_def)
    apply (rule run_bind [OF run_set_metadata])
    using run_WriteMetadata md' apply (simp add: add.commute)
    done
  then show ?thesis using rooted(2,3)
    by (intro exI [of _ "PNode (c + 1) [?k] [?L, ?R]"] exI conjI) (assumption | simp only: flat.simps list.map weave.simps append_Nil2)+
qed

lemma run_SplitLeaf:
  assumes f: "foc b 0 C (PLeaf p es0) (c, md, md, N)" and ex: "length ex = MaxKeysPerNode b + 1" "entries_ok b ex"
    and room: "room b (length C + 2) c" and m: "m = bt_min_degree b"
  shows "\<exists>a' h T. run b (SplitLeaf p (path_of C) ex) (c, md, md, N) (Inr ()) a' \<and> rooted b h T a' \<and> sub b 1 h T \<and>
    flat T = left_of C @ map ent (take m ex) @ Sep (fst (hd (drop m ex))) # map ent (drop m ex) @ right_of C"
proof (cases C)
  case Nil
  then have "foc b 0 [] (PLeaf p es0) (c, md, md, N)" "room b 2 c" using f room by (simp_all add: numeral_2_eq_2)
  from run_SplitLeaf_root [OF this(1) ex this(2) m] show ?thesis unfolding Nil by fastforce
next
  case (Cons fr C')
  obtain q' ls' lts' rs' rts' where fr: "fr = (q', ls', lts', rs', rts')" by (cases fr)
  let ?L = "PLeaf p (take m ex)" and ?R = "PLeaf c (drop m ex)" and ?k = "fst (hd (drop m ex))"
  let ?N2 = "N(p \<mapsto> LeafN q' c False (take m ex), c \<mapsto> LeafN q' (next_leaf rts' (nxt C')) False (drop m ex))"
  note st = foc_parts(1) [OF f]
  have fa: "foc_at b 0 ((q', ls', lts', rs', rts') # C') (PLeaf p es0) md N" using f Cons fr by (simp add: foc_foc_at)
  have fa': "length ls' = length lts'" "length rs' = length rts'" "low b C' \<le> length (ls' @ rs')"
    "list_all (sub b (MinKeysPerNonRootNode b) 0) lts'" "list_all (sub b (MinKeysPerNonRootNode b) 0) rts'"
    using fa by (simp_all add: foc_at_Cons)
  have "q' < 2 ^ 64" using foc_dom [OF f, of q'] Cons fr store_ok_bound [OF st, of q'] by (simp add: InvalidPageId_def)
  note sl = split_leaf [OF f ex this m refl refl refl refl, unfolded Cons fr nxt.simps]
  have p: "0 < p" "p < c" using foc_dom [OF f, of p] store_ok_bound [OF st, of p] by simp_all
  have room': "room b 1 c" "room b (length C' + 2) (c + 1)"
    using room room_mono [of b "length C' + 3" c 1] room_Suc [of b "length C' + 2" c] Cons by (simp_all add: eval_nat_numeral)
  have st2: "store_ok b (c + 1, md, md, ?N2)"
    using store_ok_grow [OF st room'(1), of md md] sl(1,2) p by (intro store_ok_upd) auto
  obtain par' where ps: "?N2 q' = Some (InternalN par' (C' = []) (ls' @ rs') (map pid (lts' @ ?L # rts')))"
    "pend b (Suc 0) C' (PNode q' (ls' @ ?k # rs') (lts' @ ?L # ?R # rts')) q' par' (C' = []) (ls' @ ?k # rs') (lts' @ ?L # ?R # rts') (c + 1, md, md, ?N2)"
    using pend_split [OF fa sl(9) sl(4) sl(5) _ _ sl(8) sl(3) st2]
    by auto
  have subs: "list_all (sub b (MinKeysPerNonRootNode b) 0) (lts' @ ?L # ?R # rts')" using fa'(4,5) sl(6,7) by simp
  obtain a' h T where ins: "run b (InsertIntoInternal (path_of C') q' (length lts') ?k (pid ?R)) (c + 1, md, md, ?N2) (Inr ()) a'"
    "rooted b h T a'" "sub b 1 h T" "flat T = left_of C' @ weave (ls' @ ?k # rs') (map flat (lts' @ ?L # ?R # rts')) @ right_of C'"
    using run_InsertIntoInternal [OF ps(2) ps(1) fa'(1) refl refl fa'(3) subs room'(2)] by blast
  have "run b (SplitLeaf p (path_of C) ex) (c, md, md, N) (Inr ()) a'"
    using ins(1) by (intro run_SplitLeaf_inner [OF f _ ex room'(1) m refl refl]) (simp_all add: Cons fr)
  then show ?thesis using ins(2-4) fa'(1,2) Cons fr by (fastforce simp: weave_pair)
qed


subsection \<open>A new entry in a leaf\<close>

lemma before_rid: "before x (Ent k r) \<longleftrightarrow> before x (Ent k 0)" "before (Ent k r) x \<longleftrightarrow> before (Ent k 0) x"
  by (cases x; simp)+

lemma entry_position:
  "sorted_wrt (<) (map fst es) \<Longrightarrow> map_of es k = None \<Longrightarrow> \<exists>xs ys. es = xs @ ys \<and> FindEntryPosition es k = length xs \<and>
    (\<forall>e\<in>set xs. fst e < k) \<and> (\<forall>e\<in>set ys. k < fst e)"
proof (induction es)
  case Nil
  then show ?case by (simp add: FindEntryPosition_def)
next
  case (Cons e es)
  show ?case
  proof (cases "fst e < k")
    case True
    obtain xs ys where "es = xs @ ys \<and> FindEntryPosition es k = length xs \<and> (\<forall>e\<in>set xs. fst e < k) \<and> (\<forall>e\<in>set ys. k < fst e)"
      using Cons by (cases e) (auto split: if_splits)
    then show ?thesis using True by (rule_tac exI [of _ "e # xs"], rule_tac exI [of _ ys]) (simp add: FindEntryPosition_def)
  next
    case False
    then have "k < fst e" using Cons.prems(2) by (cases e) (auto split: if_splits)
    then have "\<forall>e'\<in>set (e # es). k < fst e'" using Cons.prems(1) by (auto intro: less_trans)
    then show ?thesis using False by (rule_tac exI [of _ "[]"], rule_tac exI [of _ "e # es"]) (simp add: FindEntryPosition_def)
  qed
qed

lemma ordered_insert:
  assumes "ordered (A @ map ent (xs @ ys) @ B)" "\<And>x. x \<in> set A \<Longrightarrow> before x (Ent k 0)" "\<And>x. x \<in> set B \<Longrightarrow> before (Ent k 0) x"
    "\<And>e. e \<in> set xs \<Longrightarrow> fst e < k" "\<And>e. e \<in> set ys \<Longrightarrow> k < fst e"
  shows "ordered (A @ map ent (xs @ (k, r) # ys) @ B)"
  using assms by (auto simp: sorted_wrt_append before_rid(1) [of _ k r] before_rid(2) [of k r])

lemma share_leaves_final:
  assumes f: "foc b 1 (if lts = [] then set_sep (fst (hd com)) C else C)
      (PNode q (ls @ fst (hd (drop i com)) # rs) (lts @ PLeaf p (take i com) # PLeaf p2 (drop i com) # rts)) a'"
    and cs: "csub b 1 C" and com: "com = ex @ es2" "0 < i" "i < length com"
    and len: "length ls = length lts" "length rs = length rts" "low b C \<le> Suc (length ls + length rs)"
      "Suc (length ls + length rs) \<le> MaxKeysPerNode b"
    and i: "MinKeysPerNonRootNode b \<le> i" "i \<le> MaxKeysPerNode b" "MinKeysPerNonRootNode b \<le> length com - i"
      "length com - i \<le> MaxKeysPerNode b"
    and sub: "list_all (sub b (MinKeysPerNonRootNode b) 0) lts" "list_all (sub b (MinKeysPerNonRootNode b) 0) rts"
    and ord: "ordered (left_of C @ weave ls (map flat lts) @ map ent ex @ Sep s # map ent es2 @ weave_right rs (map flat rts) @ right_of C)"
  shows "\<exists>h T. rooted b h T a' \<and> sub b 1 h T \<and> ordered (flat T) \<and> ents_of (flat T) = ents_of (left_of C) @
    ents_of (weave ls (map flat lts)) @ com @ ents_of (weave_right rs (map flat rts)) @ ents_of (right_of C)"
proof -
  let ?C = "if lts = [] then set_sep (fst (hd com)) C else C" and ?k = "fst (hd (drop i com))"
  let ?t = "PNode q (ls @ ?k # rs) (lts @ PLeaf p (take i com) # PLeaf p2 (drop i com) # rts)"
  let ?r = "weave_right rs (map flat rts) @ right_of C" and ?l = "weave ls (map flat lts)"
  have c: "csub b 1 ?C" "rooted b (1 + length ?C) (plug ?C ?t) a'" using f by (simp_all add: foc_def)
  have "low b ?C = low b C" by (simp add: low_def)
  then have "sub b (low b ?C) 1 ?t" using len i com(2,3) sub by simp
  from sub_plug [OF c(1) this] have sb: "sub b 1 (1 + length ?C) (plug ?C ?t)" .
  obtain e es where e: "drop i com = e # es" using com(3) by (cases "drop i com") auto
  obtain e1 es1 where e1: "take i com = e1 # es1" "hd com = e1" using com(2,3) by (cases com; cases i) auto
  have "ordered (left_of C @ ?l @ map ent com @ ?r)"
    using ordered_drop [of "left_of C @ ?l @ map ent ex" "Sep s" "map ent es2 @ ?r"] ord com(1) by simp
  then have "ordered (left_of C @ ?l @ map ent (take i com @ drop i com) @ ?r)" unfolding append_take_drop_id .
  then have o1: "ordered (left_of C @ ?l @ map ent (take i com) @ Sep ?k # map ent (drop i com) @ ?r)"
    using ordered_put [of "left_of C @ ?l @ map ent (take i com)" "fst e" "snd e"] e by simp
  have o2: "ordered (left_of ?C @ ?l @ map ent (take i com) @ Sep ?k # map ent (drop i com) @ ?r)"
  proof (cases "lts = []")
    case True
    then show ?thesis
      using ordered_set_sep [OF cs, of "fst e1" "snd e1" "map ent es1 @ Sep ?k # map ent (drop i com) @ ?r"] o1 e1 len(1) by simp
  next
    case False
    then show ?thesis using o1 by simp
  qed
  have "flat (plug ?C ?t) = left_of ?C @ ?l @ map ent (take i com) @ Sep ?k # map ent (drop i com) @ ?r"
    using flat_plug [OF c(1), of ?t] len(1,2) by (simp add: weave_pair)
  moreover have "ents_of (left_of ?C) = ents_of (left_of C)" using ents_set_sep [OF cs] by simp
  moreover have "take i com @ drop i com = com" by simp
  ultimately have "ordered (flat (plug ?C ?t))" "ents_of (flat (plug ?C ?t)) = ents_of (left_of C) @ ents_of ?l @ com @
      ents_of (weave_right rs (map flat rts)) @ ents_of (right_of C)"
    using o2 by (simp_all only: ents_of_append ents_of.simps ents_of_map_ent append_assoc) (metis append_assoc)
  then show ?thesis using c(2) sb by blast
qed


lemma run_InsertIntoLeaf_steps:
  assumes "N p = Some (LeafN par nx rt es)" "ex = insert_at (FindEntryPosition es k) (k, r) es"
    "run b (if length ex \<le> MaxKeysPerNode b
       then bindS (write_leaf p (header_of (LeafN par nx rt es)) ex) (\<lambda>_.
         if FindEntryPosition es k = 0 then UpdateParentSeparatorAfterChildChange path (fst (hd ex)) else ret ())
       else bindS (RedistributeLeafWithRightSibling p path ex) (\<lambda>redistributed.
         if redistributed then ret () else SplitLeaf p path ex)) (c, md, dk, N) res a'"
  shows "run b (InsertIntoLeaf p path k r) (c, md, dk, N) res a'"
  unfolding InsertIntoLeaf_def
  apply (rule run_bind [OF run_read_leaf [of N, OF assms(1)]])
  apply (simp only: prod.case)
  apply (rule run_the_bt)
  apply (simp only: cfg_simps Let_def assms(2) [symmetric])
  apply (rule assms(3))
  done

lemma foc_holds:
  assumes "foc b 0 C (PLeaf p es) a" "sub b (low b C) 0 (PLeaf p es)" "ordered (left_of C @ map ent es @ right_of C)"
  shows "holds b a (ents_of (left_of C) @ es @ ents_of (right_of C))"
proof -
  have c: "csub b 0 C" "rooted b (length C) (plug C (PLeaf p es)) a" using assms(1) by (simp_all add: foc_def)
  have fl: "flat (plug C (PLeaf p es)) = left_of C @ map ent es @ right_of C" using flat_plug [OF c(1)] by simp
  then have "ents_of (flat (plug C (PLeaf p es))) = ents_of (left_of C) @ es @ ents_of (right_of C)" by simp
  then show ?thesis using holds_tree [OF c(2)] sub_plug [OF c(1) assms(2)] assms(3) fl by simp
qed

lemma run_InsertIntoLeaf_fits:
  assumes f: "foc b 0 C (PLeaf p es) (c, md, md, N)" and low: "low b C \<le> length es"
    and ex: "ex = xs @ (k, r) # ys" "es = xs @ ys" "FindEntryPosition es k = length xs"
    and ord: "ordered (left_of C @ map ent ex @ right_of C)" and key: "key_ok b k" "r < 2 ^ 64" and fits: "length ex \<le> MaxKeysPerNode b"
  shows "\<exists>a'. run b (InsertIntoLeaf p (path_of C) k r) (c, md, md, N) (Inr ()) a' \<and>
    holds b a' (ents_of (left_of C) @ ex @ ents_of (right_of C))"
proof -
  obtain par where N: "N p = Some (LeafN par (nxt C) (C = []) es)" "node_ok b (LeafN par (nxt C) (C = []) es)"
    using foc_node_ok(1) [OF f] by blast
  have p: "0 < p" "p < c" using store_ok_node [OF foc_parts(1) [OF f], of p, OF N(1)] by auto
  have ok: "node_ok b (LeafN par (nxt C) (C = []) ex)" using N(2) key fits ex by auto
  let ?N = "N(p \<mapsto> LeafN par (nxt C) (C = []) ex)"
  note f' = foc_leaf_upd [OF f ok]
  have at: "ex = insert_at (FindEntryPosition es k) (k, r) es" using insert_at_app [of xs "length xs"] ex by simp
  have sub: "sub b (low b C) 0 (PLeaf p ex)" using low fits ex by simp
  show ?thesis
  proof (cases "xs = []")
    case True
    obtain a' where a': "run b (UpdateParentSeparatorAfterChildChange (path_of C) k) (c, md, md, ?N) (Inr ()) a'"
      "foc b 0 (set_sep k C) (PLeaf p ex) a'"
      using run_UpdateParentSeparator [OF f' key(1)] by blast
    have "run b (InsertIntoLeaf p (path_of C) k r) (c, md, md, N) (Inr ()) a'"
      apply (rule run_InsertIntoLeaf_steps [of N p, OF N(1) at])
      unfolding if_P [OF fits]
      apply (rule run_bind [OF run_write_leaf_to [OF ok p]], simp)
      using True ex a'(1) by simp
    moreover have cs: "csub b 0 C" using f by (simp add: foc_def)
    have "holds b a' (ents_of (left_of (set_sep k C)) @ ex @ ents_of (right_of (set_sep k C)))"
      using a'(2) sub ord ordered_set_sep [OF cs, of k r "map ent ys @ right_of C"] True ex
      by (intro foc_holds) (simp_all add: low_def)
    ultimately show ?thesis unfolding ents_set_sep [OF cs] set_sep_facts by blast
  next
    case False
    have "run b (InsertIntoLeaf p (path_of C) k r) (c, md, md, N) (Inr ()) (c, md, md, ?N)"
      apply (rule run_InsertIntoLeaf_steps [of N p, OF N(1) at])
      unfolding if_P [OF fits]
      apply (rule run_bind [OF run_write_leaf_to [OF ok p]], simp)
      using False ex by simp
    then show ?thesis using foc_holds [OF f' sub ord] by blast
  qed
qed

lemma run_InsertIntoLeaf_share:
  assumes f: "foc b 0 ((q, ls, lts, s # rs, PLeaf p2 es2 # rts) # C) (PLeaf p es) (c, md, md, N)"
    and ex: "ex = insert_at (FindEntryPosition es k) (k, r) es" "entries_ok b ex" "length ex = MaxKeysPerNode b + 1"
    and less: "length es2 < MaxKeysPerNode b"
    and ord: "ordered (left_of ((q, ls, lts, s # rs, PLeaf p2 es2 # rts) # C) @ map ent ex @ right_of ((q, ls, lts, s # rs, PLeaf p2 es2 # rts) # C))"
  shows "\<exists>a'. run b (InsertIntoLeaf p (path_of ((q, ls, lts, s # rs, PLeaf p2 es2 # rts) # C)) k r) (c, md, md, N) (Inr ()) a' \<and>
    holds b a' (ents_of (left_of ((q, ls, lts, s # rs, PLeaf p2 es2 # rts) # C)) @ ex @
      ents_of (right_of ((q, ls, lts, s # rs, PLeaf p2 es2 # rts) # C)))"
proof -
  let ?fr = "(q, ls, lts, s # rs, PLeaf p2 es2 # rts)" and ?com = "ex @ es2"
  have f1: "foc b 1 C (PNode q (ls @ s # rs) (lts @ PLeaf p es # PLeaf p2 es2 # rts)) (c, md, md, N)"
    and len: "length ls = length lts" "length rs = length rts" "low b C \<le> Suc (length ls + length rs)"
      "Suc (length ls + length rs) \<le> MaxKeysPerNode b"
    and sub: "list_all (sub b (MinKeysPerNonRootNode b) 0) lts" "list_all (sub b (MinKeysPerNonRootNode b) 0) rts"
    using f by (simp_all add: foc_Cons)
  have cs: "csub b 1 C" and cfg: "cfg_ok b" using f1 foc_parts(1) [OF f1] by (simp_all add: foc_def store_ok_def)
  obtain par where N: "N p = Some (LeafN par (nxt (?fr # C)) (?fr # C = []) es)" using foc_node_ok(1) [OF f] by blast
  have rng: "2 * MinKeysPerNonRootNode b \<le> length ?com \<and> length ?com \<le> 2 * MaxKeysPerNode b"
    using ex(3) less cfg_Min [OF cfg] by simp
  obtain i a' where i: "run b (RedistributeLeafWithRightSibling p ((q, length lts) # path_of C) ex) (c, md, md, N) (Inr True) a'"
    "MinKeysPerNonRootNode b \<le> i" "i \<le> MaxKeysPerNode b" "MinKeysPerNonRootNode b \<le> length ?com - i" "length ?com - i \<le> MaxKeysPerNode b"
    "i < length ?com" "0 < i" "foc b 1 (if lts = [] then set_sep (fst (hd ?com)) C else C)
      (PNode q (ls @ fst (hd (drop i ?com)) # rs) (lts @ PLeaf p (take i ?com) # PLeaf p2 (drop i ?com) # rts)) a'"
    using run_RedistributeLeaf [OF f1 len(1,2) ex(2)] unfolding if_P [OF rng] by blast
  have "\<exists>h T. rooted b h T a' \<and> sub b 1 h T \<and> ordered (flat T) \<and> ents_of (flat T) = ents_of (left_of C) @
    ents_of (weave ls (map flat lts)) @ ?com @ ents_of (weave_right rs (map flat rts)) @ ents_of (right_of C)"
    by (rule share_leaves_final [OF i(8) cs refl i(7,6) len i(2-5) sub, of s]) (use ord in simp)
  then have "holds b a' (ents_of (left_of (?fr # C)) @ ex @ ents_of (right_of (?fr # C)))" using holds_tree by fastforce
  moreover have over: "\<not> length ex \<le> MaxKeysPerNode b" using ex(3) by simp
  have "run b (InsertIntoLeaf p (path_of (?fr # C)) k r) (c, md, md, N) (Inr ()) a'"
    apply (rule run_InsertIntoLeaf_steps [of N p, OF N ex(1)])
    unfolding if_not_P [OF over] path_of.simps
    by (rule run_bind [OF i(1)]) simp
  ultimately show ?thesis by blast
qed


lemma redistribute_leaf_full:
  assumes f: "foc b 0 C (PLeaf p es) (c, md, dk, N)" and ex: "length ex = MaxKeysPerNode b + 1" "entries_ok b ex"
    and full: "\<And>q ls lts s rs p2 es2 rts C'. C = (q, ls, lts, s # rs, PLeaf p2 es2 # rts) # C' \<Longrightarrow> \<not> length es2 < MaxKeysPerNode b"
  shows "run b (RedistributeLeafWithRightSibling p (path_of C) ex) (c, md, dk, N) (Inr False) (c, md, dk, N)"
proof (cases C)
  case Nil
  then show ?thesis using run_RedistributeLeaf_last [of "[]"] by simp
next
  case (Cons fr C')
  obtain q ls lts rs rts where fr: "fr = (q, ls, lts, rs, rts)" by (cases fr)
  have f1: "foc b 1 C' (PNode q (ls @ rs) (lts @ PLeaf p es # rts)) (c, md, dk, N)" "length ls = length lts" "length rs = length rts"
      "list_all (sub b (MinKeysPerNonRootNode b) 0) rts"
    using f Cons fr by (simp_all add: foc_Cons)
  show ?thesis
  proof (cases rts)
    case Nil
    obtain par where "N q = Some (InternalN par (C' = []) (ls @ rs) (map pid (lts @ PLeaf p es # rts)))"
      using foc_node_ok(2) [OF f1(1)] by blast
    then show ?thesis using f1(2,3) Nil Cons fr by (intro run_RedistributeLeaf_last) auto
  next
    case (Cons u rts2)
    then obtain p2 es2 s rs2 where r: "rts = PLeaf p2 es2 # rts2" "rs = s # rs2" "length rs2 = length rts2" "length es2 \<le> MaxKeysPerNode b"
      using f1(3,4) by (cases rs) (auto simp: sub_0)
    then have "length es2 = MaxKeysPerNode b" using full \<open>C = fr # C'\<close> fr by fastforce
    then have nr: "\<not> (2 * MinKeysPerNonRootNode b \<le> length (ex @ es2) \<and> length (ex @ es2) \<le> 2 * MaxKeysPerNode b)" using ex(1) by simp
    have "run b (RedistributeLeafWithRightSibling p ((q, length lts) # path_of C') ex) (c, md, dk, N) (Inr False) (c, md, dk, N)"
      using run_RedistributeLeaf [OF f1(1) [unfolded r] f1(2) r(3) ex(2)] unfolding if_not_P [OF nr] .
    then show ?thesis using \<open>C = fr # C'\<close> fr by simp
  qed
qed

lemma run_InsertIntoLeaf:
  assumes f: "foc b 0 C (PLeaf p es) (c, md, md, N)" and low: "sub b (low b C) 0 (PLeaf p es)"
    and ex: "ex = xs @ (k, r) # ys" "es = xs @ ys" "FindEntryPosition es k = length xs"
    and ord: "ordered (left_of C @ map ent ex @ right_of C)" and key: "key_ok b k" "r < 2 ^ 64" and room: "room b (length C + 2) c"
  shows "\<exists>a'. run b (InsertIntoLeaf p (path_of C) k r) (c, md, md, N) (Inr ()) a' \<and>
    holds b a' (ents_of (left_of C) @ ex @ ents_of (right_of C))"
proof (cases "length ex \<le> MaxKeysPerNode b")
  case True
  then show ?thesis using run_InsertIntoLeaf_fits [OF f _ ex ord key] low by simp
next
  case over: False
  obtain par where N: "N p = Some (LeafN par (nxt C) (C = []) es)" "node_ok b (LeafN par (nxt C) (C = []) es)"
    using foc_node_ok(1) [OF f] by blast
  have ex': "length ex = MaxKeysPerNode b + 1" "entries_ok b ex" using over low ex N(2) key by auto
  have at: "ex = insert_at (FindEntryPosition es k) (k, r) es" using insert_at_app [of xs "length xs"] ex by simp
  show ?thesis
  proof (cases "\<exists>q ls lts s rs p2 es2 rts C'. C = (q, ls, lts, s # rs, PLeaf p2 es2 # rts) # C' \<and> length es2 < MaxKeysPerNode b")
    case True
    then obtain q ls lts s rs p2 es2 rts C' where C: "C = (q, ls, lts, s # rs, PLeaf p2 es2 # rts) # C'" "length es2 < MaxKeysPerNode b"
      by blast
    show ?thesis unfolding C(1) by (rule run_InsertIntoLeaf_share [OF f [unfolded C(1)] at ex'(2,1) C(2) ord [unfolded C(1)]])
  next
    case False
    let ?m = "bt_min_degree b"
    have full: "run b (RedistributeLeafWithRightSibling p (path_of C) ex) (c, md, md, N) (Inr False) (c, md, md, N)"
      using False by (intro redistribute_leaf_full [OF f ex']) blast
    obtain a' h T where T: "run b (SplitLeaf p (path_of C) ex) (c, md, md, N) (Inr ()) a'" "rooted b h T a'" "sub b 1 h T"
      "flat T = left_of C @ map ent (take ?m ex) @ Sep (fst (hd (drop ?m ex))) # map ent (drop ?m ex) @ right_of C"
      using run_SplitLeaf [OF f ex' room refl] by blast
    have "?m < length ex" using ex'(1) store_ok_node [OF foc_parts(1) [OF f], of p, OF N(1)]
      by (auto simp: cfg_ok_def MaxKeysPerNode_def)
    then obtain e es' where e: "drop ?m ex = e # es'" by (cases "drop ?m ex") auto
    have "ordered (left_of C @ map ent (take ?m ex @ drop ?m ex) @ right_of C)" using ord by simp
    then have "ordered (flat T)"
      using ordered_put [of "left_of C @ map ent (take ?m ex)" "fst e" "snd e" "map ent es' @ right_of C"] T(4) e by simp
    moreover have "ents_of (flat T) = ents_of (left_of C) @ (take ?m ex @ drop ?m ex) @ ents_of (right_of C)" using T(4) by simp
    ultimately have "holds b a' (ents_of (left_of C) @ ex @ ents_of (right_of C))"
      using holds_tree [OF T(2,3)] by (simp only: append_take_drop_id)
    moreover have "run b (InsertIntoLeaf p (path_of C) k r) (c, md, md, N) (Inr ()) a'"
      apply (rule run_InsertIntoLeaf_steps [of N p, OF N(1) at])
      unfolding if_not_P [OF over]
      by (rule run_bind [OF full]) (simp add: T(1))
    ultimately show ?thesis by blast
  qed
qed


subsection \<open>Insertion\<close>

definition put :: "Value \<Rightarrow> nat \<Rightarrow> LeafEntry list \<Rightarrow> LeafEntry list" where
  "put k r es = takeWhile (\<lambda>e. fst e < k) es @ (k, r) # dropWhile (\<lambda>e. fst e < k) es"

lemma put_eq:
  assumes "\<And>e. e \<in> set xs \<Longrightarrow> fst e < k" "\<And>e. e \<in> set ys \<Longrightarrow> k < fst e"
  shows "put k r (xs @ ys) = xs @ (k, r) # ys"
proof -
  have "takeWhile (\<lambda>e. fst e < k) ys = [] \<and> dropWhile (\<lambda>e. fst e < k) ys = ys"
    using assms(2) by (cases ys) (auto dest: less_asym)
  then show ?thesis using assms(1) by (simp add: put_def)
qed

lemma map_of_put:
  assumes "sorted_wrt (<) (map fst es)" "map_of es k = None"
  shows "map_of (put k r es) = (map_of es)(k \<mapsto> r)"
proof -
  let ?xs = "takeWhile (\<lambda>e. fst e < k) es" and ?ys = "dropWhile (\<lambda>e. fst e < k) es"
  have "map_of ?xs k = None"
    by (auto simp: map_of_eq_None_iff dest: set_takeWhileD)
  moreover have "map_of es = map_of (?xs @ ?ys)" by simp
  then have "map_of es = map_of ?ys ++ map_of ?xs" by (simp only: map_of_append)
  ultimately show ?thesis by (auto simp: put_def map_add_def fun_eq_iff split: option.splits)
qed

lemma Validate_key_ok: "ValidateKeyType b k = Inr () \<Longrightarrow> value_wf k \<Longrightarrow> key_ok b k"
  by (cases k) (auto simp: ValidateKeyType_def bindR_guardR key_ok_def is_null_def split: if_splits)

lemma run_Insert_first:
  assumes h: "holds b (c, md, md, N) []" "bm_root_page_id md = InvalidPageId" and open_: "bt_is_open b"
    and key: "ValidateKeyType b k = Inr ()" "value_wf k" "r < 2 ^ 64" and room: "room b 1 c"
  shows "\<exists>a'. run b (bt_Insert k r) (c, md, md, N) (Inr ()) a' \<and> holds b a' [(k, r)]"
proof -
  let ?nd = "LeafN InvalidPageId InvalidPageId True [(k, r)]"
  let ?md = "md\<lparr>bm_root_page_id := c, bm_first_leaf_page_id := c, bm_tree_height := 1\<rparr>"
  have st: "store_ok b (c, md, md, N)" "meta_ok b md" using h by (simp_all add: holds_def)
  have cfg: "cfg_ok b" "0 < c" using st(1) by (simp_all add: store_ok_def)
  have ok: "node_ok b ?nd" using Validate_key_ok [OF key(1,2)] key(3) cfg_Min [OF cfg(1)] by (simp add: InvalidPageId_def)
  have "store_ok b (c + 1, ?md, ?md, N(c \<mapsto> ?nd))"
    using store_ok_grow [OF st(1) room, of md md] ok cfg(2) by (intro store_ok_upd) auto
  then have "rooted b 0 (PLeaf c [(k, r)]) (c + 1, ?md, ?md, N(c \<mapsto> ?nd))" "sub b 1 0 (PLeaf c [(k, r)])"
    using st(2) cfg_Min [OF cfg(1)] by (simp_all add: rooted_def meta_ok_def roots_def)
  from holds_tree [OF this] have "holds b (c + 1, ?md, ?md, N(c \<mapsto> ?nd)) [(k, r)]" by simp
  moreover have "run b (bt_Insert k r) (c, md, md, N) (Inr ()) (c + 1, ?md, ?md, N(c \<mapsto> ?nd))"
    unfolding bt_Insert_def
    apply (rule run_the_bt)
    apply (simp only: cfg_simps h(2) if_True open_ key(1) simp_thms)
    apply (rule run_bind [OF run_guard], simp)
    apply (rule run_bind [OF run_liftR])
    apply (rule run_bind [OF run_AllocateNodePage [OF room]])
    apply (rule run_bind [OF run_write_leaf_to [OF ok]])
    using cfg(2) apply simp
    apply simp
    apply (simp add: root_node_header_def)
    apply (rule run_bind [OF run_set_metadata])
    apply (rule run_WriteMetadata)
    done
  ultimately show ?thesis by blast
qed

lemma run_Insert_tree:
  assumes T: "rooted b h T (c, md, dk, N)" "sub b 1 h T" "ordered (flat T)" and open_: "bt_is_open b"
    and key: "ValidateKeyType b k = Inr ()" "value_wf k" "r < 2 ^ 64"
    and new: "map_of (ents_of (flat T)) k = None" and room: "room b (h + 2) c"
  shows "\<exists>a'. run b (bt_Insert k r) (c, md, dk, N) (Inr ()) a' \<and> holds b a' (put k r (ents_of (flat T)))"
proof -
  have root: "bm_root_page_id md \<noteq> InvalidPageId" and dk: "dk = md" using rooted_valid [OF T(1)] T(1) by (auto simp: rooted_def)
  obtain C p es where d: "run b (FindPathToLeaf k) (c, md, dk, N) (Inr (path_of C, p, map_of (ents_of (flat T)) k)) (c, md, dk, N)"
    "plug C (PLeaf p es) = T" "foc b 0 C (PLeaf p es) (c, md, dk, N)" "sub b (low b C) 0 (PLeaf p es)" "around k C" "length C = h"
    "map_of (ents_of (flat T)) k = map_of es k" "ents_of (flat T) = ents_of (left_of C) @ es @ ents_of (right_of C)"
    by (rule run_FindPathToLeaf [OF T, of k]) blast
  have cs: "csub b 0 C" using d(3) by (simp add: foc_def)
  have fl: "flat T = left_of C @ map ent es @ right_of C" using flat_plug [OF cs, of "PLeaf p es"] d(2) by simp
  have "sorted_wrt (<) (map fst es)" using ordered_ents [OF T(3)] by (simp add: d(8) sorted_wrt_append)
  then obtain xs ys where xy: "es = xs @ ys" "FindEntryPosition es k = length xs" "\<And>e. e \<in> set xs \<Longrightarrow> fst e < k" "\<And>e. e \<in> set ys \<Longrightarrow> k < fst e"
    using entry_position [of es k] new d(7) by auto
  have ar: "\<And>x. x \<in> set (left_of C) \<Longrightarrow> before x (Ent k 0)" "\<And>x. x \<in> set (right_of C) \<Longrightarrow> before (Ent k 0) x"
    using d(5) by (simp_all add: around_def list_all_iff)
  have "ordered (left_of C @ map ent (xs @ (k, r) # ys) @ right_of C)"
    by (rule ordered_insert) (use T(3) fl xy ar in simp_all)
  then obtain a' where a': "run b (InsertIntoLeaf p (path_of C) k r) (c, md, dk, N) (Inr ()) a'"
    "holds b a' (ents_of (left_of C) @ (xs @ (k, r) # ys) @ ents_of (right_of C))"
    using run_InsertIntoLeaf [OF _ d(4) refl xy(1,2) _ Validate_key_ok [OF key(1,2)] key(3)] d(3,6) dk room by blast
  have "put k r (ents_of (flat T)) = (ents_of (left_of C) @ xs) @ (k, r) # ys @ ents_of (right_of C)"
    using put_eq [of "ents_of (left_of C) @ xs" k "ys @ ents_of (right_of C)" r] around_keys [OF d(5)] xy(3,4) d(8) xy(1) by fastforce
  then have "holds b a' (put k r (ents_of (flat T)))" using a'(2) by simp
  moreover have "run b (bt_Insert k r) (c, md, dk, N) (Inr ()) a'"
    unfolding bt_Insert_def
    apply (rule run_the_bt)
    apply (simp only: cfg_simps root if_False open_ key(1) simp_thms)
    apply (rule run_bind [OF run_guard], simp)
    apply (rule run_bind [OF run_liftR])
    apply (rule run_bind [OF d(1)])
    apply (simp only: prod.case)
    apply (rule run_bind [OF run_guard], rule new)
    apply (rule a'(1))
    done
  ultimately show ?thesis by blast
qed

lemma run_Insert:
  assumes h: "holds b (c, md, dk, N) es" and open_: "bt_is_open b" and key: "ValidateKeyType b k = Inr ()" "value_wf k" "r < 2 ^ 64"
    and new: "map_of es k = None" and room: "room b (bm_tree_height md + 1) c"
  shows "\<exists>a'. run b (bt_Insert k r) (c, md, dk, N) (Inr ()) a' \<and> holds b a' (put k r es)"
proof (cases "bm_root_page_id md = InvalidPageId")
  case True
  then have "dk = md" "es = []" "bm_tree_height md = 0" using h by (simp_all add: holds_def)
  moreover from this have "put k r es = [(k, r)]" by (simp add: put_def)
  ultimately show ?thesis using run_Insert_first [OF _ True open_ key, of c N] h room by simp
next
  case False
  then obtain hh T where T: "rooted b hh T (c, md, dk, N)" "sub b 1 hh T" "ordered (flat T)" "ents_of (flat T) = es"
    using h by (auto simp: holds_def)
  have "room b (hh + 2) c" using room T(1) by (simp add: rooted_def roots_def)
  then show ?thesis using run_Insert_tree [OF T(1-3) open_ key] new T(4) by simp
qed

lemma run_Insert_duplicate:
  assumes h: "holds b a es" and open_: "bt_is_open b" and key: "ValidateKeyType b k = Inr ()" and old: "map_of es k = Some r'"
  shows "run b (bt_Insert k r) a (Inl kAlreadyExists) a"
proof -
  obtain c md dk N where a: "a = (c, md, dk, N)" by (cases a)
  have root: "bm_root_page_id md \<noteq> InvalidPageId" using h old a by (auto simp: holds_def)
  then obtain hh T where T: "rooted b hh T a" "sub b 1 hh T" "ordered (flat T)" "ents_of (flat T) = es"
    using h a by (auto simp: holds_def)
  obtain C p where d: "run b (FindPathToLeaf k) a (Inr (path_of C, p, map_of es k)) a"
    using run_FindPathToLeaf [OF T(1-3), of k] T(4) by metis
  show ?thesis
    unfolding bt_Insert_def a
    apply (rule run_the_bt)
    apply (simp only: cfg_simps root if_False open_ key simp_thms)
    apply (rule run_bind [OF run_guard], simp)
    apply (rule run_bind [OF run_liftR])
    apply (rule run_bind [OF d [unfolded a]])
    apply (simp only: prod.case)
    apply (rule run_bind_err [OF run_guard_err])
    using old by simp
qed

end
