(* ===== verification/BStar_Delete.thy ===== *)
theory BStar_Delete
  imports BStar_Insert
begin

text \<open>
  Deletion. \<open>RebalanceAfterDelete\<close> shares with or merges into a sibling and goes on with the parent, so it is followed up the
  path by induction on the context; every step keeps the entries and their order.
\<close>

subsection \<open>Merging two siblings\<close>

fun merged :: "Value \<Rightarrow> ptree \<Rightarrow> ptree \<Rightarrow> ptree" where
  "merged s (PLeaf p es) (PLeaf _ es2) = PLeaf p (es @ es2)"
| "merged s (PNode p ss ts) (PNode _ ss2 ts2) = PNode p (ss @ s # ss2) (ts @ ts2)"
| "merged s t _ = t"

lemma erase_at_app: "length xs = i \<Longrightarrow> erase_at i (xs @ x # ys) = xs @ ys"
  by (auto simp: erase_at_def)

lemma erase_at_app2: "length xs = i \<Longrightarrow> erase_at (i + 1) (xs @ x # y # ys) = xs @ x # ys"
  using erase_at_app [of "xs @ [x]" "i + 1" y ys] by simp

lemma foc_merge:
  assumes f: "foc b (Suc n) C (PNode q (ls @ s # rs) (lts @ t1 # t2 # rts)) (c, md, dk, N)"
    and m: "rep N1 False (next_leaf rts (nxt C)) m" "pid m = pid t1" "first_leaf m = first_leaf t1" "distinct (pids m)"
      "set (pids m) \<subseteq> set (pids t1 @ pids t2)"
    and N1: "\<And>x. x \<notin> set (pids t1 @ pids t2) \<Longrightarrow> N1 x = N x" and st: "store_ok b (c, md, dk, N1)"
    and N: "N q = Some (InternalN parq (C = []) (ls @ s # rs) (map pid lts @ pid t1 # pid t2 # map pid rts))"
    and nq: "nq = InternalN parq (C = []) (ls @ rs) (map pid lts @ pid t1 # map pid rts)"
  shows "node_ok b nq" "foc b (Suc n) C (PNode q (ls @ rs) (lts @ m # rts)) (c, md, dk, N1(q \<mapsto> nq))"
proof -
  note st0 = foc_parts(1) [OF f]
  show ok: "node_ok b nq" using store_ok_node [OF st0, of q, OF N] by (auto simp: nq)
  have q: "0 < q" "q < c" using store_ok_node [OF st0, of q, OF N] by auto
  have dist: "distinct (cpids C @ q # concat (map pids lts) @ (pids t1 @ pids t2) @ concat (map pids rts))"
    using foc_parts(8) [OF f] by simp
  have r: "reps N (first_leaf t1) lts" "reps N (nxt C) rts" using foc_parts(7) [OF f] by simp_all
  show "foc b (Suc n) C (PNode q (ls @ rs) (lts @ m # rts)) (c, md, dk, N1(q \<mapsto> nq))"
  proof (rule foc_replace [OF f])
    show "store_ok b (c, md, dk, N1(q \<mapsto> nq))" by (rule store_ok_upd [OF st ok q])
    show "(N1(q \<mapsto> nq)) x = N x" if "x \<in> set (cpids C)" for x
    proof -
      have "x \<notin> set (pids t1 @ pids t2)" "x \<noteq> q" using that dist by auto
      then show ?thesis using N1 [of x] by simp
    qed
    have "reps N1 (first_leaf t1) lts = reps N (first_leaf t1) lts" "reps N1 (nxt C) rts = reps N (nxt C) rts"
      using dist by (intro rep_cong(2) N1; force)+
    moreover have "q \<notin> set (pids m)" using m(5) dist by auto
    ultimately show "rep (N1(q \<mapsto> nq)) (C = []) (nxt C) (PNode q (ls @ rs) (lts @ m # rts))"
      using r dist m(1-3) by (simp add: nq)
    show "first_leaf (PNode q (ls @ rs) (lts @ m # rts)) = first_leaf (PNode q (ls @ s # rs) (lts @ t1 # t2 # rts))"
      using m(3) by (cases lts) auto
    show "distinct (cpids C @ pids (PNode q (ls @ rs) (lts @ m # rts)))" using dist m(4,5)
      unfolding pids.simps map_append concat_append list.map concat.simps distinct_append distinct.simps set_append list.set Un_iff insert_iff
      by blast
  qed simp
qed

text \<open>What a merge does after the left node has been rewritten; \<open>C\<close> is the context of the parent.\<close>

definition merge_rest :: "bstar_tree \<Rightarrow> (nat \<Rightarrow> (bt_state, unit) stm) \<Rightarrow> ctx \<Rightarrow> nat \<Rightarrow> Value list \<Rightarrow> (bt_state, unit) stm" where
  "merge_rest b reb C q ss = (if C \<noteq> [] \<and> length ss < MinKeysPerNonRootNode b then reb q else ret ())"

definition merges :: "bstar_tree \<Rightarrow> (nat \<Rightarrow> (bt_state, unit) stm) \<Rightarrow> ctx \<Rightarrow> nat \<Rightarrow> Value list \<Rightarrow> ptree list \<Rightarrow> ptree \<Rightarrow> ptree list \<Rightarrow>
    nat \<Rightarrow> (bt_state, bool) stm \<Rightarrow> store \<Rightarrow> bool" where
  "merges b reb C q ss lts m rts n merge a \<longleftrightarrow>
     (if C = [] \<and> ss = [] then \<exists>a'. run b merge a (Inr True) a' \<and> rooted b n m a'
      else \<exists>a'. foc b (Suc n) C (PNode q ss (lts @ m # rts)) a' \<and>
        (\<forall>a''. run b (merge_rest b reb C q ss) a' (Inr ()) a'' \<longrightarrow> run b merge a (Inr True) a''))"

lemma run_MergeLeaf:
  assumes f: "foc b 1 C (PNode q (ls @ s # rs) (lts @ PLeaf p es1 # PLeaf p2 es2 # rts)) (c, md, md, N)"
    and len: "length ls = length lts" "length rs = length rts" and fits: "length es1 + length es2 \<le> MaxKeysPerNode b"
  shows "merges b reb C q (ls @ rs) lts (PLeaf p (es1 @ es2)) rts 0
    (MergeLeafWithRightSibling reb p ((q, length lts) # path_of C)) (c, md, md, N)"
proof -
  note st = foc_parts(1) [OF f]
  have cfg: "cfg_ok b" using st by (simp add: store_ok_def)
  let ?cs = "map pid lts @ p # p2 # map pid rts" and ?nx = "next_leaf rts (nxt C)"
  obtain parq par par2 where N: "N q = Some (InternalN parq (C = []) (ls @ s # rs) ?cs)"
    "N p = Some (LeafN par p2 False es1)" "N p2 = Some (LeafN par2 ?nx False es2)"
    using f by (auto simp: foc_iff inner_at_iff leaf_at_iff)
  note nok = store_ok_node [OF st, of q, OF N(1)] store_ok_node [OF st, of p, OF N(2)] store_ok_node [OF st, of p2, OF N(3)]
  let ?nd = "LeafN par ?nx False (es1 @ es2)" and ?h = "header_of (LeafN par p2 False es1)\<lparr>nh_next_leaf_page_id := ?nx\<rparr>"
  let ?m = "PLeaf p (es1 @ es2)"
  have ok: "node_ok b ?nd" using nok fits by simp
  have st1: "store_ok b (c, md, md, N(p \<mapsto> ?nd))" using store_ok_upd [OF st ok] nok by simp
  have build: "BuildLeafPage b ?h (es1 @ es2) = Inr (node_page b ?nd)"
    using BuildLeafPage_ok [OF cfg, of ?h "es1 @ es2"] ok by simp
  have er: "erase_at (length lts) (ls @ s # rs) = ls @ rs" "erase_at (length lts + 1) ?cs = map pid lts @ p # map pid rts"
    using erase_at_app [of ls] erase_at_app2 [of "map pid lts" "length lts" p p2] len by simp_all
  let ?body = "if (C = []) \<and> ls @ rs = [] then
         bindS (write_leaf p (?h\<lparr>nh_parent_page_id := InvalidPageId, nh_is_root := True\<rparr>) (es1 @ es2)) (\<lambda>_.
         bindS (set_metadata (\<lambda>md. md\<lparr>bm_root_page_id := p, bm_first_leaf_page_id := p, bm_tree_height := 1\<rparr>)) (\<lambda>_.
         bindS bt_WriteMetadata (\<lambda>_. ret True)))
       else
         bindS (write_internal q (header_of (InternalN parq (C = []) (ls @ s # rs) ?cs)) (ls @ rs, map pid lts @ p # map pid rts)) (\<lambda>_.
         bindS (merge_rest b reb C q (ls @ rs)) (\<lambda>_. ret True))"
  have exec: "run b (MergeLeafWithRightSibling reb p ((q, length lts) # path_of C)) (c, md, md, N) r a'"
    if "run b ?body (c, md, md, N(p \<mapsto> ?nd)) r a'" for r a'
  proof -
    have nth: "?cs ! (length lts + 1) = p2" "\<not> length lts + 1 \<ge> length ?cs" by (simp_all add: nth_append)
    show ?thesis
      unfolding MergeLeafWithRightSibling_def list.case prod.case
      apply (rule run_bind [OF run_read_internal [of N, OF N(1)]])
      apply (simp only: prod.case nth if_False Let_def [of p2])
      apply (rule run_bind [OF run_ReadPage [of N, OF N(2)]])
      apply (rule run_bind [OF run_ReadPage [of N, OF N(3)]])
      apply (rule run_parse_leaf_of [of N, OF N(2)])
      apply (simp only: prod.case)
      apply (rule run_parse_leaf_of [of N, OF N(3)])
      apply (simp only: prod.case)
      apply (rule run_the_bt)
      apply (simp only: cfg_simps Let_def header_of.simps(1) [of _ ?nx] NodeHeader.simps build [unfolded header_of.simps NodeHeader.simps]
          header_of.simps(1) sum.case)
      apply (rule run_bind [OF run_WritePage [OF ok]])
      using nok apply simp
      using nok apply simp
      using that by (simp only: er fst_conv header_of.simps NodeHeader.simps merge_rest_def)
  qed
  show ?thesis
  proof (cases "C = [] \<and> ls @ rs = []")
    case True
    then have e: "lts = []" "rts = []" "ls = []" "rs = []" using len by auto
    let ?nr = "LeafN InvalidPageId ?nx True (es1 @ es2)" and ?md = "md\<lparr>bm_root_page_id := p, bm_first_leaf_page_id := p, bm_tree_height := 1\<rparr>"
    have okr: "node_ok b ?nr" using ok by (simp add: InvalidPageId_def)
    have "store_ok b (c, ?md, ?md, N(p \<mapsto> ?nd, p \<mapsto> ?nr))" using store_ok_upd [OF st1 okr, of p ?md ?md] nok by simp
    then have "rooted b 0 ?m (c, ?md, ?md, N(p \<mapsto> ?nd, p \<mapsto> ?nr))"
      using foc_parts(2) [OF f] True e by (simp add: rooted_def roots_def meta_ok_def)
    moreover have "run b (MergeLeafWithRightSibling reb p ((q, length lts) # path_of C)) (c, md, md, N) (Inr True)
        (c, ?md, ?md, N(p \<mapsto> ?nd, p \<mapsto> ?nr))"
      apply (rule exec)
      unfolding if_P [OF True]
      apply (rule run_bind [OF run_write_leaf_to [OF okr]])
      using nok apply simp
      using nok apply simp
      apply simp
      apply (rule run_bind [OF run_set_metadata])
      apply (rule run_bind [OF run_WriteMetadata])
      apply (rule run_ret)
      done
    ultimately show ?thesis unfolding merges_def if_P [OF True] by blast
  next
    case False
    have dist: "distinct (q # concat (map pids lts) @ [p, p2] @ concat (map pids rts))" "q \<notin> {p, p2}"
      using foc_parts(8) [OF f] by auto
    let ?nq = "InternalN parq (C = []) (ls @ rs) (map pid lts @ p # map pid rts)"
    have fm: "node_ok b ?nq" "foc b 1 C (PNode q (ls @ rs) (lts @ ?m # rts)) (c, md, md, N(p \<mapsto> ?nd, q \<mapsto> ?nq))"
      using foc_merge [of b 0 C q ls s rs lts "PLeaf p es1" "PLeaf p2 es2" rts c md md N "N(p \<mapsto> ?nd)" ?m parq ?nq] f st1 N(1) by auto
    have "run b (MergeLeafWithRightSibling reb p ((q, length lts) # path_of C)) (c, md, md, N) (Inr True) a''"
      if "run b (merge_rest b reb C q (ls @ rs)) (c, md, md, N(p \<mapsto> ?nd, q \<mapsto> ?nq)) (Inr ()) a''" for a''
      apply (rule exec)
      unfolding if_not_P [OF False]
      apply (rule run_bind [OF run_write_internal_to [OF fm(1)]])
      using nok apply simp
      using nok apply simp
      apply simp
      apply (rule run_bind [OF that])
      apply (rule run_ret)
      done
    then show ?thesis unfolding merges_def if_not_P [OF False] using fm(2) by (intro exI conjI) auto
  qed
qed


lemma merged_node_rep:
  assumes r: "rep N False (first_leaf (PNode p2 ss2 ts2)) (PNode p ss ts)" "rep N False nx (PNode p2 ss2 ts2)"
    and len: "length ts = Suc (length ss)" "length ts2 = Suc (length ss2)"
    and dist: "distinct (pids (PNode p ss ts) @ pids (PNode p2 ss2 ts2))"
  shows "rep (N(p \<mapsto> InternalN par rt (ss @ s # ss2) (map pid (ts @ ts2)))) rt nx (PNode p (ss @ s # ss2) (ts @ ts2))"
    "first_leaf (PNode p (ss @ s # ss2) (ts @ ts2)) = first_leaf (PNode p ss ts)" "reps N nx (ts @ ts2)"
proof -
  have "first_leaf (PNode p2 ss2 ts2) = next_leaf ts2 nx" using len(2) by (intro first_leaf_next) auto
  then show reps: "reps N nx (ts @ ts2)" using r by simp
  have "p \<notin> set (concat (map pids (ts @ ts2)))" using dist by auto
  then show "rep (N(p \<mapsto> InternalN par rt (ss @ s # ss2) (map pid (ts @ ts2)))) rt nx (PNode p (ss @ s # ss2) (ts @ ts2))"
    using reps by (simp only: rep.simps at_upd rep_upd simp_thms)
  show "first_leaf (PNode p (ss @ s # ss2) (ts @ ts2)) = first_leaf (PNode p ss ts)" using len(1) by (cases ts) auto
qed

lemma run_MergeInternal:
  assumes f: "foc b (Suc (Suc n)) C (PNode q (ls @ s # rs) (lts @ PNode p ss ts # PNode p2 ss2 ts2 # rts)) (c, md, md, N)"
    and len: "length ls = length lts" "length rs = length rts" "length ts = Suc (length ss)" "length ts2 = Suc (length ss2)"
    and fits: "length ss + length ss2 < MaxKeysPerNode b"
  shows "merges b reb C q (ls @ rs) lts (PNode p (ss @ s # ss2) (ts @ ts2)) rts (Suc n)
    (MergeInternalWithRightSibling reb p ((q, length lts) # path_of C)) (c, md, md, N)"
proof -
  note st = foc_parts(1) [OF f]
  have cfg: "cfg_ok b" using st by (simp add: store_ok_def)
  let ?cs = "map pid lts @ p # p2 # map pid rts" and ?nx = "next_leaf rts (nxt C)"
  let ?ss = "ss @ s # ss2" and ?ts = "ts @ ts2"
  let ?m = "PNode p ?ss ?ts"
  obtain parq par par2 where N: "N q = Some (InternalN parq (C = []) (ls @ s # rs) ?cs)"
    "N p = Some (InternalN par False ss (map pid ts))" "N p2 = Some (InternalN par2 False ss2 (map pid ts2))"
    using f by (auto simp: foc_iff inner_at_iff)
  note nok = store_ok_node [OF st, of q, OF N(1)] store_ok_node [OF st, of p, OF N(2)] store_ok_node [OF st, of p2, OF N(3)]
  have dist: "distinct (pids (PNode p ss ts) @ pids (PNode p2 ss2 ts2))" using foc_parts(8) [OF f] by auto
  have rep: "rep N False (first_leaf (PNode p2 ss2 ts2)) (PNode p ss ts)" "rep N False ?nx (PNode p2 ss2 ts2)"
    using foc_parts(7) [OF f] by simp_all
  note mr = merged_node_rep(1) [OF rep len(3,4) dist, of par False s] merged_node_rep(2) [OF rep len(3,4) dist, of s]
    merged_node_rep(3) [OF rep len(3,4) dist]
  let ?nd = "InternalN par False ?ss (map pid ?ts)" and ?h = "header_of (InternalN par False ss (map pid ts))"
  have ok: "node_ok b ?nd" using nok fits by simp
  have st1: "store_ok b (c, md, md, N(p \<mapsto> ?nd))" using store_ok_upd [OF st ok] nok by simp
  have build: "BuildInternalPage b ?h (?ss, map pid ?ts) = Inr (node_page b ?nd)"
    using BuildInternalPage_ok [OF cfg, of ?h ?ss "map pid ?ts"] ok by simp
  have er: "erase_at (length lts) (ls @ s # rs) = ls @ rs" "erase_at (length lts + 1) ?cs = map pid lts @ p # map pid rts"
    using erase_at_app [of ls] erase_at_app2 [of "map pid lts" "length lts" p p2] len by simp_all
  have sub: "set (map pid ?ts) \<subseteq> dom (N(p \<mapsto> ?nd))" using pids_dom [OF mr(3)] by auto
  let ?body = "if (C = []) \<and> ls @ rs = [] then
         bindS (write_internal p (?h\<lparr>nh_parent_page_id := InvalidPageId, nh_is_root := True\<rparr>) (?ss, map pid ?ts)) (\<lambda>_.
         bindS (set_metadata (\<lambda>md. md\<lparr>bm_root_page_id := p,
             bm_tree_height := (if bm_tree_height md > 0 then bm_tree_height md - 1 else bm_tree_height md)\<rparr>)) (\<lambda>_.
         bindS bt_WriteMetadata (\<lambda>_. ret True)))
       else
         bindS (write_internal q (header_of (InternalN parq (C = []) (ls @ s # rs) ?cs)) (ls @ rs, map pid lts @ p # map pid rts)) (\<lambda>_.
         bindS (merge_rest b reb C q (ls @ rs)) (\<lambda>_. ret True))"
  have exec: "run b (MergeInternalWithRightSibling reb p ((q, length lts) # path_of C)) (c, md, md, N) r a'"
    if "run b ?body (c, md, md, N(p \<mapsto> ?nd)) r a'" for r a'
  proof -
    have nth: "?cs ! (length lts + 1) = p2" "\<not> length lts + 1 \<ge> length ?cs" "(ls @ s # rs) ! length lts = s"
      using len by (simp_all add: nth_append)
    show ?thesis
      unfolding MergeInternalWithRightSibling_def list.case prod.case
      apply (rule run_bind [OF run_read_internal [of N, OF N(1)]])
      apply (simp only: prod.case nth if_False Let_def [of p2])
      apply (rule run_bind [OF run_ReadPage [of N, OF N(2)]])
      apply (rule run_bind [OF run_ReadPage [of N, OF N(3)]])
      apply (rule run_parse_internal_of [of N, OF N(2)])
      apply (simp only: prod.case)
      apply (rule run_parse_internal_of [of N, OF N(3)])
      apply (simp only: prod.case)
      apply (rule run_the_bt)
      apply (simp only: cfg_simps Let_def nth append_Cons append_Nil map_append [symmetric] build sum.case snd_conv)
      apply (rule run_bind [OF run_WritePage [OF ok]])
      using nok apply simp
      using nok apply simp
      apply (rule run_bind [OF run_rewrite_child_parent [OF sub]])
      using that by (simp only: er fst_conv header_of.simps NodeHeader.simps merge_rest_def)
  qed
  show ?thesis
  proof (cases "C = [] \<and> ls @ rs = []")
    case True
    then have e: "lts = []" "rts = []" "ls = []" "rs = []" using len by auto
    let ?nr = "InternalN InvalidPageId True ?ss (map pid ?ts)"
    let ?md = "md\<lparr>bm_root_page_id := p, bm_tree_height := (if bm_tree_height md > 0 then bm_tree_height md - 1 else bm_tree_height md)\<rparr>"
    have okr: "node_ok b ?nr" using ok by (simp add: InvalidPageId_def)
    have "store_ok b (c, ?md, ?md, N(p \<mapsto> ?nr))" using store_ok_upd [OF st1 okr, of p ?md ?md] nok by simp
    moreover have "rep (N(p \<mapsto> ?nr)) True ?nx ?m"
      using merged_node_rep(1) [OF rep len(3,4) dist, of InvalidPageId True s] .
    ultimately have "rooted b (Suc n) ?m (c, ?md, ?md, N(p \<mapsto> ?nd, p \<mapsto> ?nr))"
      using foc_parts(2,4) [OF f] True e dist mr(2) by (simp add: rooted_def roots_def meta_ok_def)
    moreover have "run b (MergeInternalWithRightSibling reb p ((q, length lts) # path_of C)) (c, md, md, N) (Inr True)
        (c, ?md, ?md, N(p \<mapsto> ?nd, p \<mapsto> ?nr))"
      apply (rule exec)
      unfolding if_P [OF True]
      apply (rule run_bind [OF run_write_internal_to [OF okr]])
      using nok apply simp
      using nok apply simp
      apply simp
      apply (rule run_bind [OF run_set_metadata])
      apply (rule run_bind [OF run_WriteMetadata])
      apply (rule run_ret)
      done
    ultimately show ?thesis unfolding merges_def if_P [OF True] by blast
  next
    case False
    let ?nq = "InternalN parq (C = []) (ls @ rs) (map pid lts @ p # map pid rts)"
    have fm: "node_ok b ?nq" "foc b (Suc (Suc n)) C (PNode q (ls @ rs) (lts @ ?m # rts)) (c, md, md, N(p \<mapsto> ?nd, q \<mapsto> ?nq))"
      using foc_merge [OF f mr(1) _ mr(2) _ _ _ st1, of parq ?nq] dist N(1) by auto
    have "run b (MergeInternalWithRightSibling reb p ((q, length lts) # path_of C)) (c, md, md, N) (Inr True) a''"
      if "run b (merge_rest b reb C q (ls @ rs)) (c, md, md, N(p \<mapsto> ?nd, q \<mapsto> ?nq)) (Inr ()) a''" for a''
      apply (rule exec)
      unfolding if_not_P [OF False]
      apply (rule run_bind [OF run_write_internal_to [OF fm(1)]])
      using nok apply simp
      using nok apply simp
      apply simp
      apply (rule run_bind [OF that])
      apply (rule run_ret)
      done
    then show ?thesis unfolding merges_def if_not_P [OF False] using fm(2) by (intro exI conjI) auto
  qed
qed


subsection \<open>Rebalancing a pair of siblings\<close>

definition rebalances :: "bstar_tree \<Rightarrow> nat \<Rightarrow> ctx \<Rightarrow> bool" where
  "rebalances b n C \<longleftrightarrow> (\<forall>t a. C \<noteq> [] \<longrightarrow> foc b n C t a \<longrightarrow> sub b 0 n t \<longrightarrow> ordered (left_of C @ flat t @ right_of C) \<longrightarrow>
     (\<exists>a'. run b (RebalanceAfterDelete (path_of C) (pid t)) a (Inr ()) a' \<and>
       holds b a' (ents_of (left_of C @ flat t @ right_of C))))"

definition settles :: "bstar_tree \<Rightarrow> (bt_state, bool) stm \<Rightarrow> (bt_state, bool) stm \<Rightarrow> store \<Rightarrow> LeafEntry list \<Rightarrow> bool" where
  "settles b share merge a es \<longleftrightarrow> (\<exists>a'. holds b a' es \<and>
     (run b share a (Inr True) a' \<or> run b share a (Inr False) a \<and> run b merge a (Inr True) a'))"

lemma foc_holds_node:
  assumes "foc b n C t a" "sub b (low b C) n t" "ordered (left_of C @ flat t @ right_of C)"
  shows "holds b a (ents_of (left_of C @ flat t @ right_of C))"
proof -
  have c: "csub b n C" "rooted b (n + length C) (plug C t) a" using assms(1) by (simp_all add: foc_def)
  show ?thesis using holds_tree [OF c(2) sub_plug [OF c(1) assms(2)]] assms(3) flat_plug [OF c(1), of t] by simp
qed

lemma merges_done:
  assumes mg: "merges b (RebalanceAfterDelete (path_of C)) C q (ls @ rs) lts m rts n merge a" and cfg: "cfg_ok b"
    and m: "sub b (MinKeysPerNonRootNode b) n m"
    and len: "length ls = length lts" "length rs = length rts" "Suc (length ls + length rs) \<le> MaxKeysPerNode b"
    and sub: "list_all (sub b (MinKeysPerNonRootNode b) n) lts" "list_all (sub b (MinKeysPerNonRootNode b) n) rts"
    and ord: "ordered (left_of C @ weave ls (map flat lts) @ flat m @ weave_right rs (map flat rts) @ right_of C)"
    and reb: "rebalances b (Suc n) C"
  shows "\<exists>a'. run b merge a (Inr True) a' \<and>
    holds b a' (ents_of (left_of C @ weave ls (map flat lts) @ flat m @ weave_right rs (map flat rts) @ right_of C))"
proof (cases "C = [] \<and> ls @ rs = []")
  case True
  obtain a' where a': "run b merge a (Inr True) a'" "rooted b n m a'" using mg unfolding merges_def if_P [OF True] by blast
  have "sub b 1 n m" using sub_mono [OF m] cfg_Min [OF cfg] by simp
  moreover have "flat m = left_of C @ weave ls (map flat lts) @ flat m @ weave_right rs (map flat rts) @ right_of C"
    using True len by simp
  ultimately show ?thesis using a' holds_tree [OF a'(2)] ord by metis
next
  case False
  let ?t = "PNode q (ls @ rs) (lts @ m # rts)"
  obtain a' where a': "foc b (Suc n) C ?t a'" "\<And>a''. run b (merge_rest b (RebalanceAfterDelete (path_of C)) C q (ls @ rs)) a' (Inr ()) a'' \<Longrightarrow>
      run b merge a (Inr True) a''"
    using mg unfolding merges_def if_not_P [OF False] by blast
  have fl: "left_of C @ flat ?t @ right_of C = left_of C @ weave ls (map flat lts) @ flat m @ weave_right rs (map flat rts) @ right_of C"
    using len by (simp add: weave_hole)
  have s0: "sub b 0 (Suc n) ?t" using len sub m by simp
  show ?thesis
  proof (cases "C \<noteq> [] \<and> length (ls @ rs) < MinKeysPerNonRootNode b")
    case True
    then obtain a'' where "run b (RebalanceAfterDelete (path_of C) q) a' (Inr ()) a''" "holds b a'' (ents_of (left_of C @ flat ?t @ right_of C))"
      using reb a'(1) s0 ord fl unfolding rebalances_def by fastforce
    moreover have "merge_rest b (RebalanceAfterDelete (path_of C)) C q (ls @ rs) = RebalanceAfterDelete (path_of C) q"
      unfolding merge_rest_def if_P [OF True] ..
    ultimately show ?thesis using a'(2) [of a''] unfolding fl by metis
  next
    case no: False
    have "1 \<le> length (ls @ rs)" if "C = []" using that False by (cases ls; cases rs) auto
    then have "sub b (low b C) (Suc n) ?t" using no s0 by (auto simp: low_def)
    from foc_holds_node [OF a'(1) this] have "holds b a' (ents_of (left_of C @ flat ?t @ right_of C))" using ord fl by simp
    moreover have "run b merge a (Inr True) a'" using a'(2) [of a'] no unfolding merge_rest_def by auto
    ultimately show ?thesis unfolding fl by blast
  qed
qed

lemma settle_leaves:
  assumes f: "foc b 1 C (PNode q (ls @ s # rs) (lts @ PLeaf p es1 # PLeaf p2 es2 # rts)) a"
    and len: "length ls = length lts" "length rs = length rts" "low b C \<le> Suc (length ls + length rs)"
      "Suc (length ls + length rs) \<le> MaxKeysPerNode b"
    and sub: "list_all (sub b (MinKeysPerNonRootNode b) 0) lts" "list_all (sub b (MinKeysPerNonRootNode b) 0) rts"
    and es: "length es1 \<le> MaxKeysPerNode b" "length es2 \<le> MaxKeysPerNode b" "MinKeysPerNonRootNode b \<le> length es1 + length es2"
    and X: "X = left_of C @ weave ls (map flat lts) @ map ent es1 @ Sep s # map ent es2 @ weave_right rs (map flat rts) @ right_of C"
    and ord: "ordered X" and reb: "rebalances b 1 C"
  shows "settles b (RedistributeLeafWithRightSibling p ((q, length lts) # path_of C) es1)
    (MergeLeafWithRightSibling (RebalanceAfterDelete (path_of C)) p ((q, length lts) # path_of C)) a (ents_of X)"
proof -
  let ?com = "es1 @ es2" and ?m = "MinKeysPerNonRootNode b" and ?M = "MaxKeysPerNode b"
  obtain c md dk N where a: "a = (c, md, dk, N)" by (cases a)
  have cs: "csub b 1 C" and cfg: "cfg_ok b" and dk: "dk = md" using f foc_parts(1,3) [OF f [unfolded a]] by (simp_all add: foc_def store_ok_def)
  have eX: "ents_of X = ents_of (left_of C) @ ents_of (weave ls (map flat lts)) @ ?com @ ents_of (weave_right rs (map flat rts)) @ ents_of (right_of C)"
    by (simp add: X)
  have "entries_ok b es1" using f a by (auto simp: foc_iff leaf_at_iff dest: store_ok_node)
  note red = run_RedistributeLeaf [OF f len(1,2) this]
  show ?thesis
  proof (cases "2 * ?m \<le> length ?com \<and> length ?com \<le> 2 * ?M")
    case True
    obtain i a' where i: "run b (RedistributeLeafWithRightSibling p ((q, length lts) # path_of C) es1) a (Inr True) a'"
      "?m \<le> i" "i \<le> ?M" "?m \<le> length ?com - i" "length ?com - i \<le> ?M" "i < length ?com" "0 < i"
      "foc b 1 (if lts = [] then set_sep (fst (hd ?com)) C else C)
        (PNode q (ls @ fst (hd (drop i ?com)) # rs) (lts @ PLeaf p (take i ?com) # PLeaf p2 (drop i ?com) # rts)) a'"
      using red unfolding if_P [OF True] by blast
    have "\<exists>h T. rooted b h T a' \<and> sub b 1 h T \<and> ordered (flat T) \<and> ents_of (flat T) = ents_of X" unfolding eX
      by (rule share_leaves_final [OF i(8) cs refl i(7,6) len i(2-5) sub, of s]) (use ord X in simp)
    then have "holds b a' (ents_of X)" using holds_tree by fastforce
    then show ?thesis using i(1) unfolding settles_def by blast
  next
    case False
    have "length es1 + length es2 \<le> ?M" using False es cfg_Min [OF cfg] by auto
    note mg = run_MergeLeaf [OF f [unfolded a dk] len(1,2) this, of "RebalanceAfterDelete (path_of C)"]
    have "ordered (left_of C @ weave ls (map flat lts) @ flat (PLeaf p ?com) @ weave_right rs (map flat rts) @ right_of C)"
      using ordered_drop [of "left_of C @ weave ls (map flat lts) @ map ent es1" "Sep s"] ord X by simp
    from merges_done [OF mg cfg _ len(1,2,4) sub this] reb es(3) False es cfg_Min [OF cfg]
    have "\<exists>a'. run b (MergeLeafWithRightSibling (RebalanceAfterDelete (path_of C)) p ((q, length lts) # path_of C)) (c, md, md, N) (Inr True) a' \<and>
      holds b a' (ents_of X)" by (auto simp: eX)
    then show ?thesis using red unfolding if_not_P [OF False] settles_def a dk by blast
  qed
qed

lemma settle_nodes:
  assumes f: "foc b (Suc (Suc n)) C (PNode q (ls @ s # rs) (lts @ PNode p ss ts # PNode p2 ss2 ts2 # rts)) a"
    and len: "length ls = length lts" "length rs = length rts" "low b C \<le> Suc (length ls + length rs)"
      "Suc (length ls + length rs) \<le> MaxKeysPerNode b" "length ts = Suc (length ss)" "length ts2 = Suc (length ss2)"
    and sub: "list_all (sub b (MinKeysPerNonRootNode b) (Suc n)) lts" "list_all (sub b (MinKeysPerNonRootNode b) (Suc n)) rts"
      "list_all (sub b (MinKeysPerNonRootNode b) n) (ts @ ts2)"
    and ss: "length ss \<le> MaxKeysPerNode b" "length ss2 \<le> MaxKeysPerNode b" "MinKeysPerNonRootNode b \<le> length ss + length ss2"
    and X: "X = left_of C @ weave ls (map flat lts) @ flat (PNode p ss ts) @ Sep s # flat (PNode p2 ss2 ts2) @
      weave_right rs (map flat rts) @ right_of C"
    and ord: "ordered X" and reb: "rebalances b (Suc (Suc n)) C"
  shows "settles b (RedistributeInternalWithRightSibling p ((q, length lts) # path_of C) (ss, map pid ts))
    (MergeInternalWithRightSibling (RebalanceAfterDelete (path_of C)) p ((q, length lts) # path_of C)) a (ents_of X)"
proof -
  let ?keys = "ss @ s # ss2" and ?ch = "ts @ ts2" and ?m = "MinKeysPerNonRootNode b" and ?M = "MaxKeysPerNode b"
  obtain c md dk N where a: "a = (c, md, dk, N)" by (cases a)
  have st: "store_ok b (c, md, dk, N)" and cfg: "cfg_ok b" and dk: "dk = md"
    using foc_parts(1,3) [OF f [unfolded a]] by (simp_all add: store_ok_def)
  obtain par where N: "N p = Some (InternalN par False ss (map pid ts))" using f a by (auto simp: foc_iff inner_at_iff)
  have "N(p \<mapsto> InternalN par False ss (map pid ts)) = N" using N by auto
  then have pd: "pend b (Suc (Suc n)) C (PNode q (ls @ s # rs) (lts @ PNode p ss ts # PNode p2 ss2 ts2 # rts)) p par False ss ts a"
    using f a N st dk len(5) store_ok_node [OF st, of p, OF N] by (auto simp: pend_def foc_foc_at)
  note red = run_RedistributeInternal [OF pd len(1,2) refl refl]
  have fX: "X = left_of C @ flat (PNode q (ls @ s # rs) (lts @ PNode p ss ts # PNode p2 ss2 ts2 # rts)) @ right_of C"
    using len(1,2) by (simp add: X weave_pair)
  show ?thesis
  proof (cases "2 * ?m + 1 \<le> length ?keys \<and> length ?keys \<le> 2 * ?M + 1")
    case True
    obtain i a' where i: "run b (RedistributeInternalWithRightSibling p ((q, length lts) # path_of C) (ss, map pid ts)) a (Inr True) a'"
      "?m \<le> i" "i \<le> ?M" "i < length ?keys" "?m \<le> length ?keys - i - 1" "length ?keys - i - 1 \<le> ?M"
      "foc b (Suc (Suc n)) C (PNode q (ls @ ?keys ! i # rs) (lts @ PNode p (take i ?keys) (take (Suc i) ?ch) #
          PNode p2 (drop (Suc i) ?keys) (drop (Suc i) ?ch) # rts)) a'"
      using red unfolding if_P [OF True] by blast
    have "\<exists>h T. rooted b h T a' \<and> sub b 1 h T \<and> flat T = X" unfolding fX
      by (rule share_nodes_final [OF i(7) refl refl len(5,6,1-4) i(2-6) sub(3,1,2)])
    then have "holds b a' (ents_of X)" using holds_tree ord by blast
    then show ?thesis using i(1) unfolding settles_def by blast
  next
    case False
    have l: "length ss + length ss2 < ?M" using False ss cfg_Min [OF cfg] by auto
    note mg = run_MergeInternal [OF f [unfolded a dk] len(1,2,5,6) l, of "RebalanceAfterDelete (path_of C)"]
    have fl: "X = left_of C @ weave ls (map flat lts) @ flat (PNode p ?keys ?ch) @ weave_right rs (map flat rts) @ right_of C"
      using weave_snoc_sep [of "map flat ts" ss s ss2 "map flat ts2"] len(5) by (simp add: X)
    have "sub b ?m (Suc n) (PNode p ?keys ?ch)" using l ss(3) len(5,6) sub(3) by simp
    from merges_done [OF mg cfg this len(1,2,4) sub(1,2)] reb ord fl
    have "\<exists>a'. run b (MergeInternalWithRightSibling (RebalanceAfterDelete (path_of C)) p ((q, length lts) # path_of C)) (c, md, md, N) (Inr True) a' \<and>
      holds b a' (ents_of X)" by simp
    then show ?thesis using red unfolding if_not_P [OF False] settles_def a dk by blast
  qed
qed


abbreviation share_at :: "bstar_tree \<Rightarrow> nat \<Rightarrow> SearchPathEntry list \<Rightarrow> node \<Rightarrow> (bt_state, bool) stm" where
  "share_at b p path nd \<equiv> share_right p path (nh_type (header_of nd)) (node_page b nd)"

lemma settles_mono:
  "settles b share merge a X \<Longrightarrow> (\<And>r a'. run b share a r a' \<Longrightarrow> run b share' a r a') \<Longrightarrow> settles b share' merge a X"
  unfolding settles_def by blast

lemma settle_pair:
  assumes f: "foc b (Suc n) C (PNode q (ls @ s # rs) (lts @ t1 # t2 # rts)) (c, md, dk, N)"
    and len: "length ls = length lts" "length rs = length rts" "low b C \<le> Suc (length ls + length rs)"
      "Suc (length ls + length rs) \<le> MaxKeysPerNode b"
    and sub: "list_all (sub b (MinKeysPerNonRootNode b) n) lts" "list_all (sub b (MinKeysPerNonRootNode b) n) rts"
    and t: "sub b 0 n t1" "sub b 0 n t2" "sub b (MinKeysPerNonRootNode b) n t1 \<or> sub b (MinKeysPerNonRootNode b) n t2"
    and X: "X = left_of C @ weave ls (map flat lts) @ flat t1 @ Sep s # flat t2 @ weave_right rs (map flat rts) @ right_of C"
    and ord: "ordered X" and reb: "rebalances b (Suc n) C" and N: "N (pid t1) = Some nd"
  shows "settles b (share_at b (pid t1) ((q, length lts) # path_of C) nd)
    (merge_right (RebalanceAfterDelete (path_of C)) (pid t1) ((q, length lts) # path_of C) (nh_type (header_of nd))) (c, md, dk, N) (ents_of X)"
proof (cases n)
  case 0
  then obtain p es1 p2 es2 where t': "t1 = PLeaf p es1" "t2 = PLeaf p2 es2" using t(1,2) by (auto simp: sub_0)
  then obtain par nx where nd: "nd = LeafN par nx False es1" using f N by (auto simp: foc_iff leaf_at_iff)
  have st: "settles b (RedistributeLeafWithRightSibling p ((q, length lts) # path_of C) es1)
    (MergeLeafWithRightSibling (RebalanceAfterDelete (path_of C)) p ((q, length lts) # path_of C)) (c, md, dk, N) (ents_of X)"
    by (rule settle_leaves [OF _ len]) (use f sub t X ord reb 0 t' in auto)
  have "run b (share_at b p ((q, length lts) # path_of C) nd) (c, md, dk, N) r a'"
    if "run b (RedistributeLeafWithRightSibling p ((q, length lts) # path_of C) es1) (c, md, dk, N) r a'" for r a'
    unfolding share_right_def using that N t' nd by (auto intro!: run_parse_leaf_of [of N p])
  from settles_mono [OF st this] show ?thesis using t' nd by (simp add: merge_right_def)
next
  case (Suc n')
  then obtain p ss ts p2 ss2 ts2 where t': "t1 = PNode p ss ts" "t2 = PNode p2 ss2 ts2" using t(1,2) by (auto simp: sub_Suc)
  then obtain par where nd: "nd = InternalN par False ss (map pid ts)" using f N by (auto simp: foc_iff inner_at_iff)
  have st: "settles b (RedistributeInternalWithRightSibling p ((q, length lts) # path_of C) (ss, map pid ts))
    (MergeInternalWithRightSibling (RebalanceAfterDelete (path_of C)) p ((q, length lts) # path_of C)) (c, md, dk, N) (ents_of X)"
    by (rule settle_nodes [where n = n' and p = p and ss = ss and ts = ts and ?p2.0 = p2 and ?ss2.0 = ss2 and ?ts2.0 = ts2, OF _ len]) (use f sub t X ord reb Suc t' in auto)
  have "run b (share_at b p ((q, length lts) # path_of C) nd) (c, md, dk, N) r a'"
    if "run b (RedistributeInternalWithRightSibling p ((q, length lts) # path_of C) (ss, map pid ts)) (c, md, dk, N) r a'" for r a'
    unfolding share_right_def using that N t' nd by (auto intro!: run_parse_internal_of [of N p])
  from settles_mono [OF st this] show ?thesis using t' nd by (simp add: merge_right_def)
qed

subsection \<open>Rebalancing up the path\<close>

declare RebalanceAfterDelete.simps [simp del]

lemma run_underfull:
  assumes "N p = Some nd" "\<not> nh_is_root (header_of nd)"
    "run b (f (nh_key_count (header_of nd) < MinKeysPerNonRootNode b)) (c, md, dk, N) r a'"
  shows "run b (bindS (if nh_type (header_of nd) = kLeaf
        then bindS (parse_leaf (node_page b nd)) (\<lambda>(header, leaf). ret (IsLeafUnderfull b header leaf))
        else bindS (parse_internal (node_page b nd)) (\<lambda>(header, node). ret (IsInternalUnderfull b header node))) f) (c, md, dk, N) r a'"
proof (rule run_bind [where f = f, OF _ assms(3)])
  show "run b (if nh_type (header_of nd) = kLeaf
        then bindS (parse_leaf (node_page b nd)) (\<lambda>(header, leaf). ret (IsLeafUnderfull b header leaf))
        else bindS (parse_internal (node_page b nd)) (\<lambda>(header, node). ret (IsInternalUnderfull b header node)))
      (c, md, dk, N) (Inr (nh_key_count (header_of nd) < MinKeysPerNonRootNode b)) (c, md, dk, N)"
    using assms(1,2) by (cases nd) (auto intro!: run_parse_leaf_of [of N p] run_parse_internal_of [of N p]
        simp: IsLeafUnderfull_def IsInternalUnderfull_def)
qed


abbreviation rebalance_pair :: "bstar_tree \<Rightarrow> SearchPathEntry list \<Rightarrow> nat \<Rightarrow> nat \<Rightarrow> nat list \<Rightarrow> nat \<Rightarrow> node \<Rightarrow> (bt_state, unit) stm" where
  "rebalance_pair b path q i children p nd \<equiv>
     bindS (if i + 1 < length children then
         bindS (share_at b p ((q, i) # path) nd) (\<lambda>redistributed.
           if redistributed then ret True
           else merge_right (RebalanceAfterDelete path) p ((q, i) # path) (nh_type (header_of nd)))
       else ret False) (\<lambda>done_right.
     if done_right \<or> i = 0 then ret ()
     else
     bindS (bt_ReadPage (children ! (i - 1))) (\<lambda>left_page.
     bindS (liftR (DeserializeNodeHeader left_page)) (\<lambda>left_header.
     bindS (share_right (children ! (i - 1)) ((q, i - 1) # path) (nh_type left_header) left_page) (\<lambda>redistributed.
     if redistributed then ret ()
     else bindS (merge_right (RebalanceAfterDelete path) (children ! (i - 1)) ((q, i - 1) # path) (nh_type left_header)) (\<lambda>_. ret ())))))"

lemma run_Rebalance_steps:
  assumes N: "N p = Some nd" "\<not> nh_is_root (header_of nd)" "N q = Some (InternalN par rt ss children)"
    and r: "run b (if nh_key_count (header_of nd) < MinKeysPerNonRootNode b then rebalance_pair b path q i children p nd else ret ())
      (c, md, dk, N) r a'"
  shows "run b (RebalanceAfterDelete ((q, i) # path) p) (c, md, dk, N) r a'"
  unfolding RebalanceAfterDelete.simps
  apply (rule run_page_header [of N p, OF N(1)])
  apply (rule run_the_bt)
  apply (simp only: cfg_simps)
  apply (rule run_underfull [of N p, OF N(1,2)])
  using r
  apply (cases "nh_key_count (header_of nd) < MinKeysPerNonRootNode b"; simp only: simp_thms if_False if_True Let_def)
  apply (rule run_bind [OF run_read_internal [of N, OF N(3)]], simp only: prod.case)
  done

lemma run_rebalance_right:
  assumes "settles b (share_at b p ((q, i) # path) nd) (merge_right (RebalanceAfterDelete path) p ((q, i) # path) (nh_type (header_of nd))) a X"
    "i + 1 < length children"
  shows "\<exists>a'. run b (rebalance_pair b path q i children p nd) a (Inr ()) a' \<and> holds b a' X"
proof -
  obtain a' where a': "holds b a' X" "run b (share_at b p ((q, i) # path) nd) a (Inr True) a' \<or>
      run b (share_at b p ((q, i) # path) nd) a (Inr False) a \<and>
      run b (merge_right (RebalanceAfterDelete path) p ((q, i) # path) (nh_type (header_of nd))) a (Inr True) a'"
    using assms(1) unfolding settles_def by blast
  have "run b (bindS (share_at b p ((q, i) # path) nd) (\<lambda>redistributed.
           if redistributed then ret True
           else merge_right (RebalanceAfterDelete path) p ((q, i) # path) (nh_type (header_of nd)))) a (Inr True) a'"
    using a'(2)
  proof
    assume "run b (share_at b p ((q, i) # path) nd) a (Inr True) a'"
    then show ?thesis by (rule run_bind) simp
  next
    assume r: "run b (share_at b p ((q, i) # path) nd) a (Inr False) a \<and>
      run b (merge_right (RebalanceAfterDelete path) p ((q, i) # path) (nh_type (header_of nd))) a (Inr True) a'"
    show ?thesis by (rule run_bind [OF conjunct1 [OF r]]) (simp add: r)
  qed
  then have "run b (rebalance_pair b path q i children p nd) a (Inr ()) a'"
    unfolding if_P [OF assms(2)] by (rule run_bind) simp
  then show ?thesis using a'(1) by blast
qed

lemma run_rebalance_left:
  assumes s: "settles b (share_at b pl ((q, i - 1) # path) ndl) (merge_right (RebalanceAfterDelete path) pl ((q, i - 1) # path) (nh_type (header_of ndl))) (c, md, dk, N) X"
    and i: "\<not> i + 1 < length children" "0 < i" and N: "children ! (i - 1) = pl" "N pl = Some ndl"
  shows "\<exists>a'. run b (rebalance_pair b path q i children p nd) (c, md, dk, N) (Inr ()) a' \<and> holds b a' X"
proof -
  let ?a = "(c, md, dk, N)" and ?share = "share_at b pl ((q, i - 1) # path) ndl"
  let ?merge = "merge_right (RebalanceAfterDelete path) pl ((q, i - 1) # path) (nh_type (header_of ndl))"
  obtain a' where a': "holds b a' X" "run b ?share ?a (Inr True) a' \<or> run b ?share ?a (Inr False) ?a \<and> run b ?merge ?a (Inr True) a'"
    using s unfolding settles_def by blast
  have "run b (bindS ?share (\<lambda>redistributed. if redistributed then ret () else bindS ?merge (\<lambda>_. ret ()))) ?a (Inr ()) a'"
    using a'(2)
  proof
    assume "run b ?share ?a (Inr True) a'"
    then show ?thesis by (rule run_bind) simp
  next
    assume r: "run b ?share ?a (Inr False) ?a \<and> run b ?merge ?a (Inr True) a'"
    show ?thesis by (rule run_bind [OF conjunct1 [OF r]], simp only: if_False, rule run_bind [OF conjunct2 [OF r]], rule run_ret)
  qed
  then have "run b (rebalance_pair b path q i children p nd) ?a (Inr ()) a'"
    unfolding if_not_P [OF i(1)] N(1) using i(2)
    by - (rule run_bind [OF run_ret], simp only: simp_thms if_False neq0_conv [symmetric], rule run_page_header [of N pl, OF N(2)])
  then show ?thesis using a'(1) by blast
qed

lemma foc_header:
  assumes "foc b n C t (c, md, dk, N)" "sub b lo n t"
  obtains nd where "N (pid t) = Some nd" "nh_is_root (header_of nd) = (C = [])" "\<And>m. m \<le> nh_key_count (header_of nd) \<Longrightarrow> sub b m n t"
proof (cases n)
  case 0
  then obtain p es where t: "t = PLeaf p es" using assms(2) by (auto simp: sub_0)
  obtain par where "N p = Some (LeafN par (nxt C) (C = []) es)" using foc_node_ok(1) [OF assms(1) [unfolded t]] by blast
  then show ?thesis using that [of "LeafN par (nxt C) (C = []) es"] assms(2) 0 t by simp
next
  case (Suc n')
  then obtain p ss ts where t: "t = PNode p ss ts" using assms(2) by (auto simp: sub_Suc)
  obtain par where "N p = Some (InternalN par (C = []) ss (map pid ts))" using foc_node_ok(2) [OF assms(1) [unfolded t]] by blast
  then show ?thesis using that [of "InternalN par (C = []) ss (map pid ts)"] assms(2) Suc t by simp
qed

lemma rebalances_all: "rebalances b n C"
proof (induction C arbitrary: n)
  case Nil
  show ?case by (simp add: rebalances_def)
next
  case (Cons fr C)
  obtain q ls lts rs rts where fr: "fr = (q, ls, lts, rs, rts)" by (cases fr)
  let ?m = "MinKeysPerNonRootNode b"
  show ?case unfolding rebalances_def
  proof (intro allI impI)
    fix t a assume f: "foc b n (fr # C) t a" and t: "sub b 0 n t" and ord: "ordered (left_of (fr # C) @ flat t @ right_of (fr # C))"
    obtain c md dk N where a: "a = (c, md, dk, N)" by (cases a)
    let ?X = "left_of (fr # C) @ flat t @ right_of (fr # C)"
    obtain nd where nd: "N (pid t) = Some nd" "\<not> nh_is_root (header_of nd)" "\<And>m. m \<le> nh_key_count (header_of nd) \<Longrightarrow> sub b m n t"
      using foc_header [OF f [unfolded a] t] by auto
    have f1: "foc b (Suc n) C (PNode q (ls @ rs) (lts @ t # rts)) (c, md, dk, N)" "length ls = length lts" "length rs = length rts"
      "low b C \<le> length ls + length rs" "length ls + length rs \<le> MaxKeysPerNode b" "list_all (sub b ?m n) lts" "list_all (sub b ?m n) rts"
      using f a fr by (simp_all add: foc_Cons)
    obtain parq where q: "N q = Some (InternalN parq (C = []) (ls @ rs) (map pid (lts @ t # rts)))"
      using foc_node_ok(2) [OF f1(1)] by blast
    have cfg: "cfg_ok b" using foc_parts(1) [OF f1(1)] by (simp add: store_ok_def)
    have pos: "1 \<le> length ls + length rs" using f1(4) cfg_Min [OF cfg] by (auto simp: low_def split: if_splits)
    let ?cs = "map pid (lts @ t # rts)"
    note step = run_Rebalance_steps [of N "pid t" nd q, OF nd(1,2) q]
    have "\<exists>a'. run b (if nh_key_count (header_of nd) < ?m then rebalance_pair b (path_of C) q (length lts) ?cs (pid t) nd else ret ())
        (c, md, dk, N) (Inr ()) a' \<and> holds b a' (ents_of ?X)"
    proof (cases "nh_key_count (header_of nd) < ?m")
      case False
      then have "sub b (low b (fr # C)) n t" using nd(3) by (simp add: low_def)
      then have "holds b a (ents_of ?X)" by (rule foc_holds_node [OF f _ ord])
      then show ?thesis unfolding if_not_P [OF False] a [symmetric] by (intro exI [of _ a] conjI run_ret)
    next
      case True
      show ?thesis unfolding if_P [OF True]
      proof (cases rts)
        case (Cons u rts')
        then obtain s rs' where r: "rs = s # rs'" "length rs' = length rts'" using f1(3) by (cases rs) auto
        have u: "sub b ?m n u" "sub b 0 n u" using f1(7) Cons sub_mono [of b ?m n u 0] by auto
        have "settles b (share_at b (pid t) ((q, length lts) # path_of C) nd)
            (merge_right (RebalanceAfterDelete (path_of C)) (pid t) ((q, length lts) # path_of C) (nh_type (header_of nd))) (c, md, dk, N) (ents_of ?X)"
          by (rule settle_pair [OF f1(1) [unfolded Cons r(1)] f1(2) r(2) _ _ f1(6) _ t u(2) _ _ ord Cons.IH nd(1)])
            (use f1 r u(1) Cons fr in auto)
        from run_rebalance_right [OF this] show "\<exists>a'. run b (rebalance_pair b (path_of C) q (length lts) ?cs (pid t) nd) (c, md, dk, N) (Inr ()) a' \<and>
          holds b a' (ents_of ?X)" using Cons by simp
      next
        case Nil
        then have "lts \<noteq> []" "rs = []" using pos f1(2,3) by auto
        then obtain lts' u ls' s where l: "lts = lts' @ [u]" "ls = ls' @ [s]" "length ls' = length lts'"
          using f1(2) by (cases lts rule: rev_cases; cases ls rule: rev_cases) auto
        have u: "sub b ?m n u" "sub b 0 n u" using f1(6) l sub_mono [of b ?m n u 0] by auto
        have f2: "foc b (Suc n) C (PNode q (ls' @ s # []) (lts' @ u # t # [])) (c, md, dk, N)" using f1(1) Nil l \<open>rs = []\<close> by simp
        obtain ndl where ndl: "N (pid u) = Some ndl"
          using f2 foc_dom [OF f2, of "pid u"] pid_in_pids [of u] by auto
        have "settles b (share_at b (pid u) ((q, length lts') # path_of C) ndl)
            (merge_right (RebalanceAfterDelete (path_of C)) (pid u) ((q, length lts') # path_of C) (nh_type (header_of ndl))) (c, md, dk, N) (ents_of ?X)"
          by (rule settle_pair [OF f2 l(3) _ _ _ _ _ u(2) t _ _ ord Cons.IH ndl])
            (use f1 l u(1) Nil fr \<open>rs = []\<close> in \<open>auto simp: weave_append\<close>)
        then show "\<exists>a'. run b (rebalance_pair b (path_of C) q (length lts) ?cs (pid t) nd) (c, md, dk, N) (Inr ()) a' \<and>
          holds b a' (ents_of ?X)" using Nil l ndl by (intro run_rebalance_left [where pl = "pid u" and ndl = ndl]) (simp_all add: nth_append)
      qed
    qed
    then show "\<exists>a'. run b (RebalanceAfterDelete (path_of (fr # C)) (pid t)) a (Inr ()) a' \<and> holds b a' (ents_of ?X)"
      unfolding fr path_of.simps a using step by blast
  qed
qed


subsection \<open>Deletion\<close>

definition del :: "Value \<Rightarrow> LeafEntry list \<Rightarrow> LeafEntry list" where
  "del k es = filter (\<lambda>e. fst e \<noteq> k) es"

lemma map_of_del: "map_of (del k es) = (map_of es)(k := None)"
  by (induction es) (auto simp: del_def fun_eq_iff)

lemma del_eq:
  assumes "\<And>e. e \<in> set xs \<Longrightarrow> fst e < k" "\<And>e. e \<in> set ys \<Longrightarrow> k < fst e"
  shows "del k (xs @ (k, r) # ys) = xs @ ys"
proof -
  have "filter (\<lambda>e. fst e \<noteq> k) xs = xs" "filter (\<lambda>e. fst e \<noteq> k) ys = ys"
    by (rule filter_True; force dest: assms)+
  then show ?thesis by (simp add: del_def)
qed

lemma entry_found:
  assumes "sorted_wrt (<) (map fst es)" "map_of es k = Some r"
  shows "\<exists>xs ys. es = xs @ (k, r) # ys \<and> FindEntryPosition es k = length xs \<and> (\<forall>e\<in>set xs. fst e < k) \<and> (\<forall>e\<in>set ys. k < fst e)"
  using assms
proof (induction es)
  case (Cons e es)
  show ?case
  proof (cases "fst e < k")
    case True
    then obtain xs ys where "es = xs @ (k, r) # ys" "FindEntryPosition es k = length xs" "\<forall>e\<in>set xs. fst e < k" "\<forall>e\<in>set ys. k < fst e"
      using Cons by (cases e) (auto split: if_splits)
    then show ?thesis using True by (intro exI [of _ "e # xs"] exI [of _ ys]) (auto simp: FindEntryPosition_def)
  next
    case False
    have "e = (k, r)"
    proof (rule ccontr)
      assume "e \<noteq> (k, r)"
      then have "map_of es k = Some r" "fst e \<noteq> k" using Cons.prems(2) by (cases e, auto split: if_splits)+
      then have "fst e < k" using Cons.prems(1) map_of_SomeD [of es k r] by force
      then show False using False by simp
    qed
    then show ?thesis using Cons.prems(1) False by (intro exI [of _ "[]"] exI [of _ es]) (auto simp: FindEntryPosition_def)
  qed
qed simp

lemma run_DeleteFromLeaf_steps:
  assumes N: "N p = Some (LeafN par nx rt es)" and es: "es = xs @ (k, r) # ys" "FindEntryPosition es k = length xs"
    and run: "run b (if rt then
         if xs @ ys = [] then
           bindS (set_metadata (\<lambda>md. md\<lparr>bm_root_page_id := InvalidPageId, bm_first_leaf_page_id := InvalidPageId,
               bm_tree_height := 0\<rparr>)) (\<lambda>_. bt_WriteMetadata)
         else
           bindS (write_leaf p (header_of (LeafN par nx rt es)) (xs @ ys)) (\<lambda>_.
             if length xs = 0 then UpdateParentSeparatorAfterChildChange path (fst (hd (xs @ ys))) else ret ())
       else
         bindS (write_leaf p (header_of (LeafN par nx rt es)) (xs @ ys)) (\<lambda>_.
         bindS (if xs @ ys \<noteq> [] \<and> length xs = 0 then UpdateParentSeparatorAfterChildChange path (fst (hd (xs @ ys))) else ret ()) (\<lambda>_.
           if \<not> rt \<and> length (xs @ ys) < MinKeysPerNonRootNode b then RebalanceAfterDelete path p else ret ()))) (c, md, dk, N) res a'"
  shows "run b (DeleteFromLeaf p path k) (c, md, dk, N) res a'"
proof -
  have er: "erase_at (length xs) es = xs @ ys" using es erase_at_app [of xs] by simp
  have g: "\<not> (length xs \<ge> length es \<or> fst (es ! length xs) \<noteq> k)" using es by simp
  show ?thesis unfolding DeleteFromLeaf_def
    apply (rule run_bind [OF run_read_leaf [of N, OF N]])
    apply (simp only: prod.case)
    apply (rule run_the_bt)
    apply (simp only: cfg_simps Let_def es(2))
    apply (rule run_bind [OF run_guard [OF g]])
    using run by (simp only: er IsLeafUnderfull_def header_of.simps NodeHeader.simps)
qed

lemma run_del_last:
  assumes f: "foc b 0 [] (PLeaf p [(k, r)]) (c, md, md, N)" and pos: "FindEntryPosition [(k, r)] k = 0"
  shows "\<exists>a'. run b (DeleteFromLeaf p [] k) (c, md, md, N) (Inr ()) a' \<and> holds b a' []"
proof -
  let ?md = "md\<lparr>bm_root_page_id := InvalidPageId, bm_first_leaf_page_id := InvalidPageId, bm_tree_height := 0\<rparr>"
  obtain par where N: "N p = Some (LeafN par (nxt []) True [(k, r)])" using foc_node_ok(1) [OF f] by auto
  have "run b (DeleteFromLeaf p [] k) (c, md, md, N) (Inr ()) (c, ?md, ?md, N)"
    apply (rule run_DeleteFromLeaf_steps [of N p, OF N, of "[]" k r "[]"])
    using pos apply simp
    using pos apply simp
    apply (simp only: if_True append_Nil simp_thms)
    apply (rule run_bind [OF run_set_metadata])
    apply (rule run_WriteMetadata)
    done
  moreover have "holds b (c, ?md, ?md, N) []"
    using foc_parts(1,2) [OF f] by (simp add: holds_def store_ok_def meta_ok_def)
  ultimately show ?thesis by blast
qed

lemma run_DeleteFromLeaf:
  assumes f: "foc b 0 C (PLeaf p es) (c, md, md, N)" and low: "sub b (low b C) 0 (PLeaf p es)"
    and es: "es = xs @ (k, r) # ys" "FindEntryPosition es k = length xs"
    and ord: "ordered (left_of C @ map ent es @ right_of C)"
  shows "\<exists>a'. run b (DeleteFromLeaf p (path_of C) k) (c, md, md, N) (Inr ()) a' \<and>
    holds b a' (ents_of (left_of C) @ (xs @ ys) @ ents_of (right_of C))"
proof (cases "C = [] \<and> xs @ ys = []")
  case True
  then show ?thesis using run_del_last [of b p k r c md N] f es by simp
next
  case more: False
  let ?es = "xs @ ys"
  obtain par where N: "N p = Some (LeafN par (nxt C) (C = []) es)" "node_ok b (LeafN par (nxt C) (C = []) es)"
    using foc_node_ok(1) [OF f] by blast
  have p: "0 < p" "p < c" using store_ok_node [OF foc_parts(1) [OF f], of p, OF N(1)] by auto
  have ok: "node_ok b (LeafN par (nxt C) (C = []) ?es)" using N(2) es by auto
  have cs: "csub b 0 C" using f by (simp add: foc_def)
  note f' = foc_leaf_upd [OF f ok]
  have ord': "ordered (left_of C @ map ent ?es @ right_of C)"
    using ordered_drop [of "left_of C @ map ent xs" "Ent k r"] ord es by simp
  let ?C = "if ?es \<noteq> [] \<and> length xs = 0 then set_sep (fst (hd ?es)) C else C"
  let ?upd = "if ?es \<noteq> [] \<and> length xs = 0 then UpdateParentSeparatorAfterChildChange (path_of C) (fst (hd ?es)) else ret ()"
  obtain a1 where a1: "run b ?upd (c, md, md, N(p \<mapsto> LeafN par (nxt C) (C = []) ?es)) (Inr ()) a1" "foc b 0 ?C (PLeaf p ?es) a1"
  proof (cases "?es \<noteq> [] \<and> length xs = 0")
    case True
    then have "key_ok b (fst (hd ?es))" using ok by (cases ys) auto
    from run_UpdateParentSeparator [OF f' this] show ?thesis using that unfolding if_P [OF True] by blast
  next
    case False
    show ?thesis by (rule that [unfolded if_not_P [OF False], OF run_ret f'])
  qed
  have C: "ents_of (left_of ?C) = ents_of (left_of C)" "right_of ?C = right_of C" "path_of ?C = path_of C" "?C = [] \<longleftrightarrow> C = []"
    using ents_set_sep [OF cs] by simp_all
  have o1: "ordered (left_of ?C @ flat (PLeaf p ?es) @ right_of ?C)"
    using ord' ordered_set_sep [OF cs, of "fst (hd ?es)" "snd (hd ?es)" "map ent (tl ?es) @ right_of C"] by (cases ys) auto
  have len: "length ?es \<le> MaxKeysPerNode b" using ok by simp
  have fin: "\<exists>a'. run b (if C \<noteq> [] \<and> length ?es < MinKeysPerNonRootNode b then RebalanceAfterDelete (path_of C) p else ret ()) a1 (Inr ()) a' \<and>
    holds b a' (ents_of (left_of ?C @ flat (PLeaf p ?es) @ right_of ?C)) \<and> (C = [] \<longrightarrow> a' = a1)"
  proof (cases "C \<noteq> [] \<and> length ?es < MinKeysPerNonRootNode b")
    case True
    have "\<exists>a'. run b (RebalanceAfterDelete (path_of ?C) (pid (PLeaf p ?es))) a1 (Inr ()) a' \<and>
        holds b a' (ents_of (left_of ?C @ flat (PLeaf p ?es) @ right_of ?C))"
      by (rule rebalances_all [of b 0 ?C, unfolded rebalances_def, rule_format, OF _ a1(2) _ o1]) (use True C(4) len in auto)
    then show ?thesis unfolding if_P [OF True] C(3) pid.simps using True by blast
  next
    case False
    have "low b ?C \<le> length ?es" using False more C(4) by (cases ?es) (auto simp: low_def)
    then have "sub b (low b ?C) 0 (PLeaf p ?es)" using len by simp
    from foc_holds_node [OF a1(2) this o1] show ?thesis unfolding if_not_P [OF False] by (intro exI [of _ a1] conjI run_ret impI refl)
  qed
  then obtain a' where a': "run b (if C \<noteq> [] \<and> length ?es < MinKeysPerNonRootNode b then RebalanceAfterDelete (path_of C) p else ret ()) a1 (Inr ()) a'"
    "holds b a' (ents_of (left_of ?C @ flat (PLeaf p ?es) @ right_of ?C))" "C = [] \<longrightarrow> a' = a1" by blast
  have "run b (DeleteFromLeaf p (path_of C) k) (c, md, md, N) (Inr ()) a'"
  proof (rule run_DeleteFromLeaf_steps [of N p, OF N(1) es], goal_cases)
    case 1
    show ?case
    proof (cases "C = []")
      case True
      then have ne: "\<not> ?es = []" and upd: "?upd = (if length xs = 0 then UpdateParentSeparatorAfterChildChange (path_of C) (fst (hd ?es)) else ret ())"
        using more by auto
      have "run b (if length xs = 0 then UpdateParentSeparatorAfterChildChange (path_of C) (fst (hd ?es)) else ret ())
        (c, md, md, N(p \<mapsto> LeafN par (nxt C) (C = []) ?es)) (Inr ()) a'"
        using a1(1) a'(3) True unfolding upd by blast
      then show ?thesis unfolding if_P [OF True] if_not_P [OF ne]
        by - (rule run_bind [OF run_write_leaf_to [OF ok p]], simp)
    next
      case False
      show ?thesis unfolding if_not_P [OF False]
        apply (rule run_bind [OF run_write_leaf_to [OF ok p]], simp)
        apply (rule run_bind [OF a1(1)])
        apply (rule a'(1))
        done
    qed
  qed
  moreover have "ents_of (left_of ?C @ flat (PLeaf p ?es) @ right_of ?C) = ents_of (left_of C) @ ?es @ ents_of (right_of C)"
    using C by simp
  ultimately show ?thesis using a'(2) by metis
qed


lemma holds_root:
  assumes "holds b (c, md, dk, N) es" "es \<noteq> []"
  obtains h T where "rooted b h T (c, md, dk, N)" "sub b 1 h T" "ordered (flat T)" "ents_of (flat T) = es"
    "bm_root_page_id md \<noteq> InvalidPageId" "dk = md"
  using assms by (auto simp: holds_def split: if_splits)

lemma run_Delete:
  assumes h: "holds b (c, md, dk, N) es" and open_: "bt_is_open b" and key: "ValidateKeyType b k = Inr ()" and old: "map_of es k = Some r"
  shows "\<exists>a'. run b (bt_Delete k) (c, md, dk, N) (Inr ()) a' \<and> holds b a' (del k es)"
proof -
  have "es \<noteq> []" using old by auto
  from holds_root [OF h this] obtain hh T where T: "rooted b hh T (c, md, dk, N)" "sub b 1 hh T" "ordered (flat T)" "ents_of (flat T) = es"
    "bm_root_page_id md \<noteq> InvalidPageId" "dk = md" by blast
  obtain C p es' where d: "run b (FindPathToLeaf k) (c, md, dk, N) (Inr (path_of C, p, map_of (ents_of (flat T)) k)) (c, md, dk, N)"
    "plug C (PLeaf p es') = T" "foc b 0 C (PLeaf p es') (c, md, dk, N)" "sub b (low b C) 0 (PLeaf p es')" "around k C" "length C = hh"
    "map_of (ents_of (flat T)) k = map_of es' k" "ents_of (flat T) = ents_of (left_of C) @ es' @ ents_of (right_of C)"
    by (rule run_FindPathToLeaf [OF T(1-3), of k]) blast
  have cs: "csub b 0 C" using d(3) by (simp add: foc_def)
  have fl: "flat T = left_of C @ map ent es' @ right_of C" using flat_plug [OF cs, of "PLeaf p es'"] d(2) by simp
  have "sorted_wrt (<) (map fst es')" using ordered_ents [OF T(3)] by (simp add: d(8) sorted_wrt_append)
  then obtain xs ys where xy: "es' = xs @ (k, r) # ys" "FindEntryPosition es' k = length xs" "\<And>e. e \<in> set xs \<Longrightarrow> fst e < k" "\<And>e. e \<in> set ys \<Longrightarrow> k < fst e"
    using entry_found [of es' k r] old d(7) T(4) by auto
  obtain a' where a': "run b (DeleteFromLeaf p (path_of C) k) (c, md, dk, N) (Inr ()) a'"
    "holds b a' (ents_of (left_of C) @ (xs @ ys) @ ents_of (right_of C))"
    using run_DeleteFromLeaf [OF d(3) [unfolded T(6)] d(4) xy(1,2)] T(3,6) fl by auto
  have "del k es = (ents_of (left_of C) @ xs) @ ys @ ents_of (right_of C)"
    using del_eq [of "ents_of (left_of C) @ xs" k "ys @ ents_of (right_of C)" r] around_keys [OF d(5)] xy(3,4) d(8) xy(1) T(4) by fastforce
  then have "holds b a' (del k es)" using a'(2) by simp
  moreover have "run b (bt_Delete k) (c, md, dk, N) (Inr ()) a'"
    unfolding bt_Delete_def
    apply (rule run_the_bt)
    apply (simp only: cfg_simps open_ key)
    apply (rule run_bind [OF run_guard], simp)
    apply (rule run_bind [OF run_liftR])
    apply (rule run_bind [OF run_guard], use T(5) in simp)
    apply (rule run_bind [OF d(1)])
    apply (simp only: prod.case)
    apply (rule run_bind [OF run_guard], simp add: T(4) old)
    apply (rule a'(1))
    done
  ultimately show ?thesis by blast
qed

lemma run_Delete_missing:
  assumes h: "holds b (c, md, dk, N) es" and open_: "bt_is_open b" and key: "ValidateKeyType b k = Inr ()" and new: "map_of es k = None"
  shows "run b (bt_Delete k) (c, md, dk, N) (Inl kNotFound) (c, md, dk, N)"
proof (cases "bm_root_page_id md = InvalidPageId")
  case True
  show ?thesis
    unfolding bt_Delete_def
    apply (rule run_the_bt)
    apply (simp only: cfg_simps open_ key True)
    apply (rule run_bind [OF run_guard], simp)
    apply (rule run_bind [OF run_liftR])
    apply (rule run_bind_err [OF run_guard_err], simp)
    done
next
  case False
  then obtain hh T where T: "rooted b hh T (c, md, dk, N)" "sub b 1 hh T" "ordered (flat T)" "ents_of (flat T) = es"
    using h by (auto simp: holds_def)
  obtain C p where d: "run b (FindPathToLeaf k) (c, md, dk, N) (Inr (path_of C, p, map_of es k)) (c, md, dk, N)"
    using run_FindPathToLeaf [OF T(1-3), of k] T(4) by metis
  show ?thesis
    unfolding bt_Delete_def
    apply (rule run_the_bt)
    apply (simp only: cfg_simps open_ key)
    apply (rule run_bind [OF run_guard], simp)
    apply (rule run_bind [OF run_liftR])
    apply (rule run_bind [OF run_guard], use False in simp)
    apply (rule run_bind [OF d])
    apply (simp only: prod.case)
    apply (rule run_bind_err [OF run_guard_err], simp add: new)
    done
qed

end
