(* ===== verification/BStar_Index.thy ===== *)
theory BStar_Index
  imports BStar_Delete
begin

text \<open>
  The B*-tree as an ordered index: what an open tree object holds, opening it on a new or an existing file, the interface its
  clients use, and the properties of its operations.
\<close>

subsection \<open>The contents of a tree object\<close>

definition bt_holds :: "bt_state \<Rightarrow> LeafEntry list \<Rightarrow> bool" where
  "bt_holds s es \<longleftrightarrow> bt_is_open (snd s) \<and>
     (\<exists>c N. lay (snd s) (c, bt_metadata (snd s), bt_metadata (snd s), N) s \<and>
       holds (snd s) (c, bt_metadata (snd s), bt_metadata (snd s), N) es)"

definition bt_frame :: "bt_state \<Rightarrow> bt_state \<Rightarrow> bool" where
  "bt_frame s s' \<longleftrightarrow> snd s' = (snd s)\<lparr>bt_metadata := bt_metadata (snd s'), bt_page_manager := bt_page_manager (snd s')\<rparr> \<and>
     pm_frame (bt_pm s) (bt_pm s')"

definition bt_room :: "nat \<Rightarrow> bt_state \<Rightarrow> bool" where
  "bt_room n s \<longleftrightarrow> room (snd s) n (pm_page_count (bt_page_manager (snd s)))"

lemma cfg_store:
  "cfg_ok (b\<lparr>bt_metadata := md, bt_page_manager := pm\<rparr>) = cfg_ok b"
  "key_ok (b\<lparr>bt_metadata := md, bt_page_manager := pm\<rparr>) = key_ok b"
  "meta_ok (b\<lparr>bt_metadata := md, bt_page_manager := pm\<rparr>) = meta_ok b"
  "node_page (b\<lparr>bt_metadata := md, bt_page_manager := pm\<rparr>) = node_page b"
  "meta_page (b\<lparr>bt_metadata := md, bt_page_manager := pm\<rparr>) = meta_page b"
  "room (b\<lparr>bt_metadata := md, bt_page_manager := pm\<rparr>) = room b"
  by (simp_all add: cfg_ok_def key_ok_def meta_ok_def node_page_def meta_page_def room_def cfg_simps bt_SerializeMetadata_def Let_def fun_eq_iff)

lemma cfg_node: "node_ok (b\<lparr>bt_metadata := md, bt_page_manager := pm\<rparr>) nd = node_ok b nd"
  by (cases nd) (simp_all add: entries_ok_def cfg_simps cfg_store)

lemma cfg_store_ok: "store_ok (b\<lparr>bt_metadata := md, bt_page_manager := pm\<rparr>) a = store_ok b a"
  by (simp add: store_ok_def cfg_store cfg_node)

lemma cfg_sub: "sub (b\<lparr>bt_metadata := md, bt_page_manager := pm\<rparr>) lo n t = sub b lo n t"
proof (induction b lo n t rule: sub.induct)
  case (2 b lo n p ss ts)
  then show ?case by (auto simp: cfg_simps list_all_iff)
qed (simp_all add: cfg_simps)

lemma cfg_holds: "holds (b\<lparr>bt_metadata := md, bt_page_manager := pm\<rparr>) a es = holds b a es"
  by (cases a) (simp add: holds_def rooted_def cfg_store cfg_store_ok cfg_sub cong: if_cong)

lemma lay_obj: "lay b (c, md, dk, N) s \<Longrightarrow> snd s = b\<lparr>bt_metadata := md, bt_page_manager := bt_page_manager (snd s)\<rparr>"
  by (cases s) (simp add: lay_def)

lemma cfg_lay: "lay (b\<lparr>bt_metadata := md, bt_page_manager := pm\<rparr>) a s = lay b a s"
  by (cases a; cases s) (simp add: lay_def cfg_store cfg_store_ok)

lemma lay_self:
  assumes "lay b (c, md, dk, N) s"
  shows "lay (snd s) (c, md, dk, N) s" "holds (snd s) a es = holds b a es" "bt_metadata (snd s) = md"
    "room (snd s) = room b" "bt_is_open (snd s) = bt_is_open b" "c = pm_page_count (bt_page_manager (snd s))"
proof -
  note o = lay_obj [OF assms]
  show "lay (snd s) (c, md, dk, N) s" by (subst o) (simp add: cfg_lay assms)
  show "holds (snd s) a es = holds b a es" by (subst o) (rule cfg_holds)
  show "bt_metadata (snd s) = md" by (subst o) simp
  show "room (snd s) = room b" by (subst o) (rule cfg_store)
  show "bt_is_open (snd s) = bt_is_open b" by (subst o) simp
  show "c = pm_page_count (bt_page_manager (snd s))" using assms by (cases s) (simp add: lay_def bt_pm_def)
qed

lemma holds_dk: "holds b (c, md, dk, N) es \<Longrightarrow> dk = md"
  by (simp add: holds_def)

text \<open>Every method proved on the abstract store is proved on the object.\<close>

lemma bt_run:
  assumes s: "bt_holds s es"
    and run: "\<And>c N. holds (snd s) (c, bt_metadata (snd s), bt_metadata (snd s), N) es \<Longrightarrow> c = pm_page_count (bt_page_manager (snd s)) \<Longrightarrow>
      \<exists>a'. run (snd s) m (c, bt_metadata (snd s), bt_metadata (snd s), N) r a' \<and> holds (snd s) a' es'"
  shows "\<exists>s'. m s = (r, s') \<and> bt_holds s' es' \<and> bt_frame s s'"
proof -
  obtain c N where a: "lay (snd s) (c, bt_metadata (snd s), bt_metadata (snd s), N) s"
    "holds (snd s) (c, bt_metadata (snd s), bt_metadata (snd s), N) es" "bt_is_open (snd s)"
    using s by (auto simp: bt_holds_def)
  obtain a' where a': "run (snd s) m (c, bt_metadata (snd s), bt_metadata (snd s), N) r a'" "holds (snd s) a' es'"
    using run [OF a(2) lay_self(6) [OF a(1)]] by blast
  obtain c' md' dk' N' where t: "a' = (c', md', dk', N')" by (cases a')
  obtain s' where s': "m s = (r, s')" "lay (snd s) (c', md', dk', N') s'" "pm_frame (bt_pm s) (bt_pm s')"
    using a'(1) a(1) t unfolding run_def by blast
  note l = lay_self [OF s'(2)]
  have "dk' = md'" using a'(2) t holds_dk by blast
  then have "bt_holds s' es'" using l(1) l(2) [of "(c', md', dk', N')" es'] l(3,5) a'(2) a(3) t by (auto simp: bt_holds_def)
  moreover have "bt_frame s s'" using lay_obj [OF s'(2)] l(3) s'(3) by (simp add: bt_frame_def)
  ultimately show ?thesis using s'(1) by blast
qed

lemma bt_holds_open: "bt_holds s es \<Longrightarrow> bt_is_open (snd s)"
  by (simp add: bt_holds_def)

lemma bt_holds_sorted: "bt_holds s es \<Longrightarrow> sorted_wrt (<) (map fst es)"
  using sorted_keys by (auto simp: bt_holds_def)

lemma bt_Find_ok:
  "bt_holds s es \<Longrightarrow> ValidateKeyType (snd s) k = Inr () \<Longrightarrow> \<exists>s'. bt_Find k s = (Inr (map_of es k), s') \<and> bt_holds s' es \<and> bt_frame s s'"
  using run_Find bt_holds_open by (intro bt_run) blast+

lemma bt_RangeSearch_ok:
  "bt_holds s es \<Longrightarrow> ValidateRange (snd s) rng = Inr () \<Longrightarrow>
    \<exists>s'. bt_RangeSearch rng s = (Inr (map snd (filter (\<lambda>e. FitsInRange (fst e) rng) es)), s') \<and> bt_holds s' es \<and> bt_frame s s'"
  using run_RangeSearch bt_holds_open by (intro bt_run) blast+

lemma bt_Insert_ok:
  assumes "bt_holds s es" "ValidateKeyType (snd s) k = Inr ()" "value_wf k" "r < 2 ^ 64" "map_of es k = None"
    "bt_room (bm_tree_height (bt_metadata (snd s)) + 1) s"
  shows "\<exists>s'. bt_Insert k r s = (Inr (), s') \<and> bt_holds s' (put k r es) \<and> bt_frame s s'"
  using run_Insert [OF _ bt_holds_open [OF assms(1)] assms(2-5)] assms(6) by (intro bt_run [OF assms(1)]) (auto simp: bt_room_def)

lemma bt_Insert_dup:
  assumes "bt_holds s es" "ValidateKeyType (snd s) k = Inr ()" "map_of es k = Some r'"
  shows "\<exists>s'. bt_Insert k r s = (Inl kAlreadyExists, s') \<and> bt_holds s' es \<and> bt_frame s s'"
  using run_Insert_duplicate [OF _ bt_holds_open [OF assms(1)] assms(2,3)] by (intro bt_run [OF assms(1)]) blast

lemma bt_Delete_ok:
  assumes "bt_holds s es" "ValidateKeyType (snd s) k = Inr ()" "map_of es k = Some r"
  shows "\<exists>s'. bt_Delete k s = (Inr (), s') \<and> bt_holds s' (del k es) \<and> bt_frame s s'"
  using run_Delete [OF _ bt_holds_open [OF assms(1)] assms(2,3)] by (intro bt_run [OF assms(1)])

lemma bt_Delete_missing:
  assumes "bt_holds s es" "ValidateKeyType (snd s) k = Inr ()" "map_of es k = None"
  shows "\<exists>s'. bt_Delete k s = (Inl kNotFound, s') \<and> bt_holds s' es \<and> bt_frame s s'"
  using run_Delete_missing [OF _ bt_holds_open [OF assms(1)] assms(2,3)] by (intro bt_run [OF assms(1)]) blast


subsection \<open>Opening\<close>

definition bm_wf :: "TreeMetadata \<Rightarrow> bool" where
  "bm_wf md \<longleftrightarrow> bm_root_page_id md < 2 ^ 64 \<and> bm_first_leaf_page_id md < 2 ^ 64 \<and> bm_tree_height md < 2 ^ 64"

lemma cfg_small: "cfg_ok b \<Longrightarrow> bt_min_degree b < 2 ^ 64"
  using Max_small [of b] by (simp add: MaxKeysPerNode_def)

lemma bt_DeserializeMetadata_at:
  assumes "has_at bs 0 (bt_SerializeMetadata (b\<lparr>bt_metadata := md\<rparr>))" "cfg_ok b" "meta_ok b md" "bm_wf md"
  shows "bt_DeserializeMetadata b bs = Inr md"
proof -
  have a: "has_at bs 0 kTreeMetadataMagic" "has_at bs 8 (le_bytes 4 (bm_version md))"
    "has_at bs (8 + 4) (le_bytes 4 (type_ordinal (bt_key_type b)))" "has_at bs (8 + 4 + 4) (le_bytes 8 (bm_root_page_id md))"
    "has_at bs (8 + 4 + 4 + 8) (le_bytes 8 (bm_first_leaf_page_id md))" "has_at bs (8 + 4 + 4 + 8 + 8) (le_bytes 8 (bm_min_degree md))"
    "has_at bs (8 + 4 + 4 + 8 + 8 + 8) (le_bytes 8 (bm_max_key_payload_bytes md))"
    "has_at bs (8 + 4 + 4 + 8 + 8 + 8 + 8) (le_bytes 8 (bm_tree_height md))"
    using assms(1) by (simp_all add: bt_SerializeMetadata_def writer_appends Let_def)
  have w: "bm_version md < 2 ^ 32" "type_ordinal (bt_key_type b) < 2 ^ 32" "bm_root_page_id md < 2 ^ 64" "bm_first_leaf_page_id md < 2 ^ 64"
    "bm_min_degree md < 2 ^ 64" "bm_max_key_payload_bytes md < 2 ^ 64" "bm_tree_height md < 2 ^ 64"
    using assms(3,4) cfg_small [OF assms(2)] payload_small [OF assms(2)]
    by (cases "bt_key_type b"; auto simp: meta_ok_def bm_wf_def kTreeVersion_def)+
  have m: "take 8 bs = kTreeMetadataMagic" using has_at_take [OF a(1)] by simp
  have l: "56 \<le> length bs" using has_at_le [OF assms(1)] by (simp add: bt_SerializeMetadata_def writer_appends Let_def)
  have "bm_version md = kTreeVersion" "bm_min_degree md = bt_min_degree b" "bm_max_key_payload_bytes md = bt_max_key_payload_bytes b"
    using assms(3) by (simp_all add: meta_ok_def)
  then show ?thesis
    using m l unfolding bt_DeserializeMetadata_def MetadataHeaderSize_def length_tree_magics
    by (simp add: ReadUint32_at [OF a(2) w(1), simplified] ReadUint32_at [OF a(3) w(2), simplified]
        ReadUint64_at [OF a(4) w(3), simplified] ReadUint64_at [OF a(5) w(4), simplified] ReadUint64_at [OF a(6) w(5), simplified]
        ReadUint64_at [OF a(7) w(6), simplified] ReadUint64_at [OF a(8) w(7), simplified])
qed

lemma load_metadata:
  assumes "cfg_ok b" "meta_ok b md" "bm_wf md"
  shows "bt_DeserializeMetadata b (meta_page b md) = Inr md"
  using assms by (intro bt_DeserializeMetadata_at) (auto simp: meta_page_def zero_padded_def has_at_def)

lemma first_leaf_in: "first_leaf t \<in> set (pids t)"
  by (induction t rule: first_leaf.induct) auto

lemma holds_wf:
  assumes "holds b (c, md, dk, N) es"
  shows "bm_wf md"
proof (cases "bm_root_page_id md = InvalidPageId")
  case True
  then show ?thesis using assms by (simp add: holds_def bm_wf_def InvalidPageId_def)
next
  case False
  then obtain h T where T: "rooted b h T (c, md, dk, N)" "sub b 1 h T" using assms by (auto simp: holds_def)
  have st: "store_ok b (c, md, dk, N)" using T(1) by (auto simp: rooted_def)
  have "set (pids T) \<subseteq> dom N" using T(1) rep_dom(1) [of N True InvalidPageId T] by (simp add: rooted_def)
  then have "pid T \<in> dom N" "first_leaf T \<in> dom N" using pid_in_pids [of T] first_leaf_in [of T] by auto
  then show ?thesis
    using store_ok_bound [OF st, of "pid T"] store_ok_bound [OF st, of "first_leaf T"] rooted_depth [OF T(1,2)] st T(1)
    by (auto simp: rooted_def roots_def bm_wf_def InvalidPageId_def store_ok_def)
qed

text \<open>Two objects with the same configuration.\<close>

definition same_config :: "bstar_tree \<Rightarrow> bstar_tree \<Rightarrow> bool" where
  "same_config b b' \<longleftrightarrow> bt_index_file b' = bt_index_file b \<and> bt_key_type b' = bt_key_type b \<and> bt_page_size b' = bt_page_size b \<and>
     bt_min_degree b' = bt_min_degree b \<and> bt_max_key_payload_bytes b' = bt_max_key_payload_bytes b"

definition bt_paths :: "bstar_tree \<Rightarrow> bool" where
  "bt_paths b \<longleftrightarrow> pm_file_path (bt_page_manager b) = bt_index_file b \<and> bt_index_file b \<noteq> []"

definition closed_index :: "bstar_tree \<Rightarrow> bool" where
  "closed_index b \<longleftrightarrow> \<not> bt_is_open b \<and> bt_page_manager b = PageManager (bt_index_file b) (bt_page_size b)"

lemma closed_BStarTree: "closed_index (BStarTree f kt ps d v)"
  by (simp add: closed_index_def BStarTree_def Let_def)

lemma config_eq:
  assumes "same_config b b'"
  shows "b'\<lparr>bt_page_manager := pm, bt_metadata := md, bt_is_open := bt_is_open b\<rparr> = b\<lparr>bt_metadata := md, bt_page_manager := pm\<rparr>"
  using assms by (cases b; cases b') (simp add: same_config_def)

lemma bt_reopen:
  assumes h: "bt_holds s es" and p: "bt_paths (snd s)" and d: "dir_free (fst s) (bt_index_file (snd s))"
    and b: "same_config (snd s) b" "closed_index b"
  shows "\<exists>s'. bt_Open (fst s, b) = (Inr (), s') \<and> bt_holds s' es \<and> same_config (snd s) (snd s') \<and> bt_paths (snd s') \<and>
    fst s' = with_dir (fst s) (bt_index_file (snd s))"
proof -
  let ?path = "bt_index_file (snd s)" and ?ps = "bt_page_size (snd s)" and ?md = "bt_metadata (snd s)"
  obtain c N where a: "lay (snd s) (c, ?md, ?md, N) s" "holds (snd s) (c, ?md, ?md, N) es" "bt_is_open (snd s)"
    using h by (auto simp: bt_holds_def)
  have l: "store_ok (snd s) (c, ?md, ?md, N)" "pm_clean (fst s, bt_page_manager (snd s))" "pm_page_size (bt_page_manager (snd s)) = ?ps"
    "length (pm_pages (bt_pm s)) = c" "pm_pages (bt_pm s) ! 0 = meta_page (snd s) ?md"
    using a(1) by (cases s; simp add: lay_def bt_pm_def)+
  have cfg: "cfg_ok (snd s)" "meta_ok (snd s) ?md" "0 < c" using l(1) a(2) by (auto simp: store_ok_def holds_def)
  obtain q where q: "pm_Open (fst s, PageManager ?path ?ps) = (Inr (), q)" "pm_clean q" "pm_pages q = pm_pages (bt_pm s)" "fst q = with_dir (fst s) ?path"
    using reopen_pages [OF l(2)] p d l(3) by (auto simp: bt_paths_def bt_pm_def)
  have qf: "pm_page_size (snd q) = ?ps" "pm_file_path (snd q) = ?path"
    using pm_Open_fields [OF q(1)] by (simp_all add: PageManager_def)
  let ?s1 = "(fst q, b\<lparr>bt_page_manager := snd q\<rparr>)" and ?s2 = "(fst q, b\<lparr>bt_page_manager := snd q, bt_metadata := ?md\<rparr>)"
  let ?s3 = "(fst q, (snd s)\<lparr>bt_metadata := ?md, bt_page_manager := snd q\<rparr>)"
  have op: "on_bpm pm_Open (fst s, b) = (Inr (), ?s1)"
    using on_bpm_run [of pm_Open "(fst s, b)"] q(1) b by (simp add: bt_pm_def bt_upd_pm_def closed_index_def same_config_def)
  have rd: "on_bpm (ReadPage 0) ?s1 = (Inr (meta_page (snd s) ?md), ?s1)"
    using on_bpm_run [of "ReadPage 0" ?s1] pmi.read_in [OF q(2), of 0] q(3) l(4,5) cfg(3) by (simp add: bt_pm_def bt_upd_pm_def)
  have "bt_DeserializeMetadata (b\<lparr>bt_page_manager := snd q\<rparr>) = bt_DeserializeMetadata (snd s)"
    using b(1) by (simp add: bt_DeserializeMetadata_def same_config_def fun_eq_iff)
  then have de: "bt_DeserializeMetadata (b\<lparr>bt_page_manager := snd q\<rparr>) (meta_page (snd s) ?md) = Inr ?md"
    using load_metadata [OF cfg(1,2) holds_wf [OF a(2)]] by simp
  have ld: "LoadMetadata ?s1 = (Inr (), ?s2)"
    using rd de by (simp add: LoadMetadata_def bt_ReadPage_def the_bt_def exec_simps bindS_liftR set_metadata_def)
  have g: "bt_index_file b \<noteq> []" "bt_max_key_payload_bytes b \<noteq> 0" "\<not> bt_min_degree b < 2" "\<not> bt_is_open b"
    using b p cfg(1) by (auto simp: same_config_def closed_index_def bt_paths_def cfg_ok_def)
  have eq: "?s2 = (fst q, (snd ?s2))" by simp
  have "bt_Open (fst s, b) = (Inr (), (fst q, b\<lparr>bt_page_manager := snd q, bt_metadata := ?md, bt_is_open := True\<rparr>))"
    using g op rd ld by (simp add: bt_Open_def the_bt_def exec_simps bindS_guardS)
  moreover have "b\<lparr>bt_page_manager := snd q, bt_metadata := ?md, bt_is_open := True\<rparr> = (snd s)\<lparr>bt_metadata := ?md, bt_page_manager := snd q\<rparr>"
    using config_eq [OF b(1), of ?md "snd q"] a(3) by simp
  ultimately have op3: "bt_Open (fst s, b) = (Inr (), ?s3)" by simp
  have "lay (snd ?s3) (c, ?md, ?md, N) ?s3"
    using a(1) q(2,3) qf l unfolding snd_conv cfg_lay by (cases s) (auto simp: lay_def bt_pm_def)
  moreover have "holds (snd ?s3) (c, ?md, ?md, N) es" unfolding snd_conv cfg_holds by (rule a(2))
  ultimately have "bt_holds ?s3 es" using a(3) unfolding bt_holds_def by auto
  then show ?thesis using op3 q(4) qf p by (auto simp: same_config_def bt_paths_def)
qed


lemma bt_open_fresh:
  assumes nf: "no_faults fs" and b: "closed_index b" "cfg_ok b" and d: "dir_free fs (bt_index_file b)"
    and p: "bt_index_file b \<noteq> []" "bt_index_file b \<notin> dom (fs_files fs)" "bt_index_file b \<notin> fs_dirs (with_dir fs (bt_index_file b))"
    and dir: "has_dir (with_dir fs (bt_index_file b)) (dir_of (bt_index_file b))"
  shows "\<exists>s'. bt_Open (fs, b) = (Inr (), s') \<and> bt_holds s' [] \<and> same_config b (snd s') \<and> bt_paths (snd s') \<and>
    pm_page_count (bt_page_manager (snd s')) = 1 \<and> bm_tree_height (bt_metadata (snd s')) = 0 \<and>
    fs_dirs (fst s') = fs_dirs (with_dir fs (bt_index_file b)) \<and>
    (\<forall>f. f \<noteq> bt_index_file b \<longrightarrow> fs_files (fst s') f = fs_files fs f)"
proof -
  let ?path = "bt_index_file b" and ?ps = "bt_page_size b"
  let ?md = "\<lparr>bm_version = kTreeVersion, bm_root_page_id = InvalidPageId, bm_first_leaf_page_id = InvalidPageId,
    bm_min_degree = bt_min_degree b, bm_max_key_payload_bytes = bt_max_key_payload_bytes b, bm_tree_height = 0\<rparr>"
  have ps: "0 < ?ps" "?ps < 2 ^ 64" using b(2) by (auto simp: cfg_ok_def)
  obtain q where q: "pm_Open (fs, PageManager ?path ?ps) = (Inr (), q)" "pm_clean q" "pm_pages q = []"
    "fst q = (with_dir fs ?path)\<lparr>fs_files := (fs_files fs)(?path \<mapsto> header_rep (MakeHeader ?ps 0))\<rparr>"
    "snd q = (PageManager ?path ?ps)\<lparr>pm_is_open := True\<rparr>"
    using open_fresh [OF nf d p dir ps] by blast
  have qp: "pm_page_size (snd q) = ?ps" "pm_page_count (snd q) = 0" "pm_file_path (snd q) = ?path" using q(5) by (simp_all add: PageManager_def)
  have "HeaderSize + ?ps < 2 ^ 64" using b(2) by (auto simp: cfg_ok_def HeaderSize_def)
  then have "pm_room (Suc 0) q" using qp by (simp add: pm_room_def)
  then obtain q1 where q1: "AllocatePage q = (Inr 0, q1)" "pm_clean q1" "pm_pages q1 = [replicate ?ps 0]" "pm_frame q q1"
    using pmi.alloc_in [OF q(2), of 0] q(3) qp(1) by auto
  let ?mp = "meta_page b ?md"
  have "length ?mp = ?ps" using length_meta [OF b(2), of ?md] by (simp add: meta_page_def zero_padded_def)
  moreover have "pm_page_size (snd q1) = ?ps" using pmi.frame_psize [OF q1(4)] qp by simp
  ultimately obtain q2 where q2: "WritePage 0 ?mp q1 = (Inr (), q2)" "pm_clean q2" "pm_pages q2 = [?mp]" "pm_frame q1 q2"
    using pmi.write_in [OF q1(2), of 0 ?mp] q1(3) by auto
  have fr: "pm_frame q q2" using pmi.frame_trans [OF q1(4) q2(4)] .
  let ?s1 = "(fst q, b\<lparr>bt_page_manager := snd q\<rparr>)" and ?s2 = "(fst q1, b\<lparr>bt_page_manager := snd q1\<rparr>)"
  let ?s3 = "(fst q1, b\<lparr>bt_page_manager := snd q1, bt_metadata := ?md\<rparr>)"
  let ?s4 = "(fst q2, b\<lparr>bt_page_manager := snd q2, bt_metadata := ?md\<rparr>)"
  have op: "on_bpm pm_Open (fs, b) = (Inr (), ?s1)"
    using on_bpm_run [of pm_Open "(fs, b)"] q(1) b by (simp add: bt_pm_def bt_upd_pm_def closed_index_def)
  have rd: "on_bpm (ReadPage 0) ?s1 = (Inl kNotFound, ?s1)"
    using on_bpm_run [of "ReadPage 0" ?s1] pmi.read_out [OF q(2), of 0] q(3) by (simp add: bt_pm_def bt_upd_pm_def)
  have al: "on_bpm AllocatePage ?s1 = (Inr 0, ?s2)"
    using on_bpm_run [of AllocatePage ?s1] q1(1) by (simp add: bt_pm_def bt_upd_pm_def)
  have mp: "zero_padded ?ps (bt_SerializeMetadata (snd ?s3)) = ?mp" "\<not> length (bt_SerializeMetadata (snd ?s3)) > ?ps"
    using length_meta [OF b(2), of ?md] by (simp_all add: meta_page_def bt_SerializeMetadata_def Let_def)
  have wr: "on_bpm (WritePage 0 ?mp) ?s3 = (Inr (), ?s4)"
    using on_bpm_run [of "WritePage 0 ?mp" ?s3] q2(1) by (simp add: bt_pm_def bt_upd_pm_def)
  have fl: "on_bpm pm_Flush ?s4 = (Inr (), ?s4)"
    using on_bpm_run [of pm_Flush ?s4 _ q2] Flush_clean [OF q2(2)] by (simp add: bt_pm_def bt_upd_pm_def)
  have init: "InitializeTree ?s1 = (Inr (), ?s4)"
    using al mp wr fl by (simp add: InitializeTree_def the_bt_def exec_simps bindS_guardS set_metadata_def bt_WriteMetadata_def bt_WritePage_def Let_def)
  let ?s = "(fst q2, b\<lparr>bt_page_manager := snd q2, bt_metadata := ?md, bt_is_open := True\<rparr>)"
  have g: "bt_max_key_payload_bytes b \<noteq> 0" "\<not> bt_min_degree b < 2" "\<not> bt_is_open b"
    using b by (auto simp: closed_index_def cfg_ok_def)
  have op': "bt_Open (fs, b) = (Inr (), ?s)"
    using g p(1) op rd init by (simp add: bt_Open_def the_bt_def exec_simps bindS_guardS)
  have n2: "pm_page_count (snd q2) = 1" using arg_cong [OF q2(3), of length] by simp
  have sz: "pm_page_size (snd q2) = ?ps" "pm_file_path (snd q2) = ?path" using fr qp by (auto simp: pm_frame_def split: prod.splits)
  have st: "store_ok (snd ?s) (1, ?md, ?md, \<lambda>_. None)" using b(2) by (simp add: store_ok_def cfg_ok_def MaxKeysPerNode_def)
  have mp': "meta_page (snd ?s) ?md = ?mp" by (simp add: meta_page_def bt_SerializeMetadata_def Let_def)
  have "lay (snd ?s) (1, ?md, ?md, \<lambda>_. None) ?s" using st mp' q2(2,3) sz n2 by (simp add: lay_def bt_pm_def)
  moreover have "holds (snd ?s) (1, ?md, ?md, \<lambda>_. None) []" using st by (simp add: holds_def meta_ok_def)
  ultimately have "bt_holds ?s []" unfolding bt_holds_def by auto
  moreover have "fs_dirs (fst q2) = fs_dirs (fst q)" "\<forall>f. f \<noteq> ?path \<longrightarrow> fs_files (fst q2) f = fs_files (fst q) f"
    using fr qp(3) by (auto simp: pm_frame_def split: prod.splits)
  ultimately show ?thesis using op' n2 sz p(1) q(4) by (auto simp: same_config_def bt_paths_def)
qed


subsection \<open>The interface: an ordered index\<close>

lemma del_put: "map_of es k = None \<Longrightarrow> del k (put k r es) = es"
proof -
  assume "map_of es k = None"
  then have "filter (\<lambda>e. fst e \<noteq> k) es = es" by (intro filter_True) (auto simp: map_of_eq_None_iff)
  then have "filter (\<lambda>e. fst e \<noteq> k) (takeWhile (\<lambda>e. fst e < k) es @ dropWhile (\<lambda>e. fst e < k) es) = es" by simp
  then show ?thesis by (simp only: del_def put_def filter_append filter.simps fst_conv simp_thms if_False)
qed

locale ordered_index =
  fixes contents :: "'s \<Rightarrow> LeafEntry list \<Rightarrow> bool"
    and accepts :: "'s \<Rightarrow> Value \<Rightarrow> bool"
    and room :: "'s \<Rightarrow> bool"
    and frame :: "'s \<Rightarrow> 's \<Rightarrow> bool"
    and ifind :: "Value \<Rightarrow> ('s, nat option) stm"
    and iinsert :: "Value \<Rightarrow> nat \<Rightarrow> ('s, unit) stm"
    and idelete :: "Value \<Rightarrow> ('s, unit) stm"
  assumes ordered_keys: "contents s es \<Longrightarrow> sorted_wrt (<) (map fst es)"
    and find: "contents s es \<Longrightarrow> accepts s k \<Longrightarrow> \<exists>s'. ifind k s = (Inr (map_of es k), s') \<and> contents s' es \<and> frame s s'"
    and insert_new: "contents s es \<Longrightarrow> accepts s k \<Longrightarrow> r < 2 ^ 64 \<Longrightarrow> map_of es k = None \<Longrightarrow> room s \<Longrightarrow>
      \<exists>s'. iinsert k r s = (Inr (), s') \<and> contents s' (put k r es) \<and> frame s s'"
    and insert_old: "contents s es \<Longrightarrow> accepts s k \<Longrightarrow> map_of es k = Some r' \<Longrightarrow>
      \<exists>s'. iinsert k r s = (Inl kAlreadyExists, s') \<and> contents s' es \<and> frame s s'"
    and delete_old: "contents s es \<Longrightarrow> accepts s k \<Longrightarrow> map_of es k = Some r \<Longrightarrow>
      \<exists>s'. idelete k s = (Inr (), s') \<and> contents s' (del k es) \<and> frame s s'"
    and delete_new: "contents s es \<Longrightarrow> accepts s k \<Longrightarrow> map_of es k = None \<Longrightarrow>
      \<exists>s'. idelete k s = (Inl kNotFound, s') \<and> contents s' es \<and> frame s s'"
    and frame_accepts: "frame s s' \<Longrightarrow> accepts s' k = accepts s k"
    and frame_trans: "frame s s' \<Longrightarrow> frame s' s'' \<Longrightarrow> frame s s''"
begin

text \<open>What is inserted is found, and every other key is found as before.\<close>

lemma insert_find:
  assumes "contents s es" "accepts s k" "r < 2 ^ 64" "map_of es k = None" "room s" "accepts s k'"
  shows "\<exists>s'. bindS (iinsert k r) (\<lambda>_. ifind k') s = (Inr (if k' = k then Some r else map_of es k'), s') \<and>
    contents s' (put k r es) \<and> frame s s'"
proof -
  obtain s1 where s1: "iinsert k r s = (Inr (), s1)" "contents s1 (put k r es)" "frame s s1" using insert_new [OF assms(1-5)] by blast
  obtain s2 where "ifind k' s1 = (Inr (map_of (put k r es) k'), s2)" "contents s2 (put k r es)" "frame s1 s2"
    using find [OF s1(2)] assms(6) frame_accepts [OF s1(3)] by blast
  then show ?thesis using s1 frame_trans map_of_put [OF ordered_keys [OF assms(1)] assms(4), of r] by (auto simp: exec_simps)
qed

text \<open>A deletion undoes an insertion.\<close>

lemma insert_delete:
  assumes "contents s es" "accepts s k" "r < 2 ^ 64" "map_of es k = None" "room s"
  shows "\<exists>s'. bindS (iinsert k r) (\<lambda>_. idelete k) s = (Inr (), s') \<and> contents s' es \<and> frame s s'"
proof -
  obtain s1 where s1: "iinsert k r s = (Inr (), s1)" "contents s1 (put k r es)" "frame s s1" using insert_new [OF assms(1-5)] by blast
  have "map_of (put k r es) k = Some r" using map_of_put [OF ordered_keys [OF assms(1)] assms(4)] by simp
  then obtain s2 where "idelete k s1 = (Inr (), s2)" "contents s2 (del k (put k r es))" "frame s1 s2"
    using delete_old [OF s1(2)] assms(2) frame_accepts [OF s1(3)] by blast
  then show ?thesis using s1 frame_trans del_put [OF assms(4)] by (auto simp: exec_simps)
qed

text \<open>Moving a row to another key, as an update of an indexed column does.\<close>

lemma delete_insert:
  assumes "contents s es" "accepts s k" "accepts s k'" "map_of es k = Some r" "map_of es k' = None" "r < 2 ^ 64"
    and room: "\<And>s'. frame s s' \<Longrightarrow> contents s' (del k es) \<Longrightarrow> room s'"
  shows "\<exists>s'. bindS (idelete k) (\<lambda>_. iinsert k' r) s = (Inr (), s') \<and> contents s' (put k' r (del k es)) \<and> frame s s'"
proof -
  obtain s1 where s1: "idelete k s = (Inr (), s1)" "contents s1 (del k es)" "frame s s1" using delete_old [OF assms(1,2,4)] by blast
  have "map_of (del k es) k' = None" using assms(5) by (simp add: map_of_del)
  then obtain s2 where "iinsert k' r s1 = (Inr (), s2)" "contents s2 (put k' r (del k es))" "frame s1 s2"
    using insert_new [OF s1(2) _ assms(6)] assms(3) frame_accepts [OF s1(3)] room [OF s1(3,2)] by blast
  then show ?thesis using s1 frame_trans by (auto simp: exec_simps)
qed

end

definition bt_accepts :: "bt_state \<Rightarrow> Value \<Rightarrow> bool" where
  "bt_accepts s k \<longleftrightarrow> ValidateKeyType (snd s) k = Inr () \<and> value_wf k"

definition bt_grows :: "bt_state \<Rightarrow> bool" where
  "bt_grows s \<longleftrightarrow> bt_room (bm_tree_height (bt_metadata (snd s)) + 1) s"

lemma bt_frame_accepts: "bt_frame s s' \<Longrightarrow> bt_accepts s' k = bt_accepts s k"
  unfolding bt_accepts_def bt_frame_def using cfg_same(7) by metis

lemma bt_frame_trans: "bt_frame s s' \<Longrightarrow> bt_frame s' s'' \<Longrightarrow> bt_frame s s''"
proof -
  assume f: "bt_frame s s'" "bt_frame s' s''"
  have "pm_frame (bt_pm s) (bt_pm s'')" using f pmi.frame_trans unfolding bt_frame_def by blast
  moreover have "snd s'' = (snd s)\<lparr>bt_metadata := bt_metadata (snd s''), bt_page_manager := bt_page_manager (snd s'')\<rparr>"
    using f unfolding bt_frame_def by (cases "snd s"; cases "snd s'"; cases "snd s''") simp
  ultimately show ?thesis by (simp add: bt_frame_def)
qed

interpretation bti: ordered_index bt_holds bt_accepts bt_grows bt_frame bt_Find bt_Insert bt_Delete
proof unfold_locales
  fix s es assume "bt_holds s es"
  then show "sorted_wrt (<) (map fst es)" by (rule bt_holds_sorted)
qed (use bt_Find_ok bt_Insert_ok bt_Insert_dup bt_Delete_ok bt_Delete_missing bt_frame_accepts bt_frame_trans
    in \<open>auto simp: bt_accepts_def bt_grows_def\<close>)


subsection \<open>The balanced cut against a reference\<close>

definition balanced_cut :: "nat \<Rightarrow> (nat \<Rightarrow> nat \<Rightarrow> bool) \<Rightarrow> nat option" where
  "balanced_cut n fits = (case filter (\<lambda>i. fits i (n - i)) [1..<n] of [] \<Rightarrow> None
     | i # is \<Rightarrow> Some (arg_min_list (imbalance n) (i # is)))"

lemma arg_min_list_step:
  fixes f :: "nat \<Rightarrow> nat"
  shows "arg_min_list f (x # y # zs) = arg_min_list f ((if f y < f x then y else x) # zs)"
  by (cases zs) (auto simp: Let_def)

lemma choose_split_loop_arg_min:
  "(\<And>b d. best = Some (b, d) \<Longrightarrow> d = imbalance n b) \<Longrightarrow>
   map_option fst (choose_split_loop fits n is best) =
     (case (case best of None \<Rightarrow> [] | Some (b, _) \<Rightarrow> [b]) @ filter (\<lambda>i. fits i (n - i)) is of
        [] \<Rightarrow> None | j # js \<Rightarrow> Some (arg_min_list (imbalance n) (j # js)))"
proof (induction "is" arbitrary: best)
  case Nil
  then show ?case by (auto split: option.splits)
next
  case (Cons i "is")
  let ?best = "case best of None \<Rightarrow> Some (i, imbalance n i)
    | Some (b, d) \<Rightarrow> if imbalance n i < d then Some (i, imbalance n i) else Some (b, d)"
  show ?case
  proof (cases "fits i (n - i)")
    case False
    then show ?thesis using Cons.IH [of best] Cons.prems by (simp add: Let_def)
  next
    case True
    have step: "choose_split_loop fits n (i # is) best = choose_split_loop fits n is ?best"
      by (simp only: choose_split_loop.simps Let_def imbalance_def [symmetric] True not_True_eq_False if_False)
    have "d = imbalance n b" if "?best = Some (b, d)" for b d
      using Cons.prems that by (auto split: option.splits prod.splits if_splits)
    from Cons.IH [OF this] show ?thesis
      unfolding step using Cons.prems True arg_min_list_step [of "imbalance n" _ i]
      by (auto split: option.splits prod.splits)
  qed
qed

text \<open>
  C24: \<open>ChooseBalancedSplit\<close>, a loop that keeps the best candidate, computes the reference cut: the leftmost of the admissible
  cuts with the least difference between the two sides, and none when no cut is admissible.
\<close>

theorem balanced_split_reference: "ChooseBalancedSplit n fits = balanced_cut n fits"
  unfolding ChooseBalancedSplit_def balanced_cut_def using choose_split_loop_arg_min [of None n fits "[1..<n]"] by simp

subsection \<open>The degree and the page size\<close>

lemma degree_largest:
  assumes "ComputeMinDegreeForPage ps n = Inr d"
  shows "ps < 41 + (2 * (d + 1) - 1) * (12 + n)"
proof -
  let ?l = "(ps - 33) div (12 + n)" let ?i = "(ps - 33 - 8) div (12 + n)" let ?m = "min ?l ?i"
  have ps: "41 < ps" and d: "d = (?m + 1) div 2"
    using assms
    by (auto simp: ComputeMinDegreeForPage_def bindR_guardR Let_def NodeHeaderSize_eq add.assoc add.commute [of 4]
        split: if_splits simp flip: add.assoc)
  have "?i \<le> ?l" by (intro div_le_mono) simp
  then have "?m = ?i" by simp
  moreover have "?m + 1 < 2 * (d + 1)" unfolding d by (simp add: dividend_less_times_div)
  ultimately have "Suc ?i \<le> 2 * (d + 1) - 1" by simp
  then have "Suc ?i * (12 + n) \<le> (2 * (d + 1) - 1) * (12 + n)" by (rule mult_le_mono1)
  moreover have "ps - 33 - 8 < Suc ?i * (12 + n)" using dividend_less_div_times [of "12 + n" "ps - 33 - 8"] by simp
  ultimately show ?thesis using ps by linarith
qed

lemma body_bound:
  "(\<And>e. e \<in> set es \<Longrightarrow> length (Encode (fst e)) \<le> n) \<Longrightarrow> length (concat (map SerializeLeafEntry es)) \<le> length es * (12 + n)"
  by (induction es) (force simp: SerializeLeafEntry_eq SerializeSeparatorKey_eq)+



subsection \<open>Properties of the operations\<close>

definition demo_tree :: bstar_tree where
  "demo_tree = BStarTree ''i.idx'' kInt 128 0 64"

definition demo_index :: bt_state where
  "demo_index = snd (bt_Open (\<lparr>fs_files = Map.empty, fs_dirs = {}, fs_faults = []\<rparr>, demo_tree))"

lemma demo_tree_fields: "bt_index_file demo_tree = ''i.idx''" "bt_key_type demo_tree = kInt" "bt_page_size demo_tree = 128"
  "bt_min_degree demo_tree = 2" "bt_max_key_payload_bytes demo_tree = 8" "cfg_ok demo_tree"
  by (simp_all add: demo_tree_def BStarTree_def ResolveMaxEncodedKeySize_def ComputeMinDegreeForPage_def bindR_guardR Let_def NodeHeaderSize_eq
      cfg_ok_def MaxKeysPerNode_def)

lemma demo_index_ok: "bt_holds demo_index []" "same_config demo_tree (snd demo_index)" "bt_paths (snd demo_index)" "bt_grows demo_index"
  "dir_free (fst demo_index) ''i.idx''"
proof -
  let ?fs = "\<lparr>fs_files = Map.empty, fs_dirs = {}, fs_faults = []\<rparr>"
  have "\<exists>s'. bt_Open (?fs, demo_tree) = (Inr (), s') \<and> bt_holds s' [] \<and> same_config demo_tree (snd s') \<and> bt_paths (snd s') \<and>
    pm_page_count (bt_page_manager (snd s')) = 1 \<and> bm_tree_height (bt_metadata (snd s')) = 0 \<and>
    fs_dirs (fst s') = fs_dirs (with_dir ?fs (bt_index_file demo_tree)) \<and>
    (\<forall>f. f \<noteq> bt_index_file demo_tree \<longrightarrow> fs_files (fst s') f = fs_files ?fs f)"
    by (rule bt_open_fresh) (simp_all add: demo_tree_fields closed_BStarTree [of "''i.idx''" kInt 128 0 64, folded demo_tree_def]
         dir_free_def with_dir_def dir_of_def path_prefixes_def has_dir_def)
  then show "bt_holds demo_index []" "same_config demo_tree (snd demo_index)" "bt_paths (snd demo_index)" "bt_grows demo_index"
    "dir_free (fst demo_index) ''i.idx''"
    by (auto simp: demo_index_def bt_grows_def bt_room_def room_def same_config_def demo_tree_fields HeaderSize_def
        dir_free_def dir_of_def path_prefixes_def)
qed


text \<open>
  C1: \<open>BStarTree::Insert\<close> implements insertion into a finite map in key order. On a well-formed tree a new key is added,
  whatever redistributions and splits this takes, an existing key is refused with \<open>kAlreadyExists\<close> and nothing changes; in both
  cases the tree stays well-formed and no other file is touched.
\<close>

theorem index_insert_refines:
  assumes "bt_holds s es" "bt_accepts s k" "r < 2 ^ 64" "bt_grows s"
  shows "\<exists>s'. bt_Insert k r s = (if map_of es k = None then Inr () else Inl kAlreadyExists, s') \<and> bt_frame s s' \<and>
    bt_holds s' (if map_of es k = None then put k r es else es) \<and>
    (map_of es k = None \<longrightarrow> map_of (put k r es) = (map_of es)(k \<mapsto> r))"
proof (cases "map_of es k")
  case None
  then show ?thesis using bti.insert_new [OF assms(1-3) None assms(4)] map_of_put [OF bt_holds_sorted [OF assms(1)] None] by auto
next
  case (Some r')
  then show ?thesis using bti.insert_old [OF assms(1,2) Some, of r] by auto
qed

lemma demo_accepts: "bt_accepts demo_index (VInt 5)"
  using demo_index_ok(2) demo_tree_fields
  by (simp add: bt_accepts_def ValidateKeyType_def bindR_guardR same_config_def is_null_def writer_appends)

theorem index_insert_refines_witness:
  "bt_holds demo_index [] \<and> bt_accepts demo_index (VInt 5) \<and> bt_grows demo_index \<and>
   (\<exists>s'. bt_Insert (VInt 5) 7 demo_index = (Inr (), s') \<and> bt_holds s' [(VInt 5, 7)])"
  using index_insert_refines [OF demo_index_ok(1) demo_accepts, of 7] demo_index_ok demo_accepts by (auto simp: put_def)

text \<open>An index with one entry.\<close>

definition demo_index1 :: bt_state where
  "demo_index1 = snd (bt_Insert (VInt 5) 7 demo_index)"

lemma demo_index1_ok: "bt_holds demo_index1 [(VInt 5, 7)]" "bt_accepts demo_index1 (VInt 5)" "bt_paths (snd demo_index1)"
  "same_config demo_tree (snd demo_index1)" "dir_free (fst demo_index1) ''i.idx''"
proof -
  obtain s' where s': "bt_Insert (VInt 5) 7 demo_index = (Inr (), s')" "bt_holds s' (put (VInt 5) 7 [])" "bt_frame demo_index s'"
    using bti.insert_new [OF demo_index_ok(1) demo_accepts, of 7] demo_index_ok(4) by auto
  have d: "demo_index1 = s'" using s'(1) by (simp add: demo_index1_def)
  show "bt_holds demo_index1 [(VInt 5, 7)]" using s'(2) d by (simp add: put_def)
  show "bt_accepts demo_index1 (VInt 5)" using bt_frame_accepts [OF s'(3)] demo_accepts d by simp
  have b: "bt_index_file (snd s') = bt_index_file (snd demo_index)" "bt_key_type (snd s') = bt_key_type (snd demo_index)"
    "bt_page_size (snd s') = bt_page_size (snd demo_index)" "bt_min_degree (snd s') = bt_min_degree (snd demo_index)"
    "bt_max_key_payload_bytes (snd s') = bt_max_key_payload_bytes (snd demo_index)"
    using s'(3) unfolding bt_frame_def by (cases "snd demo_index"; cases "snd s'"; simp)+
  have p: "pm_file_path (bt_page_manager (snd s')) = pm_file_path (bt_page_manager (snd demo_index))"
    using s'(3) by (cases s'; cases demo_index) (auto simp: bt_frame_def pm_frame_def bt_pm_def)
  show "bt_paths (snd demo_index1)" using demo_index_ok(3) b p d by (simp add: bt_paths_def)
  show "same_config demo_tree (snd demo_index1)" using demo_index_ok(2) b d by (simp add: same_config_def)
  show "dir_free (fst demo_index1) ''i.idx''" by (simp add: dir_free_def dir_of_def path_prefixes_def)
qed

text \<open>
  C2: \<open>BStarTree::Delete\<close> implements deletion from a finite map. A key that is present is removed, whatever redistributions,
  merges and changes of the root this takes, a missing key is reported as \<open>kNotFound\<close> and nothing changes; deletion never needs
  free space.
\<close>

theorem index_delete_refines:
  assumes "bt_holds s es" "bt_accepts s k"
  shows "\<exists>s'. bt_Delete k s = (if map_of es k = None then Inl kNotFound else Inr (), s') \<and> bt_frame s s' \<and>
    bt_holds s' (del k es) \<and> map_of (del k es) = (map_of es)(k := None)"
proof (cases "map_of es k")
  case None
  then have "del k es = es" unfolding del_def by (intro filter_True) (auto simp: map_of_eq_None_iff)
  then show ?thesis using bti.delete_new [OF assms None] None map_of_del [of k es] by auto
next
  case (Some r)
  then show ?thesis using bti.delete_old [OF assms Some] map_of_del [of k es] by auto
qed

theorem index_delete_refines_witness:
  "bt_holds demo_index1 [(VInt 5, 7)] \<and> bt_accepts demo_index1 (VInt 5) \<and>
   (\<exists>s'. bt_Delete (VInt 5) demo_index1 = (Inr (), s') \<and> bt_holds s' [])"
  using index_delete_refines [OF demo_index1_ok(1,2)] demo_index1_ok by (auto simp: del_def)

text \<open>
  C20: \<open>Find\<close> always returns, and returns the row id stored under the key or nothing; the tree is not changed.
\<close>

theorem index_find_exact:
  assumes "bt_holds s es" "bt_accepts s k"
  shows "\<exists>s'. bt_Find k s = (Inr (map_of es k), s') \<and> bt_holds s' es \<and> bt_frame s s'"
  using bti.find [OF assms] .

theorem index_find_exact_witness:
  "bt_holds demo_index1 [(VInt 5, 7)] \<and> bt_accepts demo_index1 (VInt 5) \<and> (\<exists>s'. bt_Find (VInt 5) demo_index1 = (Inr (Some 7), s'))"
  using index_find_exact [OF demo_index1_ok(1,2)] demo_index1_ok by auto

text \<open>
  C21: \<open>RangeSearch\<close> always terminates, since the chain of leaves it walks has no cycle, and it returns exactly the row ids of the keys in
  the range, in ascending key order.
\<close>

theorem range_search_exact:
  assumes "bt_holds s es" "ValidateRange (snd s) rng = Inr ()"
  shows "\<exists>s'. bt_RangeSearch rng s = (Inr (map snd (filter (\<lambda>e. FitsInRange (fst e) rng) es)), s') \<and>
    sorted_wrt (<) (map fst es) \<and> bt_holds s' es \<and> bt_frame s s'"
  using bt_RangeSearch_ok [OF assms] bt_holds_sorted [OF assms(1)] by blast

theorem range_search_exact_witness:
  "bt_holds demo_index1 [(VInt 5, 7)] \<and>
   (\<exists>s'. bt_RangeSearch \<lparr>rg_low = None, rg_high = Some (VInt 9), rg_include_low = True, rg_include_high = False\<rparr> demo_index1 = (Inr [7], s'))"
proof -
  let ?r = "\<lparr>rg_low = None, rg_high = Some (VInt 9), rg_include_low = True, rg_include_high = False\<rparr>"
  have "ValidateRange (snd demo_index1) ?r = Inr ()"
    using demo_index1_ok(4) demo_tree_fields
    by (simp add: ValidateRange_def ValidateKeyType_def bindR_guardR same_config_def is_null_def writer_appends)
  from range_search_exact [OF demo_index1_ok(1) this] show ?thesis using demo_index1_ok(1)
    by (auto simp: FitsInRange_def less_Value_def value_less_def)
qed

text \<open>
  C22: the index survives a restart: a new object with the same configuration opens on the file of a well-formed tree and holds
  the same entries.
\<close>

theorem index_reopen:
  assumes "bt_holds s es" "bt_paths (snd s)" "dir_free (fst s) (bt_index_file (snd s))" "same_config (snd s) (BStarTree f kt ps d v)"
  shows "\<exists>s'. bt_Open (fst s, BStarTree f kt ps d v) = (Inr (), s') \<and> bt_holds s' es \<and> same_config (snd s) (snd s')"
  using bt_reopen [OF assms closed_BStarTree] by blast

theorem index_reopen_witness:
  "bt_holds demo_index1 [(VInt 5, 7)] \<and> bt_paths (snd demo_index1) \<and>
   (\<exists>s'. bt_Open (fst demo_index1, BStarTree ''i.idx'' kInt 128 0 64) = (Inr (), s') \<and> bt_holds s' [(VInt 5, 7)])"
proof -
  have "bt_index_file (snd demo_index1) = ''i.idx''" "same_config (snd demo_index1) (BStarTree ''i.idx'' kInt 128 0 64)"
    using demo_index1_ok(4) demo_tree_fields by (auto simp: same_config_def demo_tree_def)
  then show ?thesis using index_reopen [OF demo_index1_ok(1,3), of "''i.idx''" kInt 128 0 64] demo_index1_ok by auto
qed

text \<open>
  C23: a tree that is not open, or a key that is null, of another type or too long, is refused by \<open>Find\<close>, \<open>Insert\<close> and \<open>Delete\<close> in every
  state, with the error of the first check that fails and without any effect.
\<close>

theorem index_rejects:
  assumes "\<not> bt_is_open (snd s) \<or> is_null k \<or> value_type k \<noteq> bt_key_type (snd s) \<or> bt_max_key_payload_bytes (snd s) < length (Encode k)"
    and e: "e = (if bt_is_open (snd s) then kInvalidArgument else kInternalError)"
  shows "bt_Find k s = (Inl e, s) \<and> bt_Insert k r s = (Inl e, s) \<and> bt_Delete k s = (Inl e, s)"
  using assms
  by (auto simp: bt_Find_def bt_Insert_def bt_Delete_def the_bt_def exec_simps bindS_guardS bindS_liftR ValidateKeyType_def bindR_guardR)

theorem index_rejects_witness:
  "is_null VNull \<and> bt_is_open (snd demo_index) \<and> bt_Insert VNull 7 demo_index = (Inl kInvalidArgument, demo_index)"
  using index_rejects [of demo_index VNull kInvalidArgument 7] bt_holds_open [OF demo_index_ok(1)] by (simp add: is_null_def)

end
