(* ===== verification/Network.thy ===== *)
theory Network
  imports Values
begin

text \<open>
  The network layer. \<^verbatim>\<open>src/network/protocol.cpp\<close> encodes requests and responses; \<^verbatim>\<open>tcp_client.cpp\<close> and
  \<^verbatim>\<open>tcp_server.cpp\<close> send them over a stream socket with a length in front. A \<open>socket\<close> holds the bytes that arrive, the bytes
  sent so far, and a schedule of what the next \<^verbatim>\<open>send\<close> and \<^verbatim>\<open>recv\<close> calls return: a transfer of at most that many bytes, or
  a failure; an exhausted schedule moves everything at once. Address resolution, \<^verbatim>\<open>accept\<close> and threads are not modelled.
\<close>

subsection \<open>Messages\<close>

record Request =
  rq_request_id :: string
  rq_database :: string
  rq_sql :: string
  rq_auth_token :: string

record QueryResult =
  qr_ok :: bool
  qr_error :: string
  qr_columns :: "string list"
  qr_rows :: "Tuple list"
  qr_affected_rows :: nat

record Response =
  rp_ok :: bool
  rp_error :: string
  rp_result :: QueryResult

definition empty_result :: QueryResult where
  "empty_result = \<lparr>qr_ok = True, qr_error = [], qr_columns = [], qr_rows = [], qr_affected_rows = 0\<rparr>"

definition SerializeRequest :: "Request \<Rightarrow> bytes" where
  "SerializeRequest req =
     (let buffer = WriteString [] (rq_request_id req);
          buffer = WriteString buffer (rq_database req);
          buffer = WriteString buffer (rq_sql req)
      in WriteString buffer (rq_auth_token req))"

definition DeserializeRequest :: "bytes \<Rightarrow> Request option" where
  "DeserializeRequest bs =
     (case bindR (ReadString bs 0) (\<lambda>(request_id, off).
       bindR (ReadString bs off) (\<lambda>(database, off).
       bindR (ReadString bs off) (\<lambda>(sql, off).
       bindR (ReadString bs off) (\<lambda>(auth_token, off).
         Inr (\<lparr>rq_request_id = request_id, rq_database = database, rq_sql = sql, rq_auth_token = auth_token\<rparr>, off))))) of
       Inl _ \<Rightarrow> None
     | Inr (req, off) \<Rightarrow> if off = length bs then Some req else None)"

definition SerializeResponse :: "Response \<Rightarrow> bytes" where
  "SerializeResponse resp =
     (let r = rp_result resp;
          buffer = WriteBool [] (rp_ok resp);
          buffer = WriteString buffer (rp_error resp);
          buffer = WriteBool buffer (qr_ok r);
          buffer = WriteString buffer (qr_error r);
          buffer = WriteUint32 buffer (qr_affected_rows r);
          buffer = WriteUint32 buffer (length (qr_columns r));
          buffer = fold (\<lambda>col buffer. WriteString buffer col) (qr_columns r) buffer;
          buffer = WriteUint32 buffer (length (qr_rows r))
      in fold SerializeTuple (qr_rows r) buffer)"

definition DeserializeResponse :: "bytes \<Rightarrow> Response option" where
  "DeserializeResponse bs =
     (case bindR (ReadBool bs 0) (\<lambda>(ok, off).
       bindR (ReadString bs off) (\<lambda>(error, off).
       bindR (ReadBool bs off) (\<lambda>(result_ok, off).
       bindR (ReadString bs off) (\<lambda>(result_error, off).
       bindR (ReadUint32 bs off) (\<lambda>(affected, off).
       bindR (ReadUint32 bs off) (\<lambda>(col_count, off).
       bindR (read_n ReadString col_count bs off) (\<lambda>(columns, off).
       bindR (ReadUint32 bs off) (\<lambda>(row_count, off).
       bindR (read_n DeserializeTuple row_count bs off) (\<lambda>(rows, off).
         Inr (\<lparr>rp_ok = ok, rp_error = error, rp_result = \<lparr>qr_ok = result_ok, qr_error = result_error, qr_columns = columns,
                qr_rows = rows, qr_affected_rows = affected\<rparr>\<rparr>, off)))))))))) of
       Inl _ \<Rightarrow> None
     | Inr (resp, off) \<Rightarrow> if off = length bs then Some resp else None)"

subsection \<open>Sockets\<close>

datatype transfer = Moves nat | Fails

record socket =
  sk_in :: bytes
  sk_out :: bytes
  sk_schedule :: "transfer list"

definition next_transfer :: "nat \<Rightarrow> socket \<Rightarrow> nat option \<times> socket" where
  "next_transfer n sk = (case sk_schedule sk of
       [] \<Rightarrow> (Some n, sk)
     | t # ts \<Rightarrow> (case t of Moves k \<Rightarrow> Some (min k n) | Fails \<Rightarrow> None, sk\<lparr>sk_schedule := ts\<rparr>))"

text \<open>One call of \<^verbatim>\<open>::send\<close> or \<^verbatim>\<open>::recv\<close>: the number of bytes moved, \<open>None\<close> for \<^verbatim>\<open>-1\<close>.\<close>

definition sock_send :: "bytes \<Rightarrow> socket \<Rightarrow> nat option \<times> socket" where
  "sock_send data sk = (case next_transfer (length data) sk of
       (None, sk') \<Rightarrow> (None, sk')
     | (Some k, sk') \<Rightarrow> (Some k, sk'\<lparr>sk_out := sk_out sk' @ take k data\<rparr>))"

definition sock_recv :: "nat \<Rightarrow> socket \<Rightarrow> bytes option \<times> socket" where
  "sock_recv n sk = (case next_transfer (min n (length (sk_in sk))) sk of
       (None, sk') \<Rightarrow> (None, sk')
     | (Some k, sk') \<Rightarrow> (Some (take k (sk_in sk')), sk'\<lparr>sk_in := drop k (sk_in sk')\<rparr>))"

text \<open>The loops end since a call that moves nothing makes them return.\<close>

function SendAll :: "bytes \<Rightarrow> socket \<Rightarrow> bool \<times> socket" where
  "SendAll data sk =
     (if data = [] then (True, sk)
      else case sock_send data sk of
        (None, sk') \<Rightarrow> (False, sk')
      | (Some k, sk') \<Rightarrow> if k = 0 then (False, sk') else SendAll (drop k data) sk')"
  by pat_completeness auto
termination by (relation "measure (length \<circ> fst)") (auto split: if_splits)

function RecvAll :: "nat \<Rightarrow> socket \<Rightarrow> bytes option \<times> socket" where
  "RecvAll len sk =
     (if len = 0 then (Some [], sk)
      else case sock_recv len sk of
        (None, sk') \<Rightarrow> (None, sk')
      | (Some bs, sk') \<Rightarrow> if bs = [] then (None, sk')
          else case RecvAll (len - length bs) sk' of
            (None, sk'') \<Rightarrow> (None, sk'') | (Some rest, sk'') \<Rightarrow> (Some (bs @ rest), sk''))"
  by pat_completeness auto
termination by (relation "measure fst") auto

declare SendAll.simps [simp del] RecvAll.simps [simp del]

text \<open>
  The conversion of a 32-bit length to \<^verbatim>\<open>int\<close>: a length with the sign bit set makes \<open>RecvAll\<close> return at once, and the
  buffer keeps the zeros it was created with.
\<close>

definition RecvBody :: "nat \<Rightarrow> socket \<Rightarrow> bytes option \<times> socket" where
  "RecvBody len sk = (if len < 2 ^ 31 then RecvAll len sk else (Some (replicate len 0), sk))"

text \<open>The body of \<^verbatim>\<open>TcpClient::Send\<close> once the connection is established, and of the connection thread of \<^verbatim>\<open>TcpServer\<close>.\<close>

definition client_request :: "Request \<Rightarrow> socket \<Rightarrow> unit result \<times> socket" where
  "client_request req sk =
     (let req_data = SerializeRequest req in
      case SendAll (le_bytes 4 (length req_data)) sk of
        (False, sk) \<Rightarrow> (Inl kNetworkError, sk)
      | (True, sk) \<Rightarrow> (case SendAll req_data sk of
          (False, sk) \<Rightarrow> (Inl kNetworkError, sk)
        | (True, sk) \<Rightarrow> (Inr (), sk)))"

definition client_response :: "socket \<Rightarrow> Response result \<times> socket" where
  "client_response sk =
     (case RecvAll 4 sk of
        (None, sk) \<Rightarrow> (Inl kNetworkError, sk)
      | (Some len, sk) \<Rightarrow> (case RecvBody (le_nat len) sk of
          (None, sk) \<Rightarrow> (Inl kNetworkError, sk)
        | (Some resp_data, sk) \<Rightarrow> (case DeserializeResponse resp_data of
            None \<Rightarrow> (Inl kNetworkError, sk) | Some resp \<Rightarrow> (Inr resp, sk))))"

definition TcpClient_Send :: "Request \<Rightarrow> (socket, Response) stm" where
  "TcpClient_Send req = bindS (client_request req) (\<lambda>_. client_response)"

record Session =
  ss_client_id :: string
  ss_remote_addr :: string

definition session_of :: "string \<Rightarrow> Request \<Rightarrow> Session" where
  "session_of remote req = \<lparr>ss_client_id = rq_request_id req, ss_remote_addr = remote\<rparr>"

text \<open>The handler works on the state of the service; \<open>remote\<close> is the peer's address as \<^verbatim>\<open>inet_ntop\<close> prints it.\<close>

definition bad_request :: Response where
  "bad_request = \<lparr>rp_ok = False, rp_error = ''failed to deserialize request'', rp_result = empty_result\<rparr>"

definition serve_connection :: "string \<Rightarrow> (Session \<Rightarrow> Request \<Rightarrow> 's \<Rightarrow> Response \<times> 's) \<Rightarrow> 's \<Rightarrow> socket \<Rightarrow> 's \<times> socket" where
  "serve_connection remote handler s sk =
     (case RecvAll 4 sk of
        (None, sk) \<Rightarrow> (s, sk)
      | (Some len, sk) \<Rightarrow> (case RecvBody (le_nat len) sk of
          (None, sk) \<Rightarrow> (s, sk)
        | (Some req_data, sk) \<Rightarrow>
            (case (case DeserializeRequest req_data of None \<Rightarrow> (bad_request, s) | Some req \<Rightarrow> handler (session_of remote req) req s) of
              (resp, s) \<Rightarrow>
                let resp_data = SerializeResponse resp in
                case SendAll (le_bytes 4 (length resp_data)) sk of
                  (False, sk) \<Rightarrow> (s, sk)
                | (True, sk) \<Rightarrow> (s, snd (SendAll resp_data sk)))))"

subsection \<open>Messages round trip\<close>

definition request_wf :: "Request \<Rightarrow> bool" where
  "request_wf req \<longleftrightarrow> length (rq_request_id req) < 2 ^ 32 \<and> length (rq_database req) < 2 ^ 32 \<and> length (rq_sql req) < 2 ^ 32 \<and>
     length (rq_auth_token req) < 2 ^ 32"

definition response_wf :: "Response \<Rightarrow> bool" where
  "response_wf resp \<longleftrightarrow> (case rp_result resp of r \<Rightarrow> length (rp_error resp) < 2 ^ 32 \<and> length (qr_error r) < 2 ^ 32 \<and>
     qr_affected_rows r < 2 ^ 32 \<and> length (qr_columns r) < 2 ^ 32 \<and> list_all (\<lambda>c. length c < 2 ^ 32) (qr_columns r) \<and>
     length (qr_rows r) < 2 ^ 32 \<and> list_all tuple_wf (qr_rows r))"

lemma request_roundtrip: "request_wf req \<Longrightarrow> DeserializeRequest (SerializeRequest req) = Some req"
proof -
  assume wf: "request_wf req"
  let ?rd = "\<lambda>bs off. bindR (ReadString bs off) (\<lambda>(request_id, off).
       bindR (ReadString bs off) (\<lambda>(database, off).
       bindR (ReadString bs off) (\<lambda>(sql, off).
       bindR (ReadString bs off) (\<lambda>(auth_token, off).
         Inr (\<lparr>rq_request_id = request_id, rq_database = database, rq_sql = sql, rq_auth_token = auth_token\<rparr>, off)))))"
  have "decodes ?rd (enc_string (rq_request_id req) @ enc_string (rq_database req) @ enc_string (rq_sql req) @ enc_string (rq_auth_token req) @ []) req"
    using wf by (intro decodes_intros) (auto simp: request_wf_def)
  then have "decodes ?rd (SerializeRequest req) req" by (simp add: SerializeRequest_def writer_appends)
  from decodes_self [OF this] show ?thesis by (simp add: DeserializeRequest_def)
qed

lemma response_roundtrip: "response_wf resp \<Longrightarrow> DeserializeResponse (SerializeResponse resp) = Some resp"
proof -
  assume wf: "response_wf resp"
  let ?r = "rp_result resp"
  let ?rd = "\<lambda>bs off. bindR (ReadBool bs off) (\<lambda>(ok, off).
       bindR (ReadString bs off) (\<lambda>(error, off).
       bindR (ReadBool bs off) (\<lambda>(result_ok, off).
       bindR (ReadString bs off) (\<lambda>(result_error, off).
       bindR (ReadUint32 bs off) (\<lambda>(affected, off).
       bindR (ReadUint32 bs off) (\<lambda>(col_count, off).
       bindR (read_n ReadString col_count bs off) (\<lambda>(columns, off).
       bindR (ReadUint32 bs off) (\<lambda>(row_count, off).
       bindR (read_n DeserializeTuple row_count bs off) (\<lambda>(rows, off).
         Inr (\<lparr>rp_ok = ok, rp_error = error, rp_result = \<lparr>qr_ok = result_ok, qr_error = result_error, qr_columns = columns,
                qr_rows = rows, qr_affected_rows = affected\<rparr>\<rparr>, off))))))))))"
  have "decodes ?rd (enc_bool (rp_ok resp) @ enc_string (rp_error resp) @ enc_bool (qr_ok ?r) @ enc_string (qr_error ?r) @
      le_bytes 4 (qr_affected_rows ?r) @ le_bytes 4 (length (qr_columns ?r)) @ concat (map enc_string (qr_columns ?r)) @
      le_bytes 4 (length (qr_rows ?r)) @ concat (map enc_tuple (qr_rows ?r)) @ []) resp"
    using wf by (intro decodes_intros) (auto simp: response_wf_def list_all_iff intro: decodes_string decodes_tuple)
  moreover have "fold (\<lambda>col buffer. WriteString buffer col) cs buf = buf @ concat (map enc_string cs)" for cs buf
    by (rule fold_appends) (simp add: writer_appends)
  moreover have "fold SerializeTuple ts buf = buf @ concat (map enc_tuple ts)" for ts buf
    by (rule fold_appends) (simp add: SerializeTuple_appends)
  ultimately have "decodes ?rd (SerializeResponse resp) resp" by (simp add: SerializeResponse_def writer_appends Let_def)
  from decodes_self [OF this] show ?thesis by (simp add: DeserializeResponse_def)
qed


subsection \<open>The loops under every schedule\<close>

lemma next_transfer_facts:
  "next_transfer n sk = (r, sk') \<Longrightarrow> sk_in sk' = sk_in sk \<and> sk_out sk' = sk_out sk \<and> (\<forall>k. r = Some k \<longrightarrow> k \<le> n)"
  by (auto simp: next_transfer_def split: list.splits transfer.splits)

lemma SendAll_spec:
  "SendAll data sk = (ok, sk') \<Longrightarrow> sk_in sk' = sk_in sk \<and> (\<exists>k. sk_out sk' = sk_out sk @ take k data) \<and> (ok \<longrightarrow> sk_out sk' = sk_out sk @ data)"
proof (induction data sk rule: SendAll.induct)
  case (1 data sk)
  show ?case
  proof (cases "data = []")
    case True
    then show ?thesis using 1(2) by (simp add: SendAll.simps)
  next
    case False
    obtain r sk1 where n: "next_transfer (length data) sk = (r, sk1)" by fastforce
    note f = next_transfer_facts [OF n]
    show ?thesis
    proof (cases r)
      case None
      then have "sk' = sk1" "\<not> ok" using 1(2) False n by (auto simp: SendAll.simps [of data] sock_send_def)
      then show ?thesis using f by (auto intro: exI [of _ 0])
    next
      case (Some k)
      let ?sk2 = "sk1\<lparr>sk_out := sk_out sk1 @ take k data\<rparr>"
      have s: "sock_send data sk = (Some k, ?sk2)" using n Some by (simp add: sock_send_def)
      show ?thesis
      proof (cases "k = 0")
        case True
        then have "sk' = ?sk2" "\<not> ok" using 1(2) False s by (auto simp: SendAll.simps [of data])
        then show ?thesis using f by auto
      next
        case pos: False
        have r: "SendAll (drop k data) ?sk2 = (ok, sk')" using 1(2) False s pos by (simp add: SendAll.simps [of data])
        obtain j where IH: "sk_in sk' = sk_in ?sk2" "sk_out sk' = sk_out ?sk2 @ take j (drop k data)" "ok \<longrightarrow> sk_out sk' = sk_out ?sk2 @ drop k data"
          using 1(1) [OF False s [symmetric] refl pos r] by auto
        have "take k data @ take j (drop k data) = take (k + j) data" by (simp add: take_add)
        then have "sk_out sk' = sk_out sk @ take (k + j) data" using IH(2) f by simp
        then show ?thesis using IH f by auto
      qed
    qed
  qed
qed

lemma RecvAll_spec:
  "RecvAll len sk = (Some bs, sk') \<Longrightarrow> sk_in sk = bs @ sk_in sk' \<and> length bs = len \<and> sk_out sk' = sk_out sk"
proof (induction len sk arbitrary: bs sk' rule: RecvAll.induct)
  case (1 len sk)
  show ?case
  proof (cases "len = 0")
    case True
    then show ?thesis using 1(2) by (simp add: RecvAll.simps)
  next
    case False
    obtain r sk1 where n: "next_transfer (min len (length (sk_in sk))) sk = (r, sk1)" by fastforce
    note f = next_transfer_facts [OF n]
    obtain k where k: "r = Some k" "k \<le> len" "k \<le> length (sk_in sk)" using 1(2) False n f
      by (cases r) (auto simp: RecvAll.simps [of len] sock_recv_def)
    let ?sk2 = "sk1\<lparr>sk_in := drop k (sk_in sk1)\<rparr>"
    have s: "sock_recv len sk = (Some (take k (sk_in sk)), ?sk2)" using n k f by (simp add: sock_recv_def)
    have ne: "take k (sk_in sk) \<noteq> []" using 1(2) False s by (auto simp: RecvAll.simps [of len] split: if_splits)
    obtain rest where rest: "RecvAll (len - length (take k (sk_in sk))) ?sk2 = (Some rest, sk')" "bs = take k (sk_in sk) @ rest"
      using 1(2) False s ne by (auto simp: RecvAll.simps [of len] split: prod.splits option.splits)
    have "sk_in ?sk2 = rest @ sk_in sk' \<and> length rest = len - length (take k (sk_in sk)) \<and> sk_out sk' = sk_out ?sk2"
      by (rule 1(1) [OF False s [symmetric] refl ne rest(1)])
    then show ?thesis using rest(2) f k append_take_drop_id [of k "sk_in sk"] by simp
  qed
qed

lemma RecvAll_out: "RecvAll len sk = (r, sk') \<Longrightarrow> sk_out sk' = sk_out sk"
proof (induction len sk arbitrary: r sk' rule: RecvAll.induct)
  case (1 len sk)
  show ?case
  proof (cases "len = 0")
    case True
    then show ?thesis using 1(2) by (simp add: RecvAll.simps)
  next
    case False
    obtain x sk1 where n: "next_transfer (min len (length (sk_in sk))) sk = (x, sk1)" by fastforce
    note f = next_transfer_facts [OF n]
    obtain y sk2 where s: "sock_recv len sk = (y, sk2)" by fastforce
    then have o2: "sk_out sk2 = sk_out sk" using n f by (auto simp: sock_recv_def split: option.splits)
    show ?thesis
    proof (cases "y = None \<or> y = Some []")
      case True
      then show ?thesis using 1(2) False s o2 by (auto simp: RecvAll.simps [of len])
    next
      case more: False
      then obtain bs where y: "y = Some bs" "bs \<noteq> []" by auto
      obtain z sk3 where r: "RecvAll (len - length bs) sk2 = (z, sk3)" by fastforce
      have "sk' = sk3" using 1(2) False s y r by (auto simp: RecvAll.simps [of len] split: option.splits)
      then show ?thesis using 1(1) [OF False s [symmetric] y r] o2 by simp
    qed
  qed
qed

text \<open>A schedule without failures, in which every call moves something, lets the loops finish.\<close>

fun fair :: "transfer \<Rightarrow> bool" where
  "fair (Moves k) \<longleftrightarrow> 0 < k"
| "fair Fails \<longleftrightarrow> False"

lemma next_transfer_fair:
  assumes "list_all fair (sk_schedule sk)" "0 < n"
  obtains k sk' where "next_transfer n sk = (Some k, sk')" "0 < k" "k \<le> n" "list_all fair (sk_schedule sk')" "sk_in sk' = sk_in sk" "sk_out sk' = sk_out sk"
  using assms by (cases "sk_schedule sk"; cases "hd (sk_schedule sk)") (auto simp: next_transfer_def)

lemma SendAll_fair:
  "list_all fair (sk_schedule sk) \<Longrightarrow> \<exists>sk'. SendAll data sk = (True, sk') \<and> list_all fair (sk_schedule sk')"
proof (induction data sk rule: SendAll.induct)
  case (1 data sk)
  show ?case
  proof (cases "data = []")
    case True
    then show ?thesis using 1(2) by (simp add: SendAll.simps)
  next
    case False
    then have "0 < length data" by simp
    from next_transfer_fair [OF 1(2) this]
    obtain k sk1 where n: "next_transfer (length data) sk = (Some k, sk1)" "0 < k" "list_all fair (sk_schedule sk1)" by blast
    let ?sk2 = "sk1\<lparr>sk_out := sk_out sk1 @ take k data\<rparr>"
    have s: "sock_send data sk = (Some k, ?sk2)" using n by (simp add: sock_send_def)
    show ?thesis using 1(1) [OF False s [symmetric] refl] n False s by (simp add: SendAll.simps [of data])
  qed
qed

lemma RecvAll_fair:
  "list_all fair (sk_schedule sk) \<Longrightarrow> len \<le> length (sk_in sk) \<Longrightarrow>
    \<exists>bs sk'. RecvAll len sk = (Some bs, sk') \<and> list_all fair (sk_schedule sk')"
proof (induction len sk rule: RecvAll.induct)
  case (1 len sk)
  show ?case
  proof (cases "len = 0")
    case True
    then show ?thesis using 1(2) by (simp add: RecvAll.simps)
  next
    case False
    then have "0 < min len (length (sk_in sk))" using 1(3) by auto
    from next_transfer_fair [OF 1(2) this]
    obtain k sk1 where n: "next_transfer (min len (length (sk_in sk))) sk = (Some k, sk1)" "0 < k" "k \<le> min len (length (sk_in sk))"
      "list_all fair (sk_schedule sk1)" "sk_in sk1 = sk_in sk" by blast
    let ?sk2 = "sk1\<lparr>sk_in := drop k (sk_in sk1)\<rparr>"
    have s: "sock_recv len sk = (Some (take k (sk_in sk)), ?sk2)" using n by (simp add: sock_recv_def)
    have ne: "take k (sk_in sk) \<noteq> []" using n(2,3) by auto
    have "len - length (take k (sk_in sk)) \<le> length (sk_in ?sk2)" using n(3,5) 1(3) by simp
    then obtain rest sk' where "RecvAll (len - length (take k (sk_in sk))) ?sk2 = (Some rest, sk')" "list_all fair (sk_schedule sk')"
      using 1(1) [OF False s [symmetric] refl ne] n(4) by auto
    then show ?thesis using False s ne by (simp add: RecvAll.simps [of len])
  qed
qed

subsection \<open>A request and its response\<close>

definition frame :: "bytes \<Rightarrow> bytes" where
  "frame data = le_bytes 4 (length data) @ data"

definition conn :: "bytes \<Rightarrow> transfer list \<Rightarrow> socket" where
  "conn input ts = \<lparr>sk_in = input, sk_out = [], sk_schedule = ts\<rparr>"

lemma le_nat_len: "n < 2 ^ 32 \<Longrightarrow> le_nat (le_bytes 4 n) = n"
  by (simp add: le_nat_le_bytes)

text \<open>What a reader of a length and a body gets from a prefix of a frame: the body, or nothing.\<close>

lemma recv_frame:
  assumes "RecvAll 4 sk = (Some len, sk1)" "RecvBody (le_nat len) sk1 = (Some bs, sk2)"
    "sk_in sk = take k (frame data)" "length data < 2 ^ 31"
  shows "bs = data \<and> sk_out sk2 = sk_out sk"
proof -
  note r1 = RecvAll_spec [OF assms(1)]
  have "len = take 4 (sk_in sk)" "4 \<le> length (sk_in sk)" using r1 by auto
  then have len: "len = le_bytes 4 (length data)" "4 \<le> k" using assms(3) by (auto simp: frame_def min_def split: if_splits)
  have n: "le_nat len = length data" using len(1) le_nat_len [of "length data"] assms(4) by simp
  have r2: "sk_in sk1 = bs @ sk_in sk2" "length bs = length data" "sk_out sk2 = sk_out sk1"
    using RecvAll_spec [of "length data" sk1 bs sk2] assms(2,4) n by (simp_all add: RecvBody_def)
  have "sk_in sk1 = take (k - 4) data" using r1 len assms(3) by (simp add: frame_def)
  then have "bs @ sk_in sk2 = take (k - 4) data" using r2(1) by simp
  then have "bs = take (length bs) (take (k - 4) data)" by (metis append_eq_conv_conj)
  moreover have "length bs \<le> length (take (k - 4) data)" using \<open>bs @ sk_in sk2 = take (k - 4) data\<close> by (metis length_append le_add1)
  ultimately show ?thesis using r1 r2 by (simp add: min_def split: if_splits)
qed

lemma recv_frame_fair:
  assumes "list_all fair (sk_schedule sk)" "sk_in sk = frame data" "length data < 2 ^ 31"
  obtains len sk1 sk2 where "RecvAll 4 sk = (Some len, sk1)" "RecvBody (le_nat len) sk1 = (Some data, sk2)" "sk_out sk2 = sk_out sk"
    "list_all fair (sk_schedule sk2)"
proof -
  obtain len sk1 where r1: "RecvAll 4 sk = (Some len, sk1)" "list_all fair (sk_schedule sk1)"
    using RecvAll_fair [OF assms(1), of 4] assms(2) by (auto simp: frame_def)
  have l: "len = le_bytes 4 (length data)" "sk_in sk1 = data" using RecvAll_spec [OF r1(1)] assms(2) by (auto simp: frame_def)
  have n: "le_nat len = length data" using l(1) le_nat_len [of "length data"] assms(3) by simp
  obtain bs sk2 where r2: "RecvAll (length data) sk1 = (Some bs, sk2)" "list_all fair (sk_schedule sk2)"
    using RecvAll_fair [OF r1(2), of "length data"] l(2) by auto
  have "RecvBody (le_nat len) sk1 = (Some bs, sk2)" using r2(1) n assms(3) by (simp add: RecvBody_def)
  moreover have "bs = data" "sk_out sk2 = sk_out sk" using RecvAll_spec [OF r2(1)] RecvAll_spec [OF r1(1)] l(2) by auto
  ultimately show ?thesis using that r1(1) r2(2) by blast
qed

lemma reply_sends:
  assumes "SendAll (le_bytes 4 (length d)) sk = (ok, sk1)"
  shows "\<exists>k. sk_out (if ok then snd (SendAll d sk1) else sk1) = sk_out sk @ take k (frame d)"
proof (cases ok)
  case False
  obtain k where "sk_out sk1 = sk_out sk @ take k (le_bytes 4 (length d))" using SendAll_spec [OF assms] by blast
  then have "sk_out sk1 = sk_out sk @ take (min k 4) (frame d)" by (cases "k \<le> 4") (simp_all add: frame_def)
  then show ?thesis using False by auto
next
  case True
  obtain ok2 sk2 where s2: "SendAll d sk1 = (ok2, sk2)" by fastforce
  obtain k where "sk_out sk2 = sk_out sk1 @ take k d" using SendAll_spec [OF s2] by blast
  then have "sk_out sk2 = sk_out sk @ take (4 + k) (frame d)" using SendAll_spec [OF assms] True by (simp add: frame_def)
  then show ?thesis using True s2 by (auto simp del: take_append)
qed

lemma client_request_sends:
  assumes "client_request req sk = (r, sk')"
  shows "sk_in sk' = sk_in sk \<and> (\<exists>k. sk_out sk' = sk_out sk @ take k (frame (SerializeRequest req))) \<and>
    (r = Inr () \<longrightarrow> sk_out sk' = sk_out sk @ frame (SerializeRequest req))"
proof -
  let ?d = "SerializeRequest req"
  obtain ok sk1 where s1: "SendAll (le_bytes 4 (length ?d)) sk = (ok, sk1)" by fastforce
  obtain ok2 sk2 where s2: "SendAll ?d sk1 = (ok2, sk2)" by fastforce
  have eq: "sk' = (if ok then snd (SendAll ?d sk1) else sk1)" using assms s1 s2
    by (cases ok; cases ok2) (auto simp: client_request_def Let_def)
  have "sk_in sk' = sk_in sk" using eq SendAll_spec [OF s1] SendAll_spec [OF s2] s2 by simp
  moreover have "sk_out sk' = sk_out sk @ frame ?d" if "r = Inr ()"
    using that assms s1 s2 SendAll_spec [OF s1] SendAll_spec [OF s2] by (cases ok; cases ok2) (auto simp: client_request_def Let_def frame_def)
  ultimately show ?thesis using reply_sends [OF s1] eq by blast
qed

text \<open>
  C27: whatever is lost or cut off on the way, a request is handled as sent or not at all, and a response is received as sent or reported
  as a network error: a server that gets any prefix of the client's bytes changes its state at most as the handler does on this
  very request, and what it answers is a prefix of the framed response.
\<close>

theorem exchange_fault_safety:
  assumes req: "request_wf req" "length (SerializeRequest req) < 2 ^ 31"
    and srv: "sk_in sk = take k (frame (SerializeRequest req))" "sk_out sk = []" "serve_connection remote handler s sk = (s', sk')"
    and resp: "handler (session_of remote req) req s = (resp, s1)" "response_wf resp" "length (SerializeResponse resp) < 2 ^ 31"
    and cl: "sk_in cl = take j (sk_out sk')" "client_response cl = (r, cl')"
  shows "(s' = s \<or> s' = s1) \<and> (\<exists>i. sk_out sk' = take i (frame (SerializeResponse resp))) \<and> (r = Inr resp \<or> r = Inl kNetworkError)"
proof -
  let ?d = "SerializeResponse resp"
  have 1: "(s' = s \<and> sk_out sk' = []) \<or> (s' = s1 \<and> (\<exists>i. sk_out sk' = take i (frame ?d)))"
  proof (cases "\<exists>len sk1 bs sk2. RecvAll 4 sk = (Some len, sk1) \<and> RecvBody (le_nat len) sk1 = (Some bs, sk2)")
    case True
    then obtain len sk1 bs sk2 where r: "RecvAll 4 sk = (Some len, sk1)" "RecvBody (le_nat len) sk1 = (Some bs, sk2)" by blast
    have bs: "bs = SerializeRequest req" "sk_out sk2 = []" using recv_frame [OF r srv(1) req(2)] srv(2) by auto
    obtain ok sk3 where s1: "SendAll (le_bytes 4 (length ?d)) sk2 = (ok, sk3)" by fastforce
    have "serve_connection remote handler s sk = (s1, if ok then snd (SendAll ?d sk3) else sk3)"
      using r bs s1 resp(1) request_roundtrip [OF req(1)] by (cases ok) (simp_all add: serve_connection_def Let_def)
    then show ?thesis using reply_sends [OF s1] bs(2) srv(3) by auto
  next
    case False
    obtain o1 sk1 where r1: "RecvAll 4 sk = (o1, sk1)" by fastforce
    show ?thesis
    proof (cases o1)
      case None
      then show ?thesis using r1 srv(2,3) RecvAll_out [OF r1] by (auto simp: serve_connection_def)
    next
      case (Some len)
      then obtain sk2 where r2: "RecvBody (le_nat len) sk1 = (None, sk2)" using False r1 by (cases "RecvBody (le_nat len) sk1") auto
      then have "sk_out sk2 = sk_out sk" using RecvAll_out [OF r1] RecvAll_out [of "le_nat len" sk1] by (auto simp: RecvBody_def split: if_splits)
      then show ?thesis using r1 r2 Some srv(2,3) by (auto simp: serve_connection_def)
    qed
  qed
  then obtain i where i: "sk_out sk' = take i (frame ?d)" by (metis take0)
  then have in_cl: "sk_in cl = take (min j i) (frame ?d)" using cl(1) by (simp add: min.commute)
  have "r = Inr resp" if x: "r = Inr x" for x
  proof -
    obtain len c1 bs c2 where "RecvAll 4 cl = (Some len, c1)" "RecvBody (le_nat len) c1 = (Some bs, c2)" "DeserializeResponse bs = Some x"
      using cl(2) x by (auto simp: client_response_def split: prod.splits option.splits)
    then show ?thesis using recv_frame [OF _ _ in_cl resp(3)] response_roundtrip [OF resp(2)] x by fastforce
  qed
  moreover have "r = Inl kNetworkError" if "r = Inl e" for e
    using cl(2) that by (auto simp: client_response_def split: prod.splits option.splits)
  ultimately show ?thesis using 1 i by (cases r) auto
qed

text \<open>
  C26: when the connection stays up, a request is answered, however the two sides' calls cut the stream into pieces: the server runs the handler
  on exactly the request, and the client returns exactly its response.
\<close>

theorem exchange_delivers:
  assumes req: "request_wf req" "length (SerializeRequest req) < 2 ^ 31"
    and resp: "handler (session_of remote req) req s = (resp, s1)" "response_wf resp" "length (SerializeResponse resp) < 2 ^ 31"
    and fair: "list_all fair cts" "list_all fair sts"
  shows "\<exists>c1 sk c2. client_request req (conn [] cts) = (Inr (), c1) \<and>
    serve_connection remote handler s (conn (sk_out c1) sts) = (s1, sk) \<and>
    client_response (c1\<lparr>sk_in := sk_out sk\<rparr>) = (Inr resp, c2)"
proof -
  let ?q = "SerializeRequest req" and ?d = "SerializeResponse resp"
  obtain c0 where c0: "SendAll (le_bytes 4 (length ?q)) (conn [] cts) = (True, c0)" "list_all fair (sk_schedule c0)"
    using SendAll_fair [of "conn [] cts"] fair(1) by (auto simp: conn_def)
  obtain c1 where c1: "SendAll ?q c0 = (True, c1)" "list_all fair (sk_schedule c1)" using SendAll_fair [OF c0(2)] by blast
  have cr: "client_request req (conn [] cts) = (Inr (), c1)" using c0 c1 by (simp add: client_request_def Let_def)
  have out: "sk_out c1 = frame ?q" using client_request_sends [OF cr] by (simp add: conn_def)
  let ?s0 = "conn (frame ?q) sts"
  have f0: "list_all fair (sk_schedule ?s0)" "sk_in ?s0 = frame ?q" using fair(2) by (simp_all add: conn_def)
  obtain len k1 k2 where r: "RecvAll 4 ?s0 = (Some len, k1)" "RecvBody (le_nat len) k1 = (Some ?q, k2)" "sk_out k2 = sk_out ?s0" "list_all fair (sk_schedule k2)"
    by (rule recv_frame_fair [OF f0 req(2)])
  obtain k3 where k3: "SendAll (le_bytes 4 (length ?d)) k2 = (True, k3)" "list_all fair (sk_schedule k3)" using SendAll_fair [OF r(4)] by blast
  obtain k4 where k4: "SendAll ?d k3 = (True, k4)" using SendAll_fair [OF k3(2)] by blast
  have sv: "serve_connection remote handler s ?s0 = (s1, k4)"
    using r k3 k4 resp(1) request_roundtrip [OF req(1)] by (simp add: serve_connection_def Let_def)
  have o4: "sk_out k4 = frame ?d" using SendAll_spec [OF k3(1)] SendAll_spec [OF k4] r(3) by (simp add: conn_def frame_def)
  let ?c = "c1\<lparr>sk_in := frame ?d\<rparr>"
  have fc: "list_all fair (sk_schedule ?c)" "sk_in ?c = frame ?d" using c1(2) by simp_all
  obtain len' d1 d2 where r': "RecvAll 4 ?c = (Some len', d1)" "RecvBody (le_nat len') d1 = (Some ?d, d2)"
    by (rule recv_frame_fair [OF fc resp(3)])
  have "client_response ?c = (Inr resp, d2)" using r' response_roundtrip [OF resp(2)] by (simp add: client_response_def)
  then show ?thesis using cr sv out o4 by auto
qed

text \<open>A small exchange: a handler that counts requests, over connections that move a byte or three at a time.\<close>

definition demo_request :: Request where
  "demo_request = \<lparr>rq_request_id = ''r1'', rq_database = ''d'', rq_sql = ''SELECT'', rq_auth_token = []\<rparr>"

definition demo_handler :: "Session \<Rightarrow> Request \<Rightarrow> nat \<Rightarrow> Response \<times> nat" where
  "demo_handler session req n = (\<lparr>rp_ok = True, rp_error = [], rp_result = empty_result\<lparr>qr_affected_rows := 1\<rparr>\<rparr>, n + 1)"

lemma demo_exchange_facts: "request_wf demo_request" "length (SerializeRequest demo_request) < 2 ^ 31"
  "response_wf (fst (demo_handler (session_of ''10.0.0.1'' demo_request) demo_request 0))" "length (SerializeResponse (fst (demo_handler (session_of ''10.0.0.1'' demo_request) demo_request 0))) < 2 ^ 31"
  by (simp_all add: request_wf_def response_wf_def demo_request_def demo_handler_def empty_result_def SerializeRequest_def SerializeResponse_def
      writer_appends Let_def)

theorem exchange_delivers_witness:
  "request_wf demo_request \<and> list_all fair [Moves 1, Moves 3] \<and>
   (\<exists>c1 sk c2. client_request demo_request (conn [] [Moves 1, Moves 3]) = (Inr (), c1) \<and>
    serve_connection ''10.0.0.1'' demo_handler 0 (conn (sk_out c1) [Moves 2]) = (1, sk) \<and>
    client_response (c1\<lparr>sk_in := sk_out sk\<rparr>) = (Inr (fst (demo_handler (session_of ''10.0.0.1'' demo_request) demo_request 0)), c2))"
  using exchange_delivers [OF demo_exchange_facts(1,2) _ demo_exchange_facts(3,4), of demo_handler "''10.0.0.1''" 0 1 "[Moves 1, Moves 3]" "[Moves 2]"]
    demo_exchange_facts by (auto simp: demo_handler_def)

lemma demo_cut: "\<exists>sk. serve_connection ''10.0.0.1'' demo_handler 5 (conn (take 3 (frame (SerializeRequest demo_request))) []) = (5, sk) \<and> sk_out sk = []"
proof -
  let ?sk = "conn (take 3 (frame (SerializeRequest demo_request))) []"
  obtain o1 sk1 where r: "RecvAll 4 ?sk = (o1, sk1)" by fastforce
  have "length (sk_in ?sk) = 3" by (simp add: conn_def frame_def)
  then have "o1 = None" using RecvAll_spec [of 4 ?sk _ sk1] r by (cases o1) auto
  then show ?thesis using r RecvAll_out [OF r] by (simp add: serve_connection_def conn_def)
qed

theorem exchange_fault_safety_witness:
  "request_wf demo_request \<and> (\<exists>s' sk r cl. serve_connection ''10.0.0.1'' demo_handler 5 (conn (take 3 (frame (SerializeRequest demo_request))) []) = (s', sk) \<and>
     client_response (conn (sk_out sk) []) = (r, cl) \<and> (s' = 5 \<or> s' = 6) \<and>
     (r = Inr (fst (demo_handler (session_of ''10.0.0.1'' demo_request) demo_request 5)) \<or> r = Inl kNetworkError))"
proof -
  obtain sk where sk: "serve_connection ''10.0.0.1'' demo_handler 5 (conn (take 3 (frame (SerializeRequest demo_request))) []) = (5, sk)" "sk_out sk = []"
    using demo_cut by blast
  obtain r cl where cl: "client_response (conn (sk_out sk) []) = (r, cl)" by fastforce
  have h: "demo_handler (session_of ''10.0.0.1'' demo_request) demo_request 5 = (fst (demo_handler (session_of ''10.0.0.1'' demo_request) demo_request 0), 6)" by (simp add: demo_handler_def)
  have "sk_in (conn (sk_out sk) []) = take 0 (sk_out sk)" using sk(2) by (simp add: conn_def)
  then show ?thesis
    using exchange_fault_safety [OF demo_exchange_facts(1,2) _ _ sk(1) h demo_exchange_facts(3,4) _ cl, of 3 0] sk cl h demo_exchange_facts(1)
    by (auto simp: conn_def)
qed

end
