(* ===== verification/Metrics.thy ===== *)
theory Metrics
  imports Prelude "HOL-Library.Log_Nat"
begin

text \<open>
  Telemetry, \<^verbatim>\<open>src/telemetry/metrics.cpp\<close>: a node's request counters over a sliding window of one-second buckets, its latency
  window, the snapshot computed from them, and the aggregation over the nodes of a cluster. The clock readings are arguments. A
  \<^verbatim>\<open>double\<close> is a rational number; every arithmetic operation and conversion is the exact result rounded to 53 bits, ties to even.
  No operation here comes near the ends of the exponent range.
\<close>

subsection \<open>Floating-point arithmetic\<close>

type_synonym double = rat

definition round_half_even :: "rat \<Rightarrow> int" where
  "round_half_even x = (let f = \<lfloor>x\<rfloor>; d = x - of_int f in if d < 1 / 2 \<or> (d = 1 / 2 \<and> even f) then f else f + 1)"

definition exponent :: "rat \<Rightarrow> int" where
  "exponent x = (if 1 \<le> x then int (floorlog 2 (nat \<lfloor>x\<rfloor>)) - 1 else - int (floorlog 2 (nat (\<lceil>1 / x\<rceil> - 1))))"

definition ulp :: "rat \<Rightarrow> rat" where
  "ulp x = 2 powi (exponent \<bar>x\<bar> - 52)"

definition rnd :: "rat \<Rightarrow> double" where
  "rnd x = (if x = 0 then 0 else of_int (round_half_even (x / ulp x)) * ulp x)"

definition to_double :: "int \<Rightarrow> double" where
  "to_double i = rnd (of_int i)"

lemma round_half_even_bounds: "of_int (round_half_even x) \<le> x + 1 / 2" "x - 1 / 2 \<le> of_int (round_half_even x)"
  by (auto simp: round_half_even_def Let_def) linarith+

lemma round_half_even_mono:
  assumes "x \<le> y"
  shows "round_half_even x \<le> round_half_even y"
proof (cases "\<lfloor>x\<rfloor> = \<lfloor>y\<rfloor>")
  case True
  then show ?thesis using assms by (auto simp: round_half_even_def Let_def)
next
  case False
  then have "\<lfloor>x\<rfloor> + 1 \<le> \<lfloor>y\<rfloor>" using floor_mono [OF assms] by linarith
  then show ?thesis by (auto simp: round_half_even_def Let_def)
qed

lemma round_half_even_int [simp]: "round_half_even (of_int i) = i"
  by (simp add: round_half_even_def)

lemma round_half_even_minus: "round_half_even (- x) = - round_half_even x"
proof (cases "x = of_int \<lfloor>x\<rfloor>")
  case True
  then show ?thesis by (metis of_int_minus round_half_even_int)
next
  case False
  define f where "f = \<lfloor>x\<rfloor>"
  have m: "\<lfloor>- x\<rfloor> = - f - 1" using False unfolding f_def by linarith
  have "- x - of_int (- f - 1) = 1 - (x - of_int f)" by simp
  then show ?thesis unfolding round_half_even_def Let_def m f_def [symmetric] by auto
qed

lemma floorlog2: "0 < n \<Longrightarrow> 0 < floorlog 2 n \<and> 2 ^ (floorlog 2 n - 1) \<le> n \<and> n < 2 ^ floorlog 2 n"
  using floorlog_bounds [of n 2] by (auto simp: floorlog_def)

lemma exponent_bounds:
  assumes "0 < x"
  shows "2 powi exponent x \<le> x \<and> x < 2 powi (exponent x + 1)"
proof (cases "1 \<le> x")
  case True
  define n where "n = nat \<lfloor>x\<rfloor>"
  define k where "k = floorlog 2 n"
  have n: "0 < n" "of_nat n \<le> x" "x < of_nat n + 1" using True by (auto simp: n_def) linarith
  have k: "0 < k" "2 ^ (k - 1) \<le> n" "n + 1 \<le> 2 ^ k" using floorlog2 [OF n(1)] by (auto simp: k_def)
  have "(2::rat) ^ (k - 1) \<le> of_nat n" "of_nat (n + 1) \<le> (2::rat) ^ k" using k by (metis of_nat_le_iff of_nat_numeral of_nat_power)+
  then have "(2::rat) ^ (k - 1) \<le> x" "x < 2 ^ k" using n by linarith+
  moreover have "exponent x = int (k - 1)" "exponent x + 1 = int k" using True k by (simp_all add: exponent_def k_def n_def)
  ultimately show ?thesis by (simp only: power_int_of_nat)
next
  case False
  define n where "n = nat (\<lceil>1 / x\<rceil> - 1)"
  define k where "k = floorlog 2 n"
  have x1: "1 < 1 / x" using assms False by simp
  then have "1 < \<lceil>1 / x\<rceil>" by linarith
  then have n: "0 < n" "of_nat n < 1 / x" "1 / x \<le> of_nat n + 1" by (auto simp: n_def) linarith+
  have k: "0 < k" "2 ^ (k - 1) \<le> n" "n + 1 \<le> 2 ^ k" using floorlog2 [OF n(1)] by (auto simp: k_def)
  have "(2::rat) ^ (k - 1) \<le> of_nat n" "of_nat (n + 1) \<le> (2::rat) ^ k" using k by (metis of_nat_le_iff of_nat_numeral of_nat_power)+
  then have b: "(2::rat) ^ (k - 1) < 1 / x" "1 / x \<le> 2 ^ k" using n by linarith+
  have e: "exponent x = - int k" "exponent x + 1 = - int (k - 1)" using False k by (simp_all add: exponent_def k_def n_def)
  have "1 / 2 ^ k \<le> x" "x < 1 / 2 ^ (k - 1)" using b assms by (simp_all add: field_simps)
  moreover have "(2::rat) powi exponent x = 1 / 2 ^ k" unfolding e(1) by (simp add: power_int_minus inverse_eq_divide)
  moreover have "(2::rat) powi (exponent x + 1) = 1 / 2 ^ (k - 1)"
    unfolding e(2) by (simp only: power_int_minus power_int_of_nat inverse_eq_divide)
  ultimately show ?thesis by simp
qed

lemma exponent_less: "0 < x \<Longrightarrow> x < 2 powi e \<Longrightarrow> exponent x < e"
proof (rule ccontr)
  assume "0 < x" "x < 2 powi e" "\<not> exponent x < e"
  then have "(2::rat) powi e \<le> 2 powi exponent x" by (intro power_int_increasing) auto
  then show False using exponent_bounds [OF \<open>0 < x\<close>] \<open>x < 2 powi e\<close> by linarith
qed

lemma exponent_mono: "0 < x \<Longrightarrow> x \<le> y \<Longrightarrow> exponent x \<le> exponent y"
  using exponent_less [of x "exponent y + 1"] exponent_bounds [of y] by fastforce

lemma ulp_pos [simp]: "0 < ulp x" "0 \<le> ulp x" "ulp x \<noteq> 0" by (simp_all add: ulp_def)

lemma rnd_pos_bounds:
  assumes "0 < x"
  shows "2 powi exponent x \<le> rnd x \<and> rnd x \<le> 2 powi (exponent x + 1)"
proof -
  let ?u = "ulp x"
  have u: "?u = 2 powi (exponent x - 52)" using assms by (simp add: ulp_def)
  have lo: "2 powi exponent x = of_int (2 ^ 52) * ?u" and hi: "2 powi (exponent x + 1) = of_int (2 ^ 53) * ?u"
    unfolding u by (simp_all add: power_int_diff power_int_add)
  have "of_int (2 ^ 52) \<le> x / ?u" "x / ?u \<le> of_int (2 ^ 53)"
    using exponent_bounds [OF assms] unfolding lo hi by (simp_all add: le_divide_eq divide_le_eq del: of_int_power)
  then have "2 ^ 52 \<le> round_half_even (x / ?u)" "round_half_even (x / ?u) \<le> 2 ^ 53"
    using round_half_even_mono round_half_even_int by metis+
  then have "of_int (2 ^ 52) * ?u \<le> of_int (round_half_even (x / ?u)) * ?u" "of_int (round_half_even (x / ?u)) * ?u \<le> of_int (2 ^ 53) * ?u"
    by (intro mult_right_mono, simp_all only: of_int_le_iff, simp_all add: less_imp_le)+
  then show ?thesis using assms unfolding lo hi by (simp add: rnd_def)
qed

lemma rnd_mono_pos:
  assumes "0 < x" "x \<le> y"
  shows "rnd x \<le> rnd y"
proof (cases "exponent x = exponent y")
  case True
  then have u: "ulp x = ulp y" using assms by (simp add: ulp_def)
  have "x / ulp y \<le> y / ulp y" using assms by (simp add: divide_right_mono)
  then have "round_half_even (x / ulp y) \<le> round_half_even (y / ulp y)" by (rule round_half_even_mono)
  then show ?thesis using assms u by (simp add: rnd_def mult_right_mono)
next
  case False
  then have "(2::rat) powi (exponent x + 1) \<le> 2 powi exponent y" using exponent_mono [OF assms] by (intro power_int_increasing) auto
  then show ?thesis using rnd_pos_bounds [OF assms(1)] rnd_pos_bounds [of y] assms by linarith
qed

lemma rnd_zero [simp]: "rnd 0 = 0" by (simp add: rnd_def)

lemma rnd_minus: "rnd (- x) = - rnd x"
  by (simp add: rnd_def ulp_def round_half_even_minus)

lemma rnd_pos: "0 < x \<Longrightarrow> 0 < rnd x"
  using rnd_pos_bounds [of x] zero_less_power_int [of "2::rat" "exponent x"] by linarith

lemma rnd_mono: "x \<le> y \<Longrightarrow> rnd x \<le> rnd y"
proof -
  assume "x \<le> y"
  then consider "0 < x" | "x \<le> 0" "0 \<le> y" | "y < 0" by linarith
  then show ?thesis
  proof cases
    case 1 then show ?thesis using rnd_mono_pos \<open>x \<le> y\<close> by blast
  next
    case 2
    then have "rnd x \<le> 0" "0 \<le> rnd y" using rnd_pos [of "- x"] rnd_pos [of y] rnd_minus [of x] by (cases "x = 0"; cases "y = 0"; simp)+
    then show ?thesis by simp
  next
    case 3 then show ?thesis using rnd_mono_pos [of "- y" "- x"] \<open>x \<le> y\<close> rnd_minus by simp
  qed
qed

lemma rnd_int:
  assumes "\<bar>i\<bar> \<le> 2 ^ 53"
  shows "rnd (of_int i) = of_int i"
proof -
  have pos: "rnd (of_int n) = of_int n" if n: "0 < n" "n \<le> 2 ^ 53" for n :: int
  proof -
    let ?x = "of_int n :: rat"
    define e where "e = exponent ?x"
    have b: "2 powi e \<le> ?x" "?x < 2 powi (e + 1)" using exponent_bounds [of ?x] n by (simp_all add: e_def)
    have e0: "0 \<le> e" using floorlog2 [of "nat n"] n by (simp add: e_def exponent_def)
    have u: "ulp ?x = 2 powi (e - 52)" using n by (simp add: ulp_def e_def)
    show ?thesis
    proof (cases "e \<le> 52")
      case True
      then have "?x / ulp ?x = of_int (n * 2 ^ nat (52 - e))"
        unfolding u by (simp add: power_int_diff power_int_def field_simps flip: power_add)
      then have "of_int (round_half_even (?x / ulp ?x)) = ?x / ulp ?x" by (simp only: round_half_even_int)
      then show ?thesis using n by (simp add: rnd_def)
    next
      case False
      then have "(2::rat) powi 53 \<le> 2 powi e" by (intro power_int_increasing) auto
      then have "of_int (2 ^ 53) \<le> ?x" using b(1) by simp
      then have n53: "n = 2 ^ 53" using n(2) by (simp only: of_int_le_iff) 
      then have "e < 54" using exponent_less [of ?x 54] by (simp add: e_def)
      then have "e = 53" using False by simp
      then have "ulp ?x = 2" using u by simp
      moreover have "?x / 2 = of_int (2 ^ 52)" using n53 by simp
      ultimately show ?thesis using n53 round_half_even_int [of "2 ^ 52"] by (simp add: rnd_def del: round_half_even_int)
    qed
  qed
  show ?thesis
  proof (cases "0 < i")
    case True then show ?thesis using pos assms by simp
  next
    case False
    then show ?thesis using pos [of "- i"] assms rnd_minus [of "of_int i"] by (cases "i = 0") auto
  qed
qed

lemma to_double_int [simp]: "\<bar>i\<bar> \<le> 2 ^ 53 \<Longrightarrow> to_double i = of_int i"
  by (simp add: to_double_def rnd_int)


subsection \<open>Model\<close>

record MetricsSnapshot =
  ms_node_id :: string
  ms_rps_current :: double
  ms_rps_avg_10min :: double
  ms_rps_max_10min :: double
  ms_latency_avg_ms :: double
  ms_latency_p95_ms :: double
  ms_latency_p99_ms :: double
  ms_error_rate_1min :: double
  ms_total_requests :: nat
  ms_total_errors :: nat
  ms_snapshot_timestamp :: int

definition empty_snapshot :: MetricsSnapshot where
  "empty_snapshot = \<lparr>ms_node_id = [], ms_rps_current = 0, ms_rps_avg_10min = 0, ms_rps_max_10min = 0, ms_latency_avg_ms = 0,
     ms_latency_p95_ms = 0, ms_latency_p99_ms = 0, ms_error_rate_1min = 0, ms_total_requests = 0, ms_total_errors = 0,
     ms_snapshot_timestamp = 0\<rparr>"

record SecondBucket =
  sb_second_ts :: int
  sb_count :: nat
  sb_errors :: nat

record NodeMetrics =
  nm_node_id :: string
  nm_window_seconds :: int
  nm_buckets :: "SecondBucket list"
  nm_latency_buf :: "int list"
  nm_latency_ts :: "int list"
  nm_total_requests :: nat
  nm_total_errors :: nat

definition new_NodeMetrics :: "string \<Rightarrow> int \<Rightarrow> NodeMetrics" where
  "new_NodeMetrics node_id window_seconds = \<lparr>nm_node_id = node_id, nm_window_seconds = window_seconds, nm_buckets = [],
     nm_latency_buf = [], nm_latency_ts = [], nm_total_requests = 0, nm_total_errors = 0\<rparr>"

text \<open>Counters are 64 bits wide; a signed clock reading or duration is an \<open>int\<close>.\<close>

definition inc64 :: "nat \<Rightarrow> nat" where
  "inc64 n = (n + 1) mod 2 ^ 64"

definition AdvanceBuckets :: "int \<Rightarrow> NodeMetrics \<Rightarrow> NodeMetrics" where
  "AdvanceBuckets now_sec m =
     (let bs = nm_buckets m;
          bs = (if bs = [] \<or> sb_second_ts (last bs) < now_sec then bs @ [\<lparr>sb_second_ts = now_sec, sb_count = 0, sb_errors = 0\<rparr>] else bs);
          cutoff = now_sec - nm_window_seconds m
      in m\<lparr>nm_buckets := dropWhile (\<lambda>b. sb_second_ts b \<le> cutoff) bs\<rparr>)"

definition latency_window_seconds :: int where
  "latency_window_seconds = 10"

fun expire :: "int \<Rightarrow> int list \<Rightarrow> int list \<Rightarrow> int list \<times> int list" where
  "expire cutoff (t # ts) (d # ds) = (if t < cutoff then expire cutoff ts ds else (t # ts, d # ds))"
| "expire cutoff ts ds = (ts, ds)"

definition expire_latencies :: "int \<Rightarrow> NodeMetrics \<Rightarrow> NodeMetrics" where
  "expire_latencies now_ms m =
     (case expire (now_ms - latency_window_seconds * 1000) (nm_latency_ts m) (nm_latency_buf m) of
        (ts, ds) \<Rightarrow> m\<lparr>nm_latency_ts := ts, nm_latency_buf := ds\<rparr>)"

text \<open>\<^verbatim>\<open>buckets_.back()\<close> of an empty queue, which a window of no seconds leads to, is undefined: the result is \<open>None\<close>.\<close>

definition RecordRequest :: "int \<Rightarrow> bool \<Rightarrow> int \<Rightarrow> int \<Rightarrow> NodeMetrics \<Rightarrow> NodeMetrics option" where
  "RecordRequest duration_ms is_error now_sec now_ms m =
     (let m = m\<lparr>nm_total_requests := inc64 (nm_total_requests m)\<rparr>;
          m = (if is_error then m\<lparr>nm_total_errors := inc64 (nm_total_errors m)\<rparr> else m);
          m = AdvanceBuckets now_sec m
      in if nm_buckets m = [] then None
         else let b = last (nm_buckets m);
                  b = b\<lparr>sb_count := inc64 (sb_count b)\<rparr>;
                  b = (if is_error then b\<lparr>sb_errors := inc64 (sb_errors b)\<rparr> else b);
                  m = m\<lparr>nm_buckets := butlast (nm_buckets m) @ [b]\<rparr>;
                  m = m\<lparr>nm_latency_buf := nm_latency_buf m @ [duration_ms], nm_latency_ts := nm_latency_ts m @ [now_ms]\<rparr>
              in Some (expire_latencies now_ms m))"

definition sum64 :: "nat list \<Rightarrow> nat" where
  "sum64 ns = fold (\<lambda>n total. (total + n) mod 2 ^ 64) ns 0"

text \<open>The percentile index: the product is rounded and then cut off at the point.\<close>

definition pct_index :: "double \<Rightarrow> nat \<Rightarrow> nat" where
  "pct_index p n = nat \<lfloor>rnd (p * to_double (int (n - 1)))\<rfloor>"

definition pct :: "int list \<Rightarrow> double \<Rightarrow> double" where
  "pct sorted_buf p = to_double (sorted_buf ! pct_index p (length sorted_buf))"

definition latency_stats :: "int list \<Rightarrow> MetricsSnapshot \<Rightarrow> MetricsSnapshot" where
  "latency_stats buf snap =
     (if buf = [] then snap
      else let sorted_buf = sort buf; total = to_double (sum_list sorted_buf)
           in snap\<lparr>ms_latency_avg_ms := rnd (total / to_double (int (length sorted_buf))),
                   ms_latency_p95_ms := pct sorted_buf (rnd (95 / 100)), ms_latency_p99_ms := pct sorted_buf (rnd (99 / 100))\<rparr>)"

definition rps_stats :: "int \<Rightarrow> SecondBucket list \<Rightarrow> MetricsSnapshot \<Rightarrow> MetricsSnapshot" where
  "rps_stats now_sec bs snap =
     (let snap = snap\<lparr>ms_rps_current := to_double (int (if bs = [] then 0 else sb_count (last bs)))\<rparr>
      in if bs = [] then snap
         else let window_actual = max 1 (now_sec - sb_second_ts (hd bs) + 1);
                  total_in_window = sum64 (map sb_count bs);
                  max_in_sec = fold (\<lambda>b m. if sb_count b > m then sb_count b else m) bs 0
              in snap\<lparr>ms_rps_avg_10min := rnd (to_double (int total_in_window) / to_double window_actual),
                      ms_rps_max_10min := to_double (int max_in_sec)\<rparr>)"

definition error_rate :: "int \<Rightarrow> SecondBucket list \<Rightarrow> double" where
  "error_rate now_sec bs =
     (let recent = filter (\<lambda>b. sb_second_ts b \<ge> now_sec - 60) bs;
          errors_1min = sum64 (map sb_errors recent);
          total_1min = sum64 (map sb_count recent)
      in if total_1min > 0 then rnd (to_double (int errors_1min) / to_double (int total_1min)) else 0)"

definition Snapshot :: "int \<Rightarrow> int \<Rightarrow> NodeMetrics \<Rightarrow> MetricsSnapshot \<times> NodeMetrics" where
  "Snapshot now_sec now_ms m =
     (let m = AdvanceBuckets now_sec m;
          snap = empty_snapshot\<lparr>ms_node_id := nm_node_id m, ms_total_requests := nm_total_requests m,
            ms_total_errors := nm_total_errors m, ms_snapshot_timestamp := now_ms\<rparr>;
          snap = rps_stats now_sec (nm_buckets m) snap;
          m = expire_latencies now_ms m;
          snap = latency_stats (nm_latency_buf m) snap;
          snap = snap\<lparr>ms_error_rate_1min := error_rate now_sec (nm_buckets m)\<rparr>
      in (snap, m))"

type_synonym ClusterMetrics = "MetricsSnapshot list"

fun UpdateNode :: "MetricsSnapshot \<Rightarrow> ClusterMetrics \<Rightarrow> ClusterMetrics" where
  "UpdateNode snap [] = [snap]"
| "UpdateNode snap (existing # rest) =
     (if ms_node_id existing = ms_node_id snap then snap # rest else existing # UpdateNode snap rest)"

definition add_snapshot :: "MetricsSnapshot \<Rightarrow> MetricsSnapshot \<Rightarrow> MetricsSnapshot" where
  "add_snapshot s agg = agg\<lparr>
     ms_rps_current := rnd (ms_rps_current agg + ms_rps_current s),
     ms_rps_avg_10min := rnd (ms_rps_avg_10min agg + ms_rps_avg_10min s),
     ms_rps_max_10min := rnd (ms_rps_max_10min agg + ms_rps_max_10min s),
     ms_latency_avg_ms := rnd (ms_latency_avg_ms agg + ms_latency_avg_ms s),
     ms_latency_p95_ms := max (ms_latency_p95_ms agg) (ms_latency_p95_ms s),
     ms_latency_p99_ms := max (ms_latency_p99_ms agg) (ms_latency_p99_ms s),
     ms_error_rate_1min := rnd (ms_error_rate_1min agg + ms_error_rate_1min s),
     ms_total_requests := (ms_total_requests agg + ms_total_requests s) mod 2 ^ 64,
     ms_total_errors := (ms_total_errors agg + ms_total_errors s) mod 2 ^ 64\<rparr>"

definition Aggregate :: "ClusterMetrics \<Rightarrow> MetricsSnapshot" where
  "Aggregate snaps =
     (let agg = empty_snapshot\<lparr>ms_node_id := ''cluster''\<rparr>
      in if snaps = [] then agg
         else let agg = fold add_snapshot snaps agg; n = to_double (int (length snaps))
              in agg\<lparr>ms_latency_avg_ms := rnd (ms_latency_avg_ms agg / n), ms_error_rate_1min := rnd (ms_error_rate_1min agg / n)\<rparr>)"

subsection \<open>The state of a node is a function of its history\<close>

text \<open>
  The operations performed on a node, with their clock readings. The buckets are those of the seconds of the window in which some
  operation happened, each counting its requests; the latency queue holds the requests of the last ten seconds.
\<close>

datatype metrics_op = Recorded (op_sec: int) (op_ms: int) (op_duration: int) (op_error: bool) | Polled (op_sec: int) (op_ms: int)

fun is_request :: "metrics_op \<Rightarrow> bool" where
  "is_request (Recorded _ _ _ _) = True"
| "is_request (Polled _ _) = False"

fun is_failure :: "metrics_op \<Rightarrow> bool" where
  "is_failure (Recorded _ _ _ e) = e"
| "is_failure (Polled _ _) = False"

fun metrics_step :: "metrics_op \<Rightarrow> NodeMetrics option \<Rightarrow> NodeMetrics option" where
  "metrics_step (Recorded s t d e) (Some m) = RecordRequest d e s t m"
| "metrics_step (Polled s t) (Some m) = Some (snd (Snapshot s t m))"
| "metrics_step _ None = None"

definition count_ops :: "(metrics_op \<Rightarrow> bool) \<Rightarrow> metrics_op list \<Rightarrow> nat" where
  "count_ops P ops = length (filter P ops)"

definition bucket_of :: "metrics_op list \<Rightarrow> int \<Rightarrow> SecondBucket" where
  "bucket_of ops t = \<lparr>sb_second_ts = t, sb_count = count_ops (\<lambda>e. is_request e \<and> op_sec e = t) ops,
     sb_errors = count_ops (\<lambda>e. is_failure e \<and> op_sec e = t) ops\<rparr>"

definition seconds_of :: "metrics_op list \<Rightarrow> int list" where
  "seconds_of ops = sorted_list_of_set (op_sec ` set ops)"

definition tracks :: "metrics_op list \<Rightarrow> int \<Rightarrow> int \<Rightarrow> NodeMetrics \<Rightarrow> bool" where
  "tracks ops now_sec now_ms m \<longleftrightarrow>
     nm_buckets m = map (bucket_of ops) (filter (\<lambda>t. now_sec - nm_window_seconds m < t) (seconds_of ops)) \<and>
     (let recent = filter (\<lambda>e. is_request e \<and> now_ms - latency_window_seconds * 1000 \<le> op_ms e) ops
      in nm_latency_ts m = map op_ms recent \<and> nm_latency_buf m = map op_duration recent) \<and>
     nm_total_requests m = count_ops is_request ops \<and> nm_total_errors m = count_ops is_failure ops"

definition chronological :: "metrics_op list \<Rightarrow> bool" where
  "chronological ops \<longleftrightarrow> sorted (map op_sec ops) \<and> sorted (map op_ms ops)"

lemma count_ops_snoc: "count_ops P (ops @ [e]) = count_ops P ops + (if P e then 1 else 0)"
  by (simp add: count_ops_def)

lemma count_ops_le: "count_ops P ops \<le> length ops"
  by (simp add: count_ops_def)

lemma seconds_snoc:
  assumes "\<forall>e'\<in>set ops. op_sec e' \<le> op_sec e"
  shows "seconds_of (ops @ [e]) = (if op_sec e \<in> op_sec ` set ops then seconds_of ops else seconds_of ops @ [op_sec e])"
proof (cases "op_sec e \<in> op_sec ` set ops")
  case True
  then show ?thesis by (simp add: seconds_of_def insert_absorb)
next
  case False
  have "sorted_wrt (<) (seconds_of ops @ [op_sec e])" using assms False
    by (auto simp: seconds_of_def sorted_wrt_append order_less_le strict_sorted_list_of_set) (metis image_eqI)
  then have "sorted_list_of_set (set (seconds_of ops @ [op_sec e])) = seconds_of ops @ [op_sec e]"
    by (simp only: strict_sorted_iff sorted_list_of_set.idem_if_sorted_distinct)
  then show ?thesis using False by (simp add: seconds_of_def)
qed

lemma dropWhile_filter: "sorted (map f xs) \<Longrightarrow> dropWhile (\<lambda>x. f x \<le> (c::int)) xs = filter (\<lambda>x. c < f x) xs"
  by (induction xs) (force intro!: filter_True [symmetric])+

lemma expire_filter:
  "sorted (map f xs) \<Longrightarrow> expire c (map f xs) (map g xs) = (map f (filter (\<lambda>x. c \<le> f x) xs), map g (filter (\<lambda>x. c \<le> f x) xs))"
proof (induction xs)
  case (Cons x xs)
  have "filter (\<lambda>x. c \<le> f x) xs = xs" if "c \<le> f x" using Cons.prems that by (intro filter_True) force
  then show ?case using Cons by auto
qed simp

lemma sorted_last: "sorted xs \<Longrightarrow> (x::int) \<in> set xs \<Longrightarrow> x \<le> last xs"
  by (induction xs) auto

lemma strict_seconds: "sorted_wrt (<) (seconds_of ops)" "set (seconds_of ops) = op_sec ` set ops"
  by (simp_all add: seconds_of_def strict_sorted_list_of_set)

lemma insert_eq_diff: "S = insert x B \<Longrightarrow> S = insert x A \<Longrightarrow> x \<notin> B \<Longrightarrow> B = A - {x}"
  by (metis Diff_insert_absorb insert_Diff_single Diff_insert0 Diff_empty insert_Diff insertI1)

lemma seconds_split:
  assumes "\<forall>e'\<in>set ops. op_sec e' \<le> op_sec e"
  obtains L where "seconds_of (ops @ [e]) = L @ [op_sec e]" "\<forall>t\<in>set L. t < op_sec e" "set L = op_sec ` set ops - {op_sec e}"
proof -
  let ?xs = "seconds_of (ops @ [e])"
  have x: "?xs \<noteq> []" "op_sec e \<in> set ?xs" using strict_seconds(2) [of "ops @ [e]"] by auto
  have "\<forall>t\<in>set ?xs. t \<le> op_sec e" using assms strict_seconds(2) [of "ops @ [e]"] by auto
  then have l: "last ?xs = op_sec e" using x sorted_last [OF _ x(2)] strict_seconds(1) [of "ops @ [e]"]
    by (metis last_in_set order_antisym strict_sorted_iff)
  then have sp: "?xs = butlast ?xs @ [op_sec e]" using append_butlast_last_id [OF x(1)] by simp
  then have lt: "\<forall>t\<in>set (butlast ?xs). t < op_sec e" using strict_seconds(1) [of "ops @ [e]"] by (metis sorted_wrt_append list.set_intros(1))
  have "set ?xs = insert (op_sec e) (set (butlast ?xs))" by (subst sp) simp
  moreover have "set ?xs = insert (op_sec e) (op_sec ` set ops)" using strict_seconds(2) [of "ops @ [e]"] by simp
  moreover have "op_sec e \<notin> set (butlast ?xs)" using lt by blast
  ultimately have "set (butlast ?xs) = op_sec ` set ops - {op_sec e}" by (rule insert_eq_diff)
  then show thesis by (rule that [OF sp lt])
qed

lemma bucket_of_other: "t \<noteq> op_sec e \<Longrightarrow> bucket_of (ops @ [e]) t = bucket_of ops t"
  by (simp add: bucket_of_def count_ops_def)

lemma AdvanceBuckets_tracks:
  assumes "tracks ops s0 t0 m" "\<forall>e'\<in>set ops. op_sec e' \<le> op_sec e" "s0 \<le> op_sec e" "0 < nm_window_seconds m"
  shows "nm_buckets (AdvanceBuckets (op_sec e) m) =
    map (bucket_of ops) (filter (\<lambda>t. op_sec e - nm_window_seconds m < t) (seconds_of (ops @ [e])))"
proof -
  let ?w = "nm_window_seconds m" and ?s = "op_sec e"
  define F where "F = filter (\<lambda>t. s0 - ?w < t) (seconds_of ops)"
  have bs: "nm_buckets m = map (bucket_of ops) F" using assms(1) by (simp add: tracks_def F_def)
  have F: "sorted F" "set F = {t \<in> op_sec ` set ops. s0 - ?w < t}" using strict_seconds [of ops]
    by (auto simp: F_def strict_sorted_iff sorted_wrt_filter)
  have ts: "sb_second_ts (bucket_of ops t) = t" for t by (simp add: bucket_of_def)
  have in_iff: "(F = [] \<or> last F < ?s) \<longleftrightarrow> ?s \<notin> op_sec ` set ops"
  proof (cases "?s \<in> op_sec ` set ops")
    case True
    then have "?s \<in> set F" using F(2) assms(3,4) by auto
    then show ?thesis using True sorted_last [OF F(1)] by fastforce
  next
    case False
    have "t < ?s" if t: "t \<in> set F" for t
    proof -
      obtain e' where "e' \<in> set ops" "t = op_sec e'" using t F(2) by auto
      then show ?thesis using assms(2) False by (metis image_eqI order_less_le)
    qed
    then show ?thesis using False by (cases "F = []") simp_all
  qed
  have zero: "bucket_of ops ?s = \<lparr>sb_second_ts = ?s, sb_count = 0, sb_errors = 0\<rparr>" if "?s \<notin> op_sec ` set ops"
    using that by (auto simp: bucket_of_def count_ops_def filter_empty_conv) (metis image_eqI)+
  define G where "G = (if ?s \<in> op_sec ` set ops then F else F @ [?s])"
  have "(if nm_buckets m = [] \<or> sb_second_ts (last (nm_buckets m)) < ?s
         then nm_buckets m @ [\<lparr>sb_second_ts = ?s, sb_count = 0, sb_errors = 0\<rparr>] else nm_buckets m) = map (bucket_of ops) G"
    using in_iff zero by (auto simp: bs G_def last_map ts)
  then have "nm_buckets (AdvanceBuckets ?s m) = dropWhile (\<lambda>b. sb_second_ts b \<le> ?s - ?w) (map (bucket_of ops) G)"
    by (simp only: AdvanceBuckets_def Let_def) simp
  also have "\<dots> = map (bucket_of ops) (dropWhile (\<lambda>t. t \<le> ?s - ?w) G)" by (simp add: dropWhile_map comp_def ts)
  also have "dropWhile (\<lambda>t. t \<le> ?s - ?w) G = filter (\<lambda>t. ?s - ?w < t) G"
  proof (rule dropWhile_filter)
    show "sorted (map (\<lambda>t. t) G)" using F assms(2) by (auto simp: G_def sorted_append)
  qed
  also have "\<dots> = filter (\<lambda>t. ?s - ?w < t) (seconds_of (ops @ [e]))"
    using assms(3) by (auto simp: G_def F_def seconds_snoc [OF assms(2)] intro!: filter_cong)
  finally show ?thesis .
qed

lemma expire_tracks:
  assumes "nm_latency_ts m = map op_ms xs" "nm_latency_buf m = map op_duration xs" "sorted (map op_ms xs)"
    "xs = filter (\<lambda>e. is_request e \<and> c0 \<le> op_ms e) ops" "c0 \<le> now_ms - latency_window_seconds * 1000"
  shows "expire_latencies now_ms m = m\<lparr>
    nm_latency_ts := map op_ms (filter (\<lambda>e. is_request e \<and> now_ms - latency_window_seconds * 1000 \<le> op_ms e) ops),
    nm_latency_buf := map op_duration (filter (\<lambda>e. is_request e \<and> now_ms - latency_window_seconds * 1000 \<le> op_ms e) ops)\<rparr>"
proof -
  let ?c = "now_ms - latency_window_seconds * 1000"
  have "filter (\<lambda>x. ?c \<le> op_ms x) xs = filter (\<lambda>e. is_request e \<and> ?c \<le> op_ms e) ops"
    unfolding assms(4) using assms(5) by (auto intro!: filter_cong)
  then show ?thesis using assms(1,2) expire_filter [OF assms(3), of ?c op_duration] by (simp add: expire_latencies_def)
qed


lemma Advance_keeps: "AdvanceBuckets s m = m\<lparr>nm_buckets := nm_buckets (AdvanceBuckets s m)\<rparr>"
  by (simp add: AdvanceBuckets_def Let_def)

lemma Advance_upd: "AdvanceBuckets s (m\<lparr>nm_total_requests := a\<rparr>) = (AdvanceBuckets s m)\<lparr>nm_total_requests := a\<rparr>"
  "AdvanceBuckets s (m\<lparr>nm_total_errors := a\<rparr>) = (AdvanceBuckets s m)\<lparr>nm_total_errors := a\<rparr>"
  by (simp_all add: AdvanceBuckets_def Let_def)

lemma record_tracks:
  assumes tr: "tracks ops s0 t0 m" and chron: "chronological (ops @ [e])" and e: "e = Recorded s t d err"
    and now: "s0 \<le> s" "t0 \<le> t" and w: "0 < nm_window_seconds m" and len: "length (ops @ [e]) < 2 ^ 64"
  shows "\<exists>m'. RecordRequest d err s t m = Some m' \<and> tracks (ops @ [e]) s t m' \<and> nm_window_seconds m' = nm_window_seconds m"
proof -
  let ?w = "nm_window_seconds m" and ?c = "t - latency_window_seconds * 1000"
  have sec: "\<forall>e'\<in>set ops. op_sec e' \<le> op_sec e" using chron by (auto simp: chronological_def sorted_append)
  have se: "op_sec e = s" using e by simp
  have adv: "nm_buckets (AdvanceBuckets s m) = map (bucket_of ops) (filter (\<lambda>u. s - ?w < u) (seconds_of (ops @ [e])))"
    using AdvanceBuckets_tracks [OF tr sec _ w] now(1) e by simp
  obtain L where L: "seconds_of (ops @ [e]) = L @ [s]" "\<forall>u\<in>set L. u < s" "set L = op_sec ` set ops - {s}"
    using seconds_split [OF sec] unfolding se by blast
  let ?F = "filter (\<lambda>u. s - ?w < u) L"
  have adv2: "nm_buckets (AdvanceBuckets s m) = map (bucket_of ops) ?F @ [bucket_of ops s]" using adv L(1) w by simp
  have sm: "count_ops P ops < 2 ^ 64 - 1" for P using count_ops_le [of P ops] len by simp
  have inc: "inc64 (count_ops P ops) = count_ops P ops + 1" for P using sm [of P] by (simp add: inc64_def)
  have oth: "map (bucket_of (ops @ [e])) ?F = map (bucket_of ops) ?F" using L(2) e by (auto intro!: bucket_of_other)
  define b where "b = (let b = bucket_of ops s; b = b\<lparr>sb_count := inc64 (sb_count b)\<rparr> in if err then b\<lparr>sb_errors := inc64 (sb_errors b)\<rparr> else b)"
  have b: "b = bucket_of (ops @ [e]) s" using e inc by (auto simp: b_def bucket_of_def Let_def count_ops_snoc)
  let ?xs = "filter (\<lambda>e. is_request e \<and> t0 - latency_window_seconds * 1000 \<le> op_ms e) ops"
  define m1 where "m1 = m\<lparr>nm_total_requests := inc64 (nm_total_requests m), nm_total_errors := (if err then inc64 (nm_total_errors m) else nm_total_errors m),
    nm_buckets := map (bucket_of (ops @ [e])) (filter (\<lambda>u. s - ?w < u) (seconds_of (ops @ [e]))),
    nm_latency_buf := nm_latency_buf m @ [d], nm_latency_ts := nm_latency_ts m @ [t]\<rparr>"
  have r: "RecordRequest d err s t m = Some (expire_latencies t m1)"
  proof -
    have F: "map (bucket_of ops) ?F @ [b] = map (bucket_of (ops @ [e])) (filter (\<lambda>u. s - ?w < u) (seconds_of (ops @ [e])))"
      using L(1) w oth b by simp
    have A: "AdvanceBuckets s m = m\<lparr>nm_buckets := map (bucket_of ops) ?F @ [bucket_of ops s]\<rparr>"
      using Advance_keeps [of s m] unfolding adv2 .
    show ?thesis unfolding m1_def F [symmetric]
      by (cases err) (simp_all add: RecordRequest_def Let_def Advance_upd A b_def)
  qed
  have ex: "expire_latencies t m1 = m1\<lparr>
    nm_latency_ts := map op_ms (filter (\<lambda>e. is_request e \<and> ?c \<le> op_ms e) (ops @ [e])),
    nm_latency_buf := map op_duration (filter (\<lambda>e. is_request e \<and> ?c \<le> op_ms e) (ops @ [e]))\<rparr>"
  proof (rule expire_tracks)
    show xs: "?xs @ [e] = filter (\<lambda>e. is_request e \<and> t0 - latency_window_seconds * 1000 \<le> op_ms e) (ops @ [e])"
      using e now(2) by (simp add: latency_window_seconds_def)
    show "sorted (map op_ms (?xs @ [e]))" unfolding xs using chron by (intro sorted_filter) (simp only: chronological_def)
  qed (use tr e now(2) in \<open>simp_all add: m1_def tracks_def Let_def\<close>)
  have "tracks (ops @ [e]) s t (expire_latencies t m1)"
    using tr e inc unfolding ex by (auto simp: tracks_def m1_def Let_def count_ops_snoc)
  then show ?thesis using r ex by (auto simp: m1_def)
qed


lemma poll_tracks:
  assumes tr: "tracks ops s0 t0 m" and chron: "chronological (ops @ [e])" and e: "e = Polled s t"
    and now: "s0 \<le> s" "t0 \<le> t" and w: "0 < nm_window_seconds m"
  shows "tracks (ops @ [e]) s t (snd (Snapshot s t m)) \<and> nm_window_seconds (snd (Snapshot s t m)) = nm_window_seconds m"
proof -
  let ?w = "nm_window_seconds m" and ?c = "t - latency_window_seconds * 1000" and ?m = "AdvanceBuckets s m"
  have sec: "\<forall>e'\<in>set ops. op_sec e' \<le> op_sec e" using chron by (auto simp: chronological_def sorted_append)
  have same: "bucket_of (ops @ [e]) = bucket_of ops" using e by (auto simp: bucket_of_def count_ops_snoc)
  have adv: "nm_buckets ?m = map (bucket_of (ops @ [e])) (filter (\<lambda>u. s - ?w < u) (seconds_of (ops @ [e])))"
    using AdvanceBuckets_tracks [OF tr sec _ w] now(1) e unfolding same by simp
  have ex: "expire_latencies t ?m = ?m\<lparr>
    nm_latency_ts := map op_ms (filter (\<lambda>e. is_request e \<and> ?c \<le> op_ms e) ops),
    nm_latency_buf := map op_duration (filter (\<lambda>e. is_request e \<and> ?c \<le> op_ms e) ops)\<rparr>"
  proof (rule expire_tracks)
    show "sorted (map op_ms (filter (\<lambda>e. is_request e \<and> t0 - latency_window_seconds * 1000 \<le> op_ms e) ops))"
      using chron by (intro sorted_filter) (simp add: chronological_def sorted_append)
    show "t0 - latency_window_seconds * 1000 \<le> ?c" using now(2) by simp
  qed (use tr in \<open>simp_all add: AdvanceBuckets_def tracks_def Let_def\<close>)
  have m: "snd (Snapshot s t m) = expire_latencies t ?m" by (simp add: Snapshot_def Let_def)
  have k: "nm_window_seconds ?m = ?w" "nm_total_requests ?m = nm_total_requests m" "nm_total_errors ?m = nm_total_errors m"
    by (simp_all add: AdvanceBuckets_def Let_def)
  show ?thesis unfolding m ex using tr e adv k by (simp add: tracks_def Let_def count_ops_snoc)
qed

lemma fold_tracks:
  assumes "chronological ops" "0 < w" "length ops < 2 ^ 64" "\<forall>e\<in>set ops. op_sec e \<le> s \<and> op_ms e \<le> t"
  shows "\<exists>m s0 t0. fold metrics_step ops (Some (new_NodeMetrics n w)) = Some m \<and> tracks ops s0 t0 m \<and> s0 \<le> s \<and> t0 \<le> t \<and>
    nm_window_seconds m = w \<and> nm_node_id m = n"
  using assms
proof (induction ops arbitrary: s t rule: rev_induct)
  case Nil
  then show ?case by (intro exI conjI) (auto simp: new_NodeMetrics_def tracks_def seconds_of_def count_ops_def)
next
  case (snoc e ops)
  have prev: "\<forall>e'\<in>set ops. op_sec e' \<le> op_sec e \<and> op_ms e' \<le> op_ms e" "chronological ops"
    using snoc.prems(1) by (auto simp: chronological_def sorted_append)
  obtain m s0 t0 where m: "fold metrics_step ops (Some (new_NodeMetrics n w)) = Some m" "tracks ops s0 t0 m" "s0 \<le> op_sec e" "t0 \<le> op_ms e"
    "nm_window_seconds m = w" "nm_node_id m = n" using snoc.IH [OF prev(2) snoc.prems(2) _ prev(1)] snoc.prems(3) by auto
  have st: "op_sec e \<le> s" "op_ms e \<le> t" using snoc.prems(4) by auto
  show ?case
  proof (cases e)
    case (Recorded s1 t1 d err)
    then obtain m' where m': "RecordRequest d err s1 t1 m = Some m'" "tracks (ops @ [e]) s1 t1 m'" "nm_window_seconds m' = w"
      using record_tracks [OF m(2) snoc.prems(1) Recorded] m snoc.prems by auto
    have "nm_node_id m' = n" using m'(1) m(6)
      by (auto simp: RecordRequest_def Let_def expire_latencies_def AdvanceBuckets_def split: if_splits prod.splits)
    then show ?thesis using m m' st Recorded by auto
  next
    case (Polled s1 t1)
    then have m': "tracks (ops @ [e]) s1 t1 (snd (Snapshot s1 t1 m))" "nm_window_seconds (snd (Snapshot s1 t1 m)) = w"
      using poll_tracks [OF m(2) snoc.prems(1) Polled] m snoc.prems by auto
    have "nm_node_id (snd (Snapshot s1 t1 m)) = n" using m(6)
      by (auto simp: Snapshot_def Let_def expire_latencies_def AdvanceBuckets_def split: if_splits prod.splits)
    then show ?thesis using m m' st Polled by auto
  qed
qed


subsection \<open>What a snapshot reports\<close>

lemma count_ops_mono: "(\<And>e. P e \<Longrightarrow> Q e) \<Longrightarrow> count_ops P ops \<le> count_ops Q ops"
  unfolding count_ops_def by (induction ops) (auto intro: le_SucI)

lemma sum_counts:
  "distinct ts \<Longrightarrow> (\<Sum>t\<leftarrow>ts. count_ops (\<lambda>e. P e \<and> op_sec e = t) ops) = count_ops (\<lambda>e. P e \<and> op_sec e \<in> set ts) ops"
proof (induction ts)
  case (Cons t ts)
  have "count_ops (\<lambda>e. P e \<and> op_sec e \<in> set (t # ts)) ops =
    count_ops (\<lambda>e. P e \<and> op_sec e = t) ops + count_ops (\<lambda>e. P e \<and> op_sec e \<in> set ts) ops"
    using Cons.prems unfolding count_ops_def by (induction ops) auto
  then show ?case using Cons by simp
qed (simp add: count_ops_def)

lemma fold_sum64: "(a::nat) + sum_list ns < 2 ^ 64 \<Longrightarrow> fold (\<lambda>n total. (total + n) mod 2 ^ 64) ns a = a + sum_list ns"
  by (induction ns arbitrary: a) (auto simp: add.assoc)

lemma sum64_eq: "sum_list ns < 2 ^ 64 \<Longrightarrow> sum64 ns = sum_list ns"
  using fold_sum64 [of 0 ns] by (simp add: sum64_def)

lemma fold_max: "fold (\<lambda>b m. if f b > m then f b else m) bs (a::nat) = Max (insert a (f ` set bs))"
proof (induction bs arbitrary: a)
  case (Cons b bs)
  have "Max (insert a (insert (f b) (f ` set bs))) = Max (insert (max a (f b)) (f ` set bs))" by (cases "f ` set bs = {}") auto
  then show ?case using Cons by (auto simp: max_def)
qed simp

lemma sorted_hd_Min: "sorted xs \<Longrightarrow> xs \<noteq> [] \<Longrightarrow> hd xs = Min (set (xs :: int list))"
  by (cases xs) (auto intro!: Min_eqI [symmetric])

definition requests_at :: "metrics_op list \<Rightarrow> int \<Rightarrow> nat" where
  "requests_at ops t = count_ops (\<lambda>e. is_request e \<and> op_sec e = t) ops"

definition window_secs :: "metrics_op list \<Rightarrow> int \<Rightarrow> int \<Rightarrow> int set" where
  "window_secs ops w now_sec = insert now_sec {t \<in> op_sec ` set ops. now_sec - w < t}"

lemma snapshot_buckets:
  assumes "tracks ops s0 t0 m" "chronological ops" "\<forall>e\<in>set ops. op_sec e \<le> s \<and> op_ms e \<le> t" "s0 \<le> s" "0 < nm_window_seconds m"
  obtains ts where "nm_buckets (AdvanceBuckets s m) = map (bucket_of ops) ts" "sorted_wrt (<) ts" "last ts = s" "ts \<noteq> []"
    "set ts = window_secs ops (nm_window_seconds m) s"
proof -
  let ?e = "Polled s t" and ?w = "nm_window_seconds m"
  have sec: "\<forall>e'\<in>set ops. op_sec e' \<le> op_sec ?e" using assms(3) by simp
  obtain L where L: "seconds_of (ops @ [?e]) = L @ [s]" "set L = op_sec ` set ops - {s}" by (rule seconds_split [OF sec]) auto
  let ?ts = "filter (\<lambda>u. s - ?w < u) (seconds_of (ops @ [?e]))"
  show thesis
  proof (rule that [of ?ts])
    show "nm_buckets (AdvanceBuckets s m) = map (bucket_of ops) ?ts" using AdvanceBuckets_tracks [OF assms(1) sec _ assms(5)] assms(4) by simp
    show "sorted_wrt (<) ?ts" using strict_seconds(1) by (rule sorted_wrt_filter)
    show "last ?ts = s" "?ts \<noteq> []" using L(1) assms(5) by simp_all
    show "set ?ts = window_secs ops ?w s" using L assms(5) by (auto simp: window_secs_def)
  qed
qed

lemma rps_exact:
  assumes "bs = map (bucket_of ops) ts" "sorted_wrt (<) ts" "last ts = s" "ts \<noteq> []" "set ts = window_secs ops w s" "length ops < 2 ^ 64"
    "\<forall>e\<in>set ops. op_sec e \<le> s" "0 < w"
  shows "rps_stats s bs snap = snap\<lparr>ms_rps_current := to_double (requests_at ops s),
    ms_rps_avg_10min := rnd (to_double (count_ops (\<lambda>e. is_request e \<and> s - w < op_sec e) ops) / to_double (s - Min (window_secs ops w s) + 1)),
    ms_rps_max_10min := to_double (Max (requests_at ops ` window_secs ops w s))\<rparr>"
proof -
  have st: "sorted ts" "distinct ts" using assms(2) by (simp_all add: strict_sorted_iff)
  have hd: "sb_second_ts (hd bs) = Min (window_secs ops w s)" using assms(1,4,5) sorted_hd_Min [OF st(1)] by (simp add: hd_map bucket_of_def)
  have fin: "finite (window_secs ops w s)" "s \<in> window_secs ops w s" by (simp_all add: window_secs_def)
  then have "Min (window_secs ops w s) \<le> s" by (rule Min_le)
  then have win: "max 1 (s - Min (window_secs ops w s) + 1) = s - Min (window_secs ops w s) + 1" by simp
  have "(\<Sum>t\<leftarrow>ts. requests_at ops t) = count_ops (\<lambda>e. is_request e \<and> op_sec e \<in> set ts) ops" unfolding requests_at_def by (rule sum_counts [OF st(2)])
  also have "\<dots> = count_ops (\<lambda>e. is_request e \<and> s - w < op_sec e) ops"
    unfolding count_ops_def assms(5) using assms(8) by (auto simp: window_secs_def intro!: arg_cong [where f = length] filter_cong)
  finally have sum: "sum_list (map sb_count bs) = count_ops (\<lambda>e. is_request e \<and> s - w < op_sec e) ops"
    using assms(1) by (simp add: comp_def bucket_of_def requests_at_def)
  have tot: "sum64 (map sb_count bs) = count_ops (\<lambda>e. is_request e \<and> s - w < op_sec e) ops"
    using sum64_eq [of "map sb_count bs"] sum count_ops_le [of "\<lambda>e. is_request e \<and> s - w < op_sec e" ops] assms(6) by simp
  have "sb_count ` set bs = requests_at ops ` window_secs ops w s" using assms(1,5) by (simp add: image_image bucket_of_def requests_at_def)
  then have mx: "fold (\<lambda>b m. if sb_count b > m then sb_count b else m) bs 0 = Max (requests_at ops ` window_secs ops w s)"
    using fin by (simp add: fold_max Max_insert window_secs_def)
  have l: "sb_count (last bs) = requests_at ops s" using assms(1,3,4) by (simp add: last_map bucket_of_def requests_at_def)
  have "bs \<noteq> []" using assms(1,4) by simp
  then show ?thesis by (simp add: rps_stats_def Let_def hd win tot mx l)
qed

lemma error_rate_exact:
  assumes "bs = map (bucket_of ops) ts" "sorted_wrt (<) ts" "set ts = window_secs ops w s" "length ops < 2 ^ 64" "0 < w"
  shows "error_rate s bs = (let recent = \<lambda>e. s - w < op_sec e \<and> s - 60 \<le> op_sec e; n = count_ops (\<lambda>e. is_request e \<and> recent e) ops
    in if 0 < n then rnd (to_double (count_ops (\<lambda>e. is_failure e \<and> recent e) ops) / to_double n) else 0)"
proof -
  let ?us = "filter (\<lambda>t. s - 60 \<le> t) ts"
  have d: "distinct ?us" using assms(2) by (simp add: strict_sorted_iff)
  have f: "filter (\<lambda>b. sb_second_ts b \<ge> s - 60) bs = map (bucket_of ops) ?us" unfolding assms(1) by (simp add: filter_map comp_def bucket_of_def)
  have c: "(\<Sum>t\<leftarrow>?us. count_ops (\<lambda>e. P e \<and> op_sec e = t) ops) = count_ops (\<lambda>e. P e \<and> s - w < op_sec e \<and> s - 60 \<le> op_sec e) ops" for P
    unfolding sum_counts [OF d] unfolding count_ops_def using assms(3,5) by (auto simp: window_secs_def intro!: arg_cong [where f = length] filter_cong)
  have "sum64 (map (\<lambda>t. count_ops (\<lambda>e. P e \<and> op_sec e = t) ops) ?us) = count_ops (\<lambda>e. P e \<and> s - w < op_sec e \<and> s - 60 \<le> op_sec e) ops" for P
    using sum64_eq [of "map (\<lambda>t. count_ops (\<lambda>e. P e \<and> op_sec e = t) ops) ?us"] c [of P]
      count_ops_le [of "\<lambda>e. P e \<and> s - w < op_sec e \<and> s - 60 \<le> op_sec e" ops] assms(4) by simp
  from this [of is_request] this [of is_failure] show ?thesis by (simp add: error_rate_def f Let_def comp_def bucket_of_def)
qed


lemma latency_exact:
  assumes "tracks ops s0 t0 m" "chronological ops" "t0 \<le> t"
  shows "nm_latency_buf (expire_latencies t (AdvanceBuckets s m)) =
    map op_duration (filter (\<lambda>e. is_request e \<and> t - latency_window_seconds * 1000 \<le> op_ms e) ops)"
proof -
  have "expire_latencies t (AdvanceBuckets s m) = (AdvanceBuckets s m)\<lparr>
    nm_latency_ts := map op_ms (filter (\<lambda>e. is_request e \<and> t - latency_window_seconds * 1000 \<le> op_ms e) ops),
    nm_latency_buf := map op_duration (filter (\<lambda>e. is_request e \<and> t - latency_window_seconds * 1000 \<le> op_ms e) ops)\<rparr>"
  proof (rule expire_tracks)
    show "sorted (map op_ms (filter (\<lambda>e. is_request e \<and> t0 - latency_window_seconds * 1000 \<le> op_ms e) ops))"
      using assms(2) by (intro sorted_filter) (simp add: chronological_def)
    show "t0 - latency_window_seconds * 1000 \<le> t - latency_window_seconds * 1000" using assms(3) by simp
  qed (use assms(1) in \<open>simp_all add: AdvanceBuckets_def tracks_def Let_def\<close>)
  then show ?thesis by simp
qed

text \<open>
  C28: a node's snapshot is the statistics of its request history: under a clock that does not run backwards, whatever requests were
  recorded and whenever snapshots were taken before, the totals, the requests of the current second, the average and the maximum
  over the window, the latency figures of the last ten seconds and the error rate of the last minute are those of the history.
\<close>

theorem snapshot_exact:
  assumes "chronological ops" "0 < w" "length ops < 2 ^ 64" "\<forall>e\<in>set ops. op_sec e \<le> now_sec \<and> op_ms e \<le> now_ms"
  shows "\<exists>m. fold metrics_step ops (Some (new_NodeMetrics node_id w)) = Some m \<and>
    fst (Snapshot now_sec now_ms m) =
      latency_stats (map op_duration (filter (\<lambda>e. is_request e \<and> now_ms - 10000 \<le> op_ms e) ops))
       \<lparr>ms_node_id = node_id,
        ms_rps_current = to_double (requests_at ops now_sec),
        ms_rps_avg_10min = rnd (to_double (count_ops (\<lambda>e. is_request e \<and> now_sec - w < op_sec e) ops) /
          to_double (now_sec - Min (window_secs ops w now_sec) + 1)),
        ms_rps_max_10min = to_double (Max (requests_at ops ` window_secs ops w now_sec)),
        ms_latency_avg_ms = 0, ms_latency_p95_ms = 0, ms_latency_p99_ms = 0,
        ms_error_rate_1min = (let recent = \<lambda>e. now_sec - w < op_sec e \<and> now_sec - 60 \<le> op_sec e; n = count_ops (\<lambda>e. is_request e \<and> recent e) ops
          in if 0 < n then rnd (to_double (count_ops (\<lambda>e. is_failure e \<and> recent e) ops) / to_double n) else 0),
        ms_total_requests = count_ops is_request ops, ms_total_errors = count_ops is_failure ops,
        ms_snapshot_timestamp = now_ms\<rparr>"
proof -
  obtain m s0 t0 where m: "fold metrics_step ops (Some (new_NodeMetrics node_id w)) = Some m" "tracks ops s0 t0 m" "s0 \<le> now_sec" "t0 \<le> now_ms"
    "nm_window_seconds m = w" "nm_node_id m = node_id" using fold_tracks [OF assms] by blast
  obtain ts where ts: "nm_buckets (AdvanceBuckets now_sec m) = map (bucket_of ops) ts" "sorted_wrt (<) ts" "last ts = now_sec" "ts \<noteq> []"
    "set ts = window_secs ops w now_sec"
    using snapshot_buckets [OF m(2) assms(1,4) m(3)] assms(2) m(5) by metis
  have sec: "\<forall>e\<in>set ops. op_sec e \<le> now_sec" using assms(4) by blast
  note rps = rps_exact [OF ts assms(3) sec assms(2)] and err = error_rate_exact [OF ts(1,2,5) assms(3,2)]
    and lat = latency_exact [OF m(2) assms(1) m(4), of now_sec]
  have k: "nm_node_id (AdvanceBuckets now_sec m) = node_id" "nm_total_requests (AdvanceBuckets now_sec m) = count_ops is_request ops"
    "nm_total_errors (AdvanceBuckets now_sec m) = count_ops is_failure ops" "nm_buckets (expire_latencies t (AdvanceBuckets now_sec m)) = nm_buckets (AdvanceBuckets now_sec m)" for t
    using m by (simp_all add: AdvanceBuckets_def Let_def tracks_def expire_latencies_def split: prod.splits)
  show ?thesis
    by (intro exI conjI, rule m(1))
      (simp add: Snapshot_def Let_def k rps err lat empty_snapshot_def latency_stats_def latency_window_seconds_def)
qed


lemma pct_index_less:
  assumes "0 \<le> p" "p \<le> 1" "0 < n" "n \<le> 2 ^ 53"
  shows "pct_index p n < n"
proof -
  have n: "\<bar>int (n - 1)\<bar> \<le> 2 ^ 53" using assms(4) by simp
  have "p * of_int (int (n - 1)) \<le> of_int (int (n - 1))" using assms(1,2) by (intro mult_left_le_one_le) auto
  then have "rnd (p * of_int (int (n - 1))) \<le> of_int (int (n - 1))" using rnd_mono rnd_int [OF n] by metis
  then have "\<lfloor>rnd (p * to_double (int (n - 1)))\<rfloor> \<le> int (n - 1)" unfolding to_double_int [OF n] by (simp only: floor_le_iff)
  then have "pct_index p n \<le> n - 1" by (simp add: pct_index_def)
  then show ?thesis using assms(3) by linarith
qed

lemma pct_index_mono: "p \<le> q \<Longrightarrow> n \<le> 2 ^ 53 \<Longrightarrow> pct_index p n \<le> pct_index q n"
  unfolding pct_index_def by (intro nat_mono floor_mono rnd_mono mult_right_mono) auto

lemma rnd_unit: "0 \<le> x \<Longrightarrow> x \<le> 1 \<Longrightarrow> 0 \<le> rnd x \<and> rnd x \<le> 1"
  using rnd_mono [of 0 x] rnd_mono [of x 1] rnd_int [of 1] by simp

text \<open>
  C29: the percentile indices are inside the sorted buffer for every number of samples, and the reported figures are ordered: the
  smallest latency is at most the 95th percentile, which is at most the 99th, which is at most the largest; and the average lies
  between the smallest and the largest, rounding included.
\<close>

theorem latency_bounds:
  assumes "buf \<noteq> []" "\<forall>d\<in>set buf. lo \<le> d \<and> d \<le> hi" "\<bar>lo\<bar> * int (length buf) \<le> 2 ^ 53" "\<bar>hi\<bar> * int (length buf) \<le> 2 ^ 53" "length buf \<le> 2 ^ 53"
  shows "pct_index (rnd (95 / 100)) (length buf) < length buf \<and> pct_index (rnd (99 / 100)) (length buf) < length buf \<and>
    of_int lo \<le> ms_latency_p95_ms (latency_stats buf snap) \<and>
    ms_latency_p95_ms (latency_stats buf snap) \<le> ms_latency_p99_ms (latency_stats buf snap) \<and>
    ms_latency_p99_ms (latency_stats buf snap) \<le> of_int hi \<and>
    of_int lo \<le> ms_latency_avg_ms (latency_stats buf snap) \<and> ms_latency_avg_ms (latency_stats buf snap) \<le> of_int hi"
proof -
  let ?n = "length buf" and ?b = "sort buf"
  define i j where "i = pct_index (rnd (95 / 100)) ?n" and "j = pct_index (rnd (99 / 100)) ?n"
  have n: "0 < ?n" using assms(1) by simp
  have nn: "1 \<le> int ?n" using n by linarith
  have u: "0 \<le> rnd (95 / 100)" "rnd (95 / 100) \<le> 1" "0 \<le> rnd (99 / 100)" "rnd (99 / 100) \<le> 1" using rnd_unit [of "95 / 100"] rnd_unit [of "99 / 100"] by auto
  have ij: "i \<le> j" "i < ?n" "j < ?n"
    using pct_index_mono [OF rnd_mono, of "95 / 100" "99 / 100" ?n] pct_index_less [OF u(1,2) n assms(5)] pct_index_less [OF u(3,4) n assms(5)] n assms(5)
    by (auto simp: i_def j_def)
  have in_b: "lo \<le> ?b ! k \<and> ?b ! k \<le> hi" if "k < ?n" for k using assms(2) nth_mem [of k ?b] that by simp
  have "\<bar>lo\<bar> \<le> \<bar>lo\<bar> * int ?n" "\<bar>hi\<bar> \<le> \<bar>hi\<bar> * int ?n" using mult_left_mono [OF nn, of "\<bar>lo\<bar>"] mult_left_mono [OF nn, of "\<bar>hi\<bar>"] by simp_all
  then have small: "\<bar>lo\<bar> \<le> 2 ^ 53" "\<bar>hi\<bar> \<le> 2 ^ 53" using assms(3,4) by linarith+
  have td: "to_double a \<le> to_double b" if "a \<le> b" for a b using that by (simp add: to_double_def rnd_mono)
  have p: "of_int lo \<le> pct ?b (rnd (95 / 100))" "pct ?b (rnd (95 / 100)) \<le> pct ?b (rnd (99 / 100))" "pct ?b (rnd (99 / 100)) \<le> of_int hi"
    using td [of lo "?b ! i"] td [of "?b ! i" "?b ! j"] td [of "?b ! j" hi] in_b [OF ij(2)] in_b [OF ij(3)] small ij sorted_nth_mono [of ?b i j]
    by (simp_all add: pct_def i_def j_def)
  have sum: "lo * int ?n \<le> sum_list ?b \<and> sum_list ?b \<le> hi * int ?n"
  proof -
    have "lo * int (length xs) \<le> sum_list xs \<and> sum_list xs \<le> hi * int (length xs)" if "\<forall>d\<in>set xs. lo \<le> d \<and> d \<le> hi" for xs
      using that by (induction xs) (auto simp: algebra_simps)
    then show ?thesis using assms(2) by (metis length_sort set_sort)
  qed
  have ab: "\<bar>lo * int ?n\<bar> \<le> 2 ^ 53" "\<bar>hi * int ?n\<bar> \<le> 2 ^ 53" using assms(3,4) by (simp_all add: abs_mult)
  have "of_int (lo * int ?n) \<le> to_double (sum_list ?b)" "to_double (sum_list ?b) \<le> of_int (hi * int ?n)"
    using td [of "lo * int ?n" "sum_list ?b"] td [of "sum_list ?b" "hi * int ?n"] sum ab by (simp_all only: to_double_int)
  then have "of_int lo \<le> to_double (sum_list ?b) / of_nat ?n" "to_double (sum_list ?b) / of_nat ?n \<le> of_int hi"
    using n by (simp_all add: le_divide_eq divide_le_eq)
  then have "of_int lo \<le> rnd (to_double (sum_list ?b) / of_nat ?n)" "rnd (to_double (sum_list ?b) / of_nat ?n) \<le> of_int hi"
    using rnd_mono [of "of_int lo" "to_double (sum_list ?b) / of_nat ?n"] rnd_mono [of "to_double (sum_list ?b) / of_nat ?n" "of_int hi"]
      rnd_int [OF small(1)] rnd_int [OF small(2)] by simp_all
  then show ?thesis using p ij assms(1,5) by (simp add: latency_stats_def Let_def i_def j_def)
qed

theorem latency_bounds_witness:
  "pct_index (rnd (95 / 100)) 3 < 3 \<and> 1 \<le> ms_latency_p95_ms (latency_stats [7, 1, 2] empty_snapshot) \<and>
   ms_latency_avg_ms (latency_stats [7, 1, 2] empty_snapshot) \<le> 7"
  using latency_bounds [of "[7, 1, 2]" 1 7 empty_snapshot] by (simp add: numeral_3_eq_3)

theorem snapshot_exact_witness:
  "chronological [Recorded 5 5000 3 False, Polled 6 6100, Recorded 6 6200 9 True] \<and>
   (\<exists>m. fold metrics_step [Recorded 5 5000 3 False, Polled 6 6100, Recorded 6 6200 9 True] (Some (new_NodeMetrics ''n'' 600)) = Some m \<and>
     ms_rps_current (fst (Snapshot 6 6300 m)) = 1 \<and> ms_total_requests (fst (Snapshot 6 6300 m)) = 2)"
proof -
  let ?ops = "[Recorded 5 5000 3 False, Polled 6 6100, Recorded 6 6200 9 True]"
  have "chronological ?ops" by (simp add: chronological_def)
  then show ?thesis using snapshot_exact [of ?ops 600 6 6300 "''n''"]
    by (auto simp: latency_stats_def Let_def requests_at_def count_ops_def)
qed

lemma UpdateNode_map:
  "map_of (map (\<lambda>s. (ms_node_id s, s)) (UpdateNode snap snaps)) = (map_of (map (\<lambda>s. (ms_node_id s, s)) snaps))(ms_node_id snap \<mapsto> snap)"
  by (induction snaps) auto

lemma UpdateNode_distinct: "distinct (map ms_node_id snaps) \<Longrightarrow> distinct (map ms_node_id (UpdateNode snap snaps)) \<and>
    set (map ms_node_id (UpdateNode snap snaps)) = insert (ms_node_id snap) (set (map ms_node_id snaps))"
  by (induction snaps) auto

end
