(* ===== verification/Hash_Ring.thy ===== *)
theory Hash_Ring
  imports Binary_IO "HOL-Library.List_Lexorder" "HOL-Library.Char_ord"
begin

text \<open>
  The consistent hash ring, \<^verbatim>\<open>src/cluster/consistent_hash.cpp\<close>: MurmurHash3 on 32-bit words and the ordered map from hash
  values to node ids, as a list of pairs in ascending order of the hash.
\<close>

unbundle bit_operations_syntax

subsection \<open>MurmurHash3\<close>

definition rotl32 :: "32 word \<Rightarrow> nat \<Rightarrow> 32 word" where
  "rotl32 x r = push_bit r x OR drop_bit (32 - r) x"

definition mix_k1 :: "32 word \<Rightarrow> 32 word" where
  "mix_k1 k1 = rotl32 (k1 * 0xcc9e2d51) 15 * 0x1b873593"

definition mix_block :: "32 word \<Rightarrow> 32 word \<Rightarrow> 32 word" where
  "mix_block h1 k1 = rotl32 (h1 XOR mix_k1 k1) 13 * 5 + 0xe6546b64"

fun mix_blocks :: "32 word \<Rightarrow> bytes \<Rightarrow> 32 word \<times> bytes" where
  "mix_blocks h1 (a # b # c # d # rest) = mix_blocks (mix_block h1 (word_of_nat (le_nat [a, b, c, d]))) rest"
| "mix_blocks h1 tail = (h1, tail)"

definition mix_tail :: "32 word \<Rightarrow> bytes \<Rightarrow> 32 word" where
  "mix_tail h1 tail =
     (let k1 = 0 :: 32 word;
          k1 = (if length tail = 3 then k1 XOR push_bit 16 (ucast (tail ! 2)) else k1);
          k1 = (if length tail \<ge> 2 then k1 XOR push_bit 8 (ucast (tail ! 1)) else k1)
      in if length tail \<ge> 1 then h1 XOR mix_k1 (k1 XOR ucast (tail ! 0)) else h1)"

definition fmix :: "32 word \<Rightarrow> 32 word" where
  "fmix h1 =
     (let h1 = h1 XOR drop_bit 16 h1;
          h1 = h1 * 0x85ebca6b;
          h1 = h1 XOR drop_bit 13 h1;
          h1 = h1 * 0xc2b2ae35
      in h1 XOR drop_bit 16 h1)"

definition MurmurHash3_x86_32 :: "bytes \<Rightarrow> 32 word \<Rightarrow> 32 word" where
  "MurmurHash3_x86_32 key seed =
     (case mix_blocks seed key of (h1, tail) \<Rightarrow> fmix (mix_tail h1 tail XOR word_of_nat (length key)))"

definition Hash :: "string \<Rightarrow> 32 word" where
  "Hash key = MurmurHash3_x86_32 (map char_byte key) 0x9747b28c"

subsection \<open>The ring\<close>

fun to_string :: "nat \<Rightarrow> string" where
  "to_string n = (if n < 10 then [char_of (48 + n)] else to_string (n div 10) @ [char_of (48 + n mod 10)])"

declare to_string.simps [simp del]

record hash_ring =
  virtual_nodes :: nat
  ring_slots :: "(32 word \<times> string) list"

definition ConsistentHashRing :: "nat \<Rightarrow> hash_ring" where
  "ConsistentHashRing n = \<lparr>virtual_nodes = n, ring_slots = []\<rparr>"

fun slot_put :: "32 word \<Rightarrow> string \<Rightarrow> (32 word \<times> string) list \<Rightarrow> (32 word \<times> string) list" where
  "slot_put h n [] = [(h, n)]"
| "slot_put h n ((h', n') # slots) =
     (if h < h' then (h, n) # (h', n') # slots else if h = h' then (h, n) # slots else (h', n') # slot_put h n slots)"

definition slot_erase :: "32 word \<Rightarrow> (32 word \<times> string) list \<Rightarrow> (32 word \<times> string) list" where
  "slot_erase h slots = filter (\<lambda>(h', _). h' \<noteq> h) slots"

definition vnode_hash :: "string \<Rightarrow> nat \<Rightarrow> 32 word" where
  "vnode_hash node_id i = Hash (node_id @ ''#'' @ to_string i)"

definition ring_AddNode :: "string \<Rightarrow> hash_ring \<Rightarrow> hash_ring" where
  "ring_AddNode node_id r =
     r\<lparr>ring_slots := fold (\<lambda>i. slot_put (vnode_hash node_id i) node_id) [0..<virtual_nodes r] (ring_slots r)\<rparr>"

definition ring_RemoveNode :: "string \<Rightarrow> hash_ring \<Rightarrow> hash_ring" where
  "ring_RemoveNode node_id r =
     r\<lparr>ring_slots := fold (\<lambda>i. slot_erase (vnode_hash node_id i)) [0..<virtual_nodes r] (ring_slots r)\<rparr>"

definition slot_at :: "32 word \<Rightarrow> (32 word \<times> string) list \<Rightarrow> string" where
  "slot_at h slots = (case dropWhile (\<lambda>(h', _). h' < h) slots of (_, n) # _ \<Rightarrow> n | [] \<Rightarrow> snd (hd slots))"

definition GetNode :: "string \<Rightarrow> hash_ring \<Rightarrow> string" where
  "GetNode key r = (if ring_slots r = [] then [] else slot_at (Hash key) (ring_slots r))"

definition AllNodes :: "hash_ring \<Rightarrow> string list" where
  "AllNodes r = sorted_list_of_set (snd ` set (ring_slots r))"

subsection \<open>The hash agrees with the published test vectors\<close>

lemmas murmur_simps = MurmurHash3_x86_32_def mix_block_def mix_k1_def mix_tail_def fmix_def rotl32_def Let_def

lemma murmur_vector_empty: "MurmurHash3_x86_32 [] 1 = 0x514E28B7"
  by (simp add: murmur_simps)

lemma murmur_vectors: "Hash ''test'' = 0x704b81dc" "Hash ''Hello, world!'' = 0x24884cba"
  by (simp_all add: Hash_def murmur_simps char_byte_def)

subsection \<open>The slots as a finite map\<close>

definition slots_ok :: "(32 word \<times> string) list \<Rightarrow> bool" where
  "slots_ok slots \<longleftrightarrow> sorted_wrt (<) (map fst slots)"

definition vnode_hashes :: "string \<Rightarrow> nat \<Rightarrow> 32 word set" where
  "vnode_hashes n vn = vnode_hash n ` {0..<vn}"

lemma map_of_slot_put: "map_of (slot_put h n slots) = (map_of slots)(h \<mapsto> n)" if "slots_ok slots"
  using that by (induction slots rule: slot_put.induct [of _ h n]) (auto simp: slots_ok_def fun_eq_iff)

lemma fst_slot_put: "fst ` set (slot_put h n slots) = insert h (fst ` set slots)"
  by (induction h n slots rule: slot_put.induct) auto

lemma slots_ok_put: "slots_ok slots \<Longrightarrow> slots_ok (slot_put h n slots)"
proof (induction h n slots rule: slot_put.induct)
  case (2 h n h' n' slots)
  then show ?case using fst_slot_put [of h n slots] by (fastforce simp: slots_ok_def)
qed (simp add: slots_ok_def)

lemma slots_ok_erase: "slots_ok slots \<Longrightarrow> slots_ok (slot_erase h slots)"
  unfolding slots_ok_def slot_erase_def by (induction slots) auto

lemma map_of_slot_erase: "map_of (slot_erase h slots) = (map_of slots)(h := None)"
  by (induction slots) (auto simp: slot_erase_def)

lemma fold_put:
  "slots_ok slots \<Longrightarrow> slots_ok (fold (\<lambda>i. slot_put (f i) n) is slots) \<and>
   map_of (fold (\<lambda>i. slot_put (f i) n) is slots) = (\<lambda>h. if h \<in> f ` set is then Some n else map_of slots h)"
  by (induction "is" arbitrary: slots) (auto simp: map_of_slot_put slots_ok_put fun_eq_iff)

lemma fold_erase:
  "slots_ok slots \<Longrightarrow> slots_ok (fold (\<lambda>i. slot_erase (f i)) is slots) \<and>
   map_of (fold (\<lambda>i. slot_erase (f i)) is slots) = (\<lambda>h. if h \<in> f ` set is then None else map_of slots h)"
  by (induction "is" arbitrary: slots) (auto simp: map_of_slot_erase slots_ok_erase fun_eq_iff)

definition ring_map :: "hash_ring \<Rightarrow> 32 word \<Rightarrow> string option" where
  "ring_map r = map_of (ring_slots r)"

lemma AddNode_map:
  assumes "slots_ok (ring_slots r)"
  shows "slots_ok (ring_slots (ring_AddNode n r)) \<and> ring_map (ring_AddNode n r) =
    (\<lambda>h. if h \<in> vnode_hashes n (virtual_nodes r) then Some n else ring_map r h) \<and> virtual_nodes (ring_AddNode n r) = virtual_nodes r"
  using fold_put [OF assms, of "vnode_hash n" n "[0..<virtual_nodes r]"] unfolding ring_map_def by (simp add: ring_AddNode_def vnode_hashes_def)

lemma RemoveNode_map:
  assumes "slots_ok (ring_slots r)"
  shows "slots_ok (ring_slots (ring_RemoveNode n r)) \<and> ring_map (ring_RemoveNode n r) =
    (\<lambda>h. if h \<in> vnode_hashes n (virtual_nodes r) then None else ring_map r h) \<and> virtual_nodes (ring_RemoveNode n r) = virtual_nodes r"
  using fold_erase [OF assms, of "vnode_hash n" "[0..<virtual_nodes r]"] unfolding ring_map_def by (simp add: ring_RemoveNode_def vnode_hashes_def)

text \<open>The slot that owns a hash value: the next one on the circle.\<close>

definition next_slot :: "32 word set \<Rightarrow> 32 word \<Rightarrow> 32 word" where
  "next_slot D h = (if \<exists>x\<in>D. h \<le> x then Min {x \<in> D. h \<le> x} else Min D)"

lemma next_slot_in: "finite D \<Longrightarrow> D \<noteq> {} \<Longrightarrow> next_slot D h \<in> D"
  using Min_in [of "{x \<in> D. h \<le> x}"] Min_in [of D] by (auto simp: next_slot_def)

lemma next_slot_subset:
  assumes "D \<subseteq> D'" "finite D'" "next_slot D' h \<in> D"
  shows "next_slot D h = next_slot D' h"
proof (cases "\<exists>x\<in>D'. h \<le> x")
  case True
  let ?m = "Min {x \<in> D'. h \<le> x}"
  have m: "?m = next_slot D' h" using True by (simp add: next_slot_def)
  have in_m: "?m \<in> {x \<in> D'. h \<le> x}" using True assms(2) by (intro Min_in) auto
  then have "\<exists>x\<in>D. h \<le> x" using assms(3) m by auto
  moreover have "Min {x \<in> D. h \<le> x} = ?m"
  proof (rule Min_eqI)
    show "?m \<le> y" if "y \<in> {x \<in> D. h \<le> x}" for y using that assms(1,2) by (intro Min_le) auto
  qed (use assms(3) m in_m finite_subset [OF assms(1,2)] in auto)
  ultimately show ?thesis using m by (simp add: next_slot_def)
next
  case False
  then have "\<not> (\<exists>x\<in>D. h \<le> x)" "next_slot D' h = Min D'" using assms(1) by (auto simp: next_slot_def)
  moreover have "Min D = Min D'" 
  proof (rule Min_eqI)
    show "Min D' \<le> y" if "y \<in> D" for y using that assms(1,2) by (intro Min_le) auto
  qed (use assms(3) calculation finite_subset [OF assms(1,2)] in auto)
  ultimately show ?thesis by (simp add: next_slot_def)
qed

lemma slot_at_eq:
  assumes "slots_ok slots" "slots \<noteq> []"
  shows "map_of slots (next_slot (fst ` set slots) h) = Some (slot_at h slots)"
proof -
  let ?P = "\<lambda>(h', _). h' < h"
  have d: "distinct (map fst slots)" using assms(1) by (simp add: slots_ok_def strict_sorted_iff)
  define pre post where "pre = takeWhile ?P slots" and "post = dropWhile ?P slots"
  have sp: "slots = pre @ post" by (simp add: pre_def post_def)
  have pre: "\<forall>x\<in>fst ` set pre. x < h" by (auto simp: pre_def dest: set_takeWhileD)
  show ?thesis
  proof (cases post)
    case Nil
    have "hd slots \<in> set slots" using assms(2) by simp
    moreover have "Min (fst ` set slots) = fst (hd slots)" using assms by (cases slots) (auto simp: slots_ok_def intro!: Min_eqI)
    moreover have "\<not> (\<exists>x\<in>fst ` set slots. h \<le> x)" using pre sp Nil by auto
    ultimately show ?thesis using d Nil by (auto simp: next_slot_def slot_at_def post_def [symmetric] map_of_eq_Some_iff)
  next
    case (Cons p ps)
    obtain k n where p: "p = (k, n)" by fastforce
    have hk: "h \<le> k" using Cons p hd_dropWhile [of ?P slots] by (auto simp: post_def [symmetric])
    have "\<forall>x\<in>fst ` set ps. k < x" using assms(1) sp Cons p by (auto simp: slots_ok_def sorted_wrt_append)
    then have "Min {x \<in> fst ` set slots. h \<le> x} = k" using sp Cons p pre hk by (intro Min_eqI) force+
    then have "next_slot (fst ` set slots) h = k" using sp Cons p hk by (auto simp: next_slot_def)
    moreover have "(k, n) \<in> set slots" using sp Cons p by simp
    ultimately show ?thesis using d Cons p by (simp add: slot_at_def post_def [symmetric] map_of_eq_Some_iff)
  qed
qed

lemma GetNode_eq:
  assumes "slots_ok (ring_slots r)"
  shows "GetNode key r = (if dom (ring_map r) = {} then [] else the (ring_map r (next_slot (dom (ring_map r)) (Hash key))))"
  using slot_at_eq [OF assms, of "Hash key"] by (auto simp: GetNode_def ring_map_def dom_map_of_conv_image_fst)

lemma AllNodes_eq: "slots_ok (ring_slots r) \<Longrightarrow> set (AllNodes r) = ran (ring_map r)"
  by (simp add: AllNodes_def ring_map_def ran_distinct slots_ok_def strict_sorted_iff)


subsection \<open>Joining and leaving move only the keys they must\<close>

definition ring_ok :: "hash_ring \<Rightarrow> bool" where
  "ring_ok r \<longleftrightarrow> slots_ok (ring_slots r) \<and> (\<forall>h n. ring_map r h = Some n \<longrightarrow> h \<in> vnode_hashes n (virtual_nodes r))"

lemma ring_ok_new: "ring_ok (ConsistentHashRing vn)"
  by (simp add: ring_ok_def ConsistentHashRing_def slots_ok_def ring_map_def)

lemma ring_ok_AddNode: "ring_ok r \<Longrightarrow> ring_ok (ring_AddNode n r)"
  using AddNode_map [of r n] by (auto simp: ring_ok_def split: if_splits)

lemma ring_ok_RemoveNode: "ring_ok r \<Longrightarrow> ring_ok (ring_RemoveNode n r)"
  using RemoveNode_map [of r n] by (auto simp: ring_ok_def split: if_splits)

datatype ring_op = Join string | Leave string

primrec ring_step :: "ring_op \<Rightarrow> hash_ring \<Rightarrow> hash_ring" where
  "ring_step (Join n) = ring_AddNode n"
| "ring_step (Leave n) = ring_RemoveNode n"

definition ring_after :: "nat \<Rightarrow> ring_op list \<Rightarrow> hash_ring" where
  "ring_after vn ops = fold ring_step ops (ConsistentHashRing vn)"

lemma ring_after_ok: "ring_ok (ring_after vn ops)"
proof -
  have "ring_ok r \<Longrightarrow> ring_ok (fold ring_step ops r)" for r
  proof (induction ops arbitrary: r)
    case (Cons a ops)
    then show ?case by (cases a) (auto simp: ring_ok_AddNode ring_ok_RemoveNode)
  qed simp
  then show ?thesis by (simp add: ring_after_def ring_ok_new)
qed

text \<open>No slot of the node is held by another one, as a collision of two hash values would make it.\<close>

definition uncontended :: "string \<Rightarrow> hash_ring \<Rightarrow> bool" where
  "uncontended n r \<longleftrightarrow> list_all (\<lambda>(h, n'). h \<in> vnode_hashes n (virtual_nodes r) \<longrightarrow> n' = n) (ring_slots r)"

lemma GetNode_add:
  assumes "ring_ok r"
  shows "GetNode key (ring_AddNode n r) = n \<or> GetNode key (ring_AddNode n r) = GetNode key r"
proof -
  let ?r = "ring_AddNode n r" and ?S = "vnode_hashes n (virtual_nodes r)" and ?h = "Hash key"
  have ok: "slots_ok (ring_slots r)" using assms by (simp add: ring_ok_def)
  note m = AddNode_map [OF ok, of n]
  have D: "dom (ring_map ?r) = ?S \<union> dom (ring_map r)" using m by (auto simp: dom_def)
  have fin: "finite (dom (ring_map ?r))" by (simp add: ring_map_def finite_dom_map_of)
  show ?thesis
  proof (cases "next_slot (dom (ring_map ?r)) ?h \<in> ?S")
    case True
    then show ?thesis using GetNode_eq [of ?r key] m D by auto
  next
    case False
    then have e: "dom (ring_map r) \<noteq> {} \<longrightarrow> next_slot (dom (ring_map r)) ?h = next_slot (dom (ring_map ?r)) ?h"
      using next_slot_in [OF fin, of ?h] D next_slot_subset [OF _ fin, of "dom (ring_map r)" ?h] by auto
    show ?thesis
    proof (cases "dom (ring_map r) = {}")
      case True
      then have "dom (ring_map ?r) = {}" using D False next_slot_in [OF fin, of ?h] by auto
      then show ?thesis using True GetNode_eq [of ?r key] GetNode_eq [OF ok] m by simp
    next
      case ne: False
      then show ?thesis using GetNode_eq [of ?r key] GetNode_eq [OF ok] m e False D by auto
    qed
  qed
qed

lemma GetNode_remove:
  assumes "ring_ok r" "uncontended n r" "GetNode key r \<noteq> n"
  shows "GetNode key (ring_RemoveNode n r) = GetNode key r"
proof (cases "dom (ring_map r) = {}")
  case True
  have ok: "slots_ok (ring_slots r)" using assms by (simp add: ring_ok_def)
  note m = RemoveNode_map [OF ok, of n]
  have "dom (ring_map (ring_RemoveNode n r)) = {}" using m True by (auto simp: dom_def)
  then show ?thesis using True GetNode_eq [OF ok] GetNode_eq [of "ring_RemoveNode n r" key] m by simp
next
  case False
  let ?r = "ring_RemoveNode n r" and ?S = "vnode_hashes n (virtual_nodes r)" and ?h = "Hash key"
  have ok: "slots_ok (ring_slots r)" using assms by (simp add: ring_ok_def)
  note m = RemoveNode_map [OF ok, of n]
  have D: "dom (ring_map ?r) = dom (ring_map r) - ?S" using m by (auto simp: dom_def split: if_splits)
  have fin: "finite (dom (ring_map r))" by (simp add: ring_map_def finite_dom_map_of)
  let ?k = "next_slot (dom (ring_map r)) ?h"
  have k: "?k \<in> dom (ring_map r)" using next_slot_in [OF fin False] .
  then obtain n' where n': "ring_map r ?k = Some n'" by auto
  have "(?k, n') \<in> set (ring_slots r)" using n' by (simp add: ring_map_def map_of_SomeD)
  moreover have "n' \<noteq> n" using assms(3) n' False GetNode_eq [OF ok, of key] by simp
  ultimately have "?k \<notin> ?S" using assms(2) by (force simp: uncontended_def list_all_iff)
  then have k2: "?k \<in> dom (ring_map ?r)" using k D by blast
  have sub: "dom (ring_map ?r) \<subseteq> dom (ring_map r)" using D by blast
  have e: "next_slot (dom (ring_map ?r)) ?h = ?k" by (rule next_slot_subset [OF sub fin k2])
  have "ring_map ?r ?k = ring_map r ?k" using m \<open>?k \<notin> ?S\<close> by simp
  moreover have "dom (ring_map ?r) \<noteq> {}" using k2 by blast
  moreover have "slots_ok (ring_slots ?r)" using m by blast
  ultimately show ?thesis using False by (simp add: GetNode_eq ok e)
qed

text \<open>
  C30: the ring is consistent: after any history of joins and leaves, a node that joins takes over keys but moves none between the
  others; a node that leaves owns no key afterwards and, when no hash value of its slots collides with another node's, only its own
  keys move; and while the ring is not empty every key has an owner among the nodes of the ring.
\<close>

theorem ring_consistent:
  assumes "r = ring_after vn ops"
  shows "(GetNode key (ring_AddNode n r) = n \<or> GetNode key (ring_AddNode n r) = GetNode key r) \<and>
    n \<notin> set (AllNodes (ring_RemoveNode n r)) \<and>
    (uncontended n r \<and> GetNode key r \<noteq> n \<longrightarrow> GetNode key (ring_RemoveNode n r) = GetNode key r) \<and>
    (ring_slots r \<noteq> [] \<longrightarrow> GetNode key r \<in> set (AllNodes r))"
proof -
  have ok: "ring_ok r" "slots_ok (ring_slots r)" using ring_after_ok [of vn ops] assms by (simp_all add: ring_ok_def)
  have "n \<notin> ran (ring_map (ring_RemoveNode n r))" using RemoveNode_map [OF ok(2), of n] ok(1)
    by (auto simp: ran_def ring_ok_def split: if_splits)
  then have rem: "n \<notin> set (AllNodes (ring_RemoveNode n r))" using AllNodes_eq RemoveNode_map [OF ok(2), of n] by simp
  have fin: "finite (dom (ring_map r))" by (simp add: ring_map_def finite_dom_map_of)
  have "GetNode key r \<in> set (AllNodes r)" if "ring_slots r \<noteq> []"
  proof -
    have "dom (ring_map r) \<noteq> {}" using that by (simp add: ring_map_def dom_map_of_conv_image_fst)
    then show ?thesis using GetNode_eq [OF ok(2)] AllNodes_eq [OF ok(2)] next_slot_in [OF fin, of "Hash key"] by (force simp: ran_def)
  qed
  then show ?thesis using GetNode_add [OF ok(1)] GetNode_remove [OF ok(1)] rem by blast
qed

theorem ring_consistent_witness:
  "(GetNode ''users'' (ring_AddNode ''b'' (ring_after 2 [Join ''a''])) = ''b'' \<or>
    GetNode ''users'' (ring_AddNode ''b'' (ring_after 2 [Join ''a''])) = GetNode ''users'' (ring_after 2 [Join ''a''])) \<and>
   ''b'' \<notin> set (AllNodes (ring_RemoveNode ''b'' (ring_after 2 [Join ''a'', Join ''b''])))"
  using ring_consistent [OF refl, of "''users''" "''b''" 2 "[Join ''a'']"] ring_consistent [OF refl, of "''users''" "''b''" 2 "[Join ''a'', Join ''b'']"] by blast

end
