(* ===== verification/Cluster.thy ===== *)
theory Cluster
  imports Network Metrics Hash_Ring
begin

text \<open>
  The entrypoint of a cluster, \<^verbatim>\<open>src/cluster/entrypoint.cpp\<close>: registered storage nodes and their health, the routing of a
  request to the node that owns its shard key, with a fallback to another node, and the health check. Sending a request to a node is
  the parameter \<open>send\<close>: an error message or the node's response. The JSON text of a metrics snapshot is the parameter \<open>dump\<close>. Log
  entries are not modelled. The table of nodes is a list of pairs in the order of its iteration.
\<close>

datatype NodeHealth = kUnknown | kHealthy | kUnhealthy

record NodeConfig =
  nc_id :: string
  nc_host :: string
  nc_port :: int

record NodeState =
  ns_config :: NodeConfig
  ns_health :: NodeHealth
  ns_last_seen_ms :: int
  ns_metrics :: MetricsSnapshot

record entrypoint =
  ep_ring :: hash_ring
  ep_nodes :: "(string \<times> NodeState) list"
  ep_cluster_metrics :: ClusterMetrics

definition ErrorResponse :: "string \<Rightarrow> Response" where
  "ErrorResponse msg = \<lparr>rp_ok = False, rp_error = msg, rp_result = empty_result\<rparr>"

definition new_node :: "NodeConfig \<Rightarrow> NodeState" where
  "new_node nc = \<lparr>ns_config = nc, ns_health = kUnknown, ns_last_seen_ms = 0, ns_metrics = empty_snapshot\<rparr>"

definition node_put :: "string \<Rightarrow> NodeState \<Rightarrow> (string \<times> NodeState) list \<Rightarrow> (string \<times> NodeState) list" where
  "node_put i st nodes = (if map_of nodes i = None then nodes @ [(i, st)] else map (\<lambda>(j, st'). (j, if j = i then st else st')) nodes)"

definition EntrypointNode :: "nat \<Rightarrow> NodeConfig list \<Rightarrow> entrypoint" where
  "EntrypointNode virtual_nodes_per_node configs =
     fold (\<lambda>nc ep. ep\<lparr>ep_nodes := node_put (nc_id nc) (new_node nc) (ep_nodes ep), ep_ring := ring_AddNode (nc_id nc) (ep_ring ep)\<rparr>)
       configs \<lparr>ep_ring = ConsistentHashRing virtual_nodes_per_node, ep_nodes = [], ep_cluster_metrics = []\<rparr>"

definition ep_AddNode :: "NodeConfig \<Rightarrow> (entrypoint, unit) stm" where
  "ep_AddNode nc ep =
     (if map_of (ep_nodes ep) (nc_id nc) \<noteq> None then (Inl kAlreadyExists, ep)
      else (Inr (), ep\<lparr>ep_nodes := node_put (nc_id nc) (new_node nc) (ep_nodes ep), ep_ring := ring_AddNode (nc_id nc) (ep_ring ep)\<rparr>))"

definition ep_RemoveNode :: "string \<Rightarrow> (entrypoint, unit) stm" where
  "ep_RemoveNode node_id ep =
     (if map_of (ep_nodes ep) node_id = None then (Inl kNotFound, ep)
      else (Inr (), ep\<lparr>ep_nodes := filter (\<lambda>(i, _). i \<noteq> node_id) (ep_nodes ep), ep_ring := ring_RemoveNode node_id (ep_ring ep)\<rparr>))"

text \<open>\<^verbatim>\<open>std::string::find\<close> as a test.\<close>

fun contains :: "string \<Rightarrow> string \<Rightarrow> bool" where
  "contains p [] \<longleftrightarrow> p = []"
| "contains p (c # cs) \<longleftrightarrow> take (length p) (c # cs) = p \<or> contains p cs"

definition ShardKey :: "Request \<Rightarrow> string" where
  "ShardKey req = (if rq_database req = [] then take 64 (rq_sql req) else rq_database req)"

text \<open>The fallback: the first node of the ring, in the order of ids, that is not known to be unhealthy.\<close>

definition fallback :: "string \<Rightarrow> (string \<times> NodeState) list \<Rightarrow> string list \<Rightarrow> NodeState option" where
  "fallback node_id nodes all =
     (case find (\<lambda>nid. nid \<noteq> node_id \<and> (case map_of nodes nid of None \<Rightarrow> False | Some st \<Rightarrow> ns_health st \<noteq> kUnhealthy)) all of
        None \<Rightarrow> None | Some nid \<Rightarrow> map_of nodes nid)"

definition ResolveNode :: "string \<Rightarrow> entrypoint \<Rightarrow> NodeState option" where
  "ResolveNode shard_key ep =
     (let node_id = GetNode shard_key (ep_ring ep)
      in if node_id = [] then None
         else case map_of (ep_nodes ep) node_id of
           None \<Rightarrow> None
         | Some st \<Rightarrow> if ns_health st = kUnhealthy then fallback node_id (ep_nodes ep) (AllNodes (ep_ring ep)) else Some st)"

definition ForwardToNode :: "(NodeConfig \<Rightarrow> Request \<Rightarrow> string + Response) \<Rightarrow> NodeState \<Rightarrow> Request \<Rightarrow> Response" where
  "ForwardToNode send node req =
     (case send (ns_config node) req of
        Inl msg \<Rightarrow> ErrorResponse (''storage node unreachable: '' @ nc_id (ns_config node) @ '' - '' @ msg)
      | Inr resp \<Rightarrow> resp)"

definition HandleManagement :: "(MetricsSnapshot \<Rightarrow> string) \<Rightarrow> Request \<Rightarrow> entrypoint \<Rightarrow> Response" where
  "HandleManagement dump req ep =
     (if contains ''SHOW METRICS'' (rq_sql req)
      then \<lparr>rp_ok = True, rp_error = [],
             rp_result = empty_result\<lparr>qr_ok := True, qr_columns := [''metrics''], qr_rows := [[VString (dump (Aggregate (ep_cluster_metrics ep)))]]\<rparr>\<rparr>
      else ErrorResponse ''unsupported management command'')"

definition is_management :: "Request \<Rightarrow> bool" where
  "is_management req \<longleftrightarrow> contains ''SHOW METRICS'' (rq_sql req) \<or> contains ''ADD NODE'' (rq_sql req) \<or> contains ''REMOVE NODE'' (rq_sql req)"

definition seen :: "string \<Rightarrow> int \<Rightarrow> entrypoint \<Rightarrow> entrypoint" where
  "seen node_id now_ms ep =
     (case map_of (ep_nodes ep) node_id of
        None \<Rightarrow> ep
      | Some st \<Rightarrow> ep\<lparr>ep_nodes := node_put node_id (st\<lparr>ns_last_seen_ms := now_ms\<rparr>) (ep_nodes ep)\<rparr>)"

definition HandleRequest :: "(MetricsSnapshot \<Rightarrow> string) \<Rightarrow> (NodeConfig \<Rightarrow> Request \<Rightarrow> string + Response) \<Rightarrow> int \<Rightarrow> Request \<Rightarrow>
    entrypoint \<Rightarrow> Response \<times> entrypoint" where
  "HandleRequest dump send now_ms req ep =
     (if is_management req then (HandleManagement dump req ep, ep)
      else case ResolveNode (ShardKey req) ep of
        None \<Rightarrow> (ErrorResponse ''no healthy storage nodes available'', ep)
      | Some node_copy \<Rightarrow>
          (let resp = ForwardToNode send node_copy req
           in (resp, seen (nc_id (ns_config node_copy)) now_ms ep)))"

text \<open>One node's part of a round of \<^verbatim>\<open>HealthCheckLoop\<close>, and a round over the nodes registered at its start.\<close>

definition ping_request :: Request where
  "ping_request = \<lparr>rq_request_id = ''ping'', rq_database = [], rq_sql = ''SELECT 1;'', rq_auth_token = []\<rparr>"

definition health_check :: "string \<Rightarrow> bool \<Rightarrow> int \<Rightarrow> entrypoint \<Rightarrow> entrypoint" where
  "health_check node_id alive now_ms ep =
     (case map_of (ep_nodes ep) node_id of
        None \<Rightarrow> ep
      | Some st \<Rightarrow> ep\<lparr>ep_nodes := node_put node_id
          (if alive then st\<lparr>ns_health := kHealthy, ns_last_seen_ms := now_ms\<rparr> else st\<lparr>ns_health := kUnhealthy\<rparr>) (ep_nodes ep)\<rparr>)"

definition health_round :: "(NodeConfig \<Rightarrow> Request \<Rightarrow> string + Response) \<Rightarrow> int \<Rightarrow> entrypoint \<Rightarrow> entrypoint" where
  "health_round send now_ms ep =
     fold (\<lambda>(i, cfg). health_check i (case send cfg ping_request of Inl _ \<Rightarrow> False | Inr _ \<Rightarrow> True) now_ms)
       (map (\<lambda>(i, st). (i, ns_config st)) (ep_nodes ep)) ep"

subsection \<open>Reachable states\<close>

text \<open>
  Every access to the nodes happens under the mutex: registering and removing a node, the lookup of a request, the note that a node
  answered and each node's health check are atomic and interleave freely.
\<close>

inductive ep_step :: "entrypoint \<Rightarrow> entrypoint \<Rightarrow> bool" where
  add: "ep_AddNode nc ep = (r, ep') \<Longrightarrow> ep_step ep ep'"
| remove: "ep_RemoveNode node_id ep = (r, ep') \<Longrightarrow> ep_step ep ep'"
| answered: "ep_step ep (seen node_id now_ms ep)"
| checked: "ep_step ep (health_check node_id alive now_ms ep)"

inductive ep_reachable :: "nat \<Rightarrow> NodeConfig list \<Rightarrow> entrypoint \<Rightarrow> bool" for vn configs where
  start: "ep_reachable vn configs (EntrypointNode vn configs)"
| step: "ep_reachable vn configs ep \<Longrightarrow> ep_step ep ep' \<Longrightarrow> ep_reachable vn configs ep'"

definition ep_inv :: "entrypoint \<Rightarrow> bool" where
  "ep_inv ep \<longleftrightarrow> ring_ok (ep_ring ep) \<and> distinct (map fst (ep_nodes ep)) \<and> set (AllNodes (ep_ring ep)) \<subseteq> dom (map_of (ep_nodes ep)) \<and>
     (\<forall>i st. map_of (ep_nodes ep) i = Some st \<longrightarrow> nc_id (ns_config st) = i)"

lemma map_of_node_put: "map_of (node_put i st nodes) = (map_of nodes)(i \<mapsto> st)"
proof -
  have "map_of (map (\<lambda>(j, st'). (j, if j = i then st else st')) nodes) = (\<lambda>j. if j = i \<and> map_of nodes i \<noteq> None then Some st else map_of nodes j)"
    by (induction nodes) (auto simp: fun_eq_iff)
  then show ?thesis by (auto simp: node_put_def fun_eq_iff map_add_def split: option.splits)
qed

lemma distinct_node_put: "distinct (map fst nodes) \<Longrightarrow> distinct (map fst (node_put i st nodes))"
  by (auto simp: node_put_def map_of_eq_None_iff comp_def split_def)

lemma map_of_filter_key: "map_of (filter (\<lambda>(i, _). i \<noteq> k) xs) = (map_of xs)(k := None)"
  by (induction xs) auto

lemma ring_ok_slots: "ring_ok r \<Longrightarrow> slots_ok (ring_slots r)"
  by (simp add: ring_ok_def)

lemma AllNodes_add: "ring_ok r \<Longrightarrow> set (AllNodes (ring_AddNode n r)) \<subseteq> insert n (set (AllNodes r))"
  using AddNode_map [OF ring_ok_slots, of r n] by (auto simp: AllNodes_eq ring_ok_slots ran_def split: if_splits)

lemma AllNodes_remove: "ring_ok r \<Longrightarrow> set (AllNodes (ring_RemoveNode n r)) \<subseteq> set (AllNodes r) - {n}"
  using RemoveNode_map [OF ring_ok_slots, of r n] by (auto simp: AllNodes_eq ring_ok_slots ran_def ring_ok_def split: if_splits)

lemma ep_inv_add: "ep_inv ep \<Longrightarrow>
    ep_inv (ep\<lparr>ep_nodes := node_put (nc_id nc) (new_node nc) (ep_nodes ep), ep_ring := ring_AddNode (nc_id nc) (ep_ring ep)\<rparr>)"
  using AllNodes_add [of "ep_ring ep" "nc_id nc"]
  by (auto simp: ep_inv_def map_of_node_put distinct_node_put ring_ok_AddNode new_node_def)

lemma ep_inv_put: "ep_inv ep \<Longrightarrow> nc_id (ns_config st) = i \<Longrightarrow> ep_inv (ep\<lparr>ep_nodes := node_put i st (ep_nodes ep)\<rparr>)"
  by (auto simp: ep_inv_def map_of_node_put distinct_node_put)

lemma ep_inv_id: "ep_inv ep \<Longrightarrow> map_of (ep_nodes ep) i = Some st \<Longrightarrow> nc_id (ns_config st) = i"
  by (simp add: ep_inv_def)

lemma ep_step_inv: "ep_step ep ep' \<Longrightarrow> ep_inv ep \<Longrightarrow> ep_inv ep'"
proof (induction rule: ep_step.induct)
  case (add nc ep r ep')
  then show ?case by (auto simp: ep_AddNode_def ep_inv_add split: if_splits)
next
  case (remove node_id ep r ep')
  have "distinct (map fst (filter (\<lambda>(i, _). i \<noteq> node_id) (ep_nodes ep)))" using remove.prems by (simp add: ep_inv_def distinct_map_filter)
  moreover have "set (AllNodes (ring_RemoveNode node_id (ep_ring ep))) \<subseteq> dom ((map_of (ep_nodes ep))(node_id := None))"
    using AllNodes_remove [of "ep_ring ep" node_id] remove.prems unfolding ep_inv_def dom_fun_upd by auto
  ultimately show ?case using remove
    by (cases "map_of (ep_nodes ep) node_id") (auto simp: ep_RemoveNode_def ep_inv_def ring_ok_RemoveNode map_of_filter_key simp del: map_of_eq_Some_iff split: if_splits)
next
  case (answered ep node_id now_ms)
  then show ?case using ep_inv_id [of ep node_id] by (cases "map_of (ep_nodes ep) node_id") (simp_all add: seen_def ep_inv_put)
next
  case (checked ep node_id alive now_ms)
  then show ?case using ep_inv_id [of ep node_id] by (cases "map_of (ep_nodes ep) node_id") (simp_all add: health_check_def ep_inv_put)
qed


lemma ep_reachable_inv: "ep_reachable vn configs ep \<Longrightarrow> ep_inv ep"
proof (induction rule: ep_reachable.induct)
  case start
  let ?f = "\<lambda>nc ep. ep\<lparr>ep_nodes := node_put (nc_id nc) (new_node nc) (ep_nodes ep), ep_ring := ring_AddNode (nc_id nc) (ep_ring ep)\<rparr>"
  have "ep_inv ep \<Longrightarrow> ep_inv (fold ?f configs ep)" for ep by (induction configs arbitrary: ep) (auto simp: ep_inv_add)
  moreover have "ep_inv \<lparr>ep_ring = ConsistentHashRing vn, ep_nodes = [], ep_cluster_metrics = []\<rparr>"
    using ring_ok_new [of vn] by (simp add: ep_inv_def AllNodes_def ConsistentHashRing_def)
  ultimately show ?case by (simp add: EntrypointNode_def)
qed (simp add: ep_step_inv)

subsection \<open>Routing\<close>

definition usable :: "entrypoint \<Rightarrow> string \<Rightarrow> bool" where
  "usable ep i \<longleftrightarrow> i \<in> set (AllNodes (ep_ring ep)) \<and> (case map_of (ep_nodes ep) i of None \<Rightarrow> False | Some st \<Rightarrow> ns_health st \<noteq> kUnhealthy)"

lemma GetNode_in: "ring_ok r \<Longrightarrow> AllNodes r \<noteq> [] \<Longrightarrow> GetNode key r \<in> set (AllNodes r)"
  using GetNode_eq [OF ring_ok_slots, of r key] AllNodes_eq [OF ring_ok_slots, of r] next_slot_in [of "dom (ring_map r)" "Hash key"]
  by (force simp: ran_def ring_map_def finite_dom_map_of)

lemma ResolveNode_spec:
  assumes inv: "ep_inv ep" and ids: "[] \<notin> set (AllNodes (ep_ring ep))"
  shows "case ResolveNode key ep of
      None \<Rightarrow> \<forall>i. \<not> usable ep i
    | Some st \<Rightarrow> \<exists>i. usable ep i \<and> map_of (ep_nodes ep) i = Some st \<and> (usable ep (GetNode key (ep_ring ep)) \<longrightarrow> i = GetNode key (ep_ring ep))"
proof (cases "AllNodes (ep_ring ep) = []")
  case True
  then have "ring_slots (ep_ring ep) = []" by (simp add: AllNodes_def)
  then show ?thesis using True by (simp add: ResolveNode_def GetNode_def usable_def)
next
  case False
  let ?n = "GetNode key (ep_ring ep)" and ?all = "AllNodes (ep_ring ep)"
  have n: "?n \<in> set ?all" using GetNode_in False inv by (simp add: ep_inv_def)
  have "?n \<in> dom (map_of (ep_nodes ep))" using n inv unfolding ep_inv_def by blast
  then obtain st where st: "map_of (ep_nodes ep) ?n = Some st" "?n \<noteq> []" using n ids by (metis domD)
  show ?thesis
  proof (cases "ns_health st = kUnhealthy")
    case False
    then show ?thesis using st n by (auto simp: ResolveNode_def usable_def)
  next
    case True
    let ?P = "\<lambda>nid. nid \<noteq> ?n \<and> (case map_of (ep_nodes ep) nid of None \<Rightarrow> False | Some st \<Rightarrow> ns_health st \<noteq> kUnhealthy)"
    have res: "ResolveNode key ep = (case find ?P ?all of None \<Rightarrow> None | Some nid \<Rightarrow> map_of (ep_nodes ep) nid)"
      using True st by (simp add: ResolveNode_def fallback_def Let_def)
    have nu: "\<not> usable ep ?n" using True st by (simp add: usable_def)
    show ?thesis
    proof (cases "find ?P ?all")
      case None
      then have "\<not> usable ep i" for i using nu by (auto simp: find_None_iff usable_def)
      then show ?thesis using res None by simp
    next
      case (Some i)
      then have "?P i" "i \<in> set ?all" by (auto simp: find_Some_iff)
      then obtain st' where "map_of (ep_nodes ep) i = Some st'" "usable ep i" by (auto simp: usable_def split: option.splits)
      then show ?thesis using res Some nu by auto
    qed
  qed
qed

text \<open>
  C31: in every state the entrypoint can reach, a request that is not a management command goes to the owner of its shard key when
  that node is not known to be unhealthy, and otherwise to another node of the ring that is not, whenever there is one; the answer is
  that node's, only the time it was last seen changes; when there is none, the answer is an error and nothing changes.
\<close>

theorem request_routing:
  assumes "ep_reachable vn configs ep" "[] \<notin> set (AllNodes (ep_ring ep))" "\<not> is_management req"
    "HandleRequest dump send now_ms req ep = (resp, ep')"
  shows "(\<exists>i st. usable ep i \<and> (usable ep (GetNode (ShardKey req) (ep_ring ep)) \<longrightarrow> i = GetNode (ShardKey req) (ep_ring ep)) \<and>
      map_of (ep_nodes ep) i = Some st \<and> resp = ForwardToNode send st req \<and> ep_ring ep' = ep_ring ep \<and>
      map_of (ep_nodes ep') = (map_of (ep_nodes ep))(i \<mapsto> st\<lparr>ns_last_seen_ms := now_ms\<rparr>)) \<or>
    ((\<forall>i. \<not> usable ep i) \<and> resp = ErrorResponse ''no healthy storage nodes available'' \<and> ep' = ep)"
proof -
  have inv: "ep_inv ep" using assms(1) by (rule ep_reachable_inv)
  note res = ResolveNode_spec [OF inv assms(2), of "ShardKey req"]
  show ?thesis
  proof (cases "ResolveNode (ShardKey req) ep")
    case None
    then show ?thesis using res assms(3,4) by (simp add: HandleRequest_def)
  next
    case (Some st)
    then obtain i where i: "usable ep i" "map_of (ep_nodes ep) i = Some st"
      "usable ep (GetNode (ShardKey req) (ep_ring ep)) \<longrightarrow> i = GetNode (ShardKey req) (ep_ring ep)" using res by auto
    have "nc_id (ns_config st) = i" using inv i(2) by (simp add: ep_inv_def)
    then have "resp = ForwardToNode send st req" "ep' = seen i now_ms ep" using Some assms(3,4) by (simp_all add: HandleRequest_def)
    then show ?thesis using i by (auto simp: seen_def map_of_node_put)
  qed
qed

definition demo_node :: "string \<Rightarrow> NodeConfig" where
  "demo_node i = \<lparr>nc_id = i, nc_host = ''127.0.0.1'', nc_port = 7000\<rparr>"

theorem request_routing_witness:
  "\<not> is_management ping_request \<and> ep_reachable 1 [demo_node ''a''] (EntrypointNode 1 [demo_node ''a'']) \<and>
   fst (HandleRequest (\<lambda>_. []) (\<lambda>_ req. Inr (ErrorResponse (rq_sql req))) 5 ping_request (EntrypointNode 1 [demo_node ''a''])) = ErrorResponse ''SELECT 1;''"
proof -
  let ?ep = "EntrypointNode 1 [demo_node ''a'']" and ?send = "\<lambda>_ req. Inr (ErrorResponse (rq_sql req))"
  have m: "\<not> is_management ping_request" by (simp add: is_management_def ping_request_def)
  have r: "ep_reachable 1 [demo_node ''a''] ?ep" by (rule ep_reachable.start)
  have u: "usable ?ep ''a''" "[] \<notin> set (AllNodes (ep_ring ?ep))"
    by (simp_all add: usable_def EntrypointNode_def demo_node_def new_node_def node_put_def AllNodes_def ring_AddNode_def ConsistentHashRing_def)
  obtain resp ep' where h: "HandleRequest (\<lambda>_. []) ?send 5 ping_request ?ep = (resp, ep')" by fastforce
  have "resp = ErrorResponse ''SELECT 1;''"
    using request_routing [OF r u(2) m h] u(1) by (auto simp: ForwardToNode_def ping_request_def)
  then show ?thesis using m r h by simp
qed

subsection \<open>The health check\<close>

lemma health_check_map: "map_of (ep_nodes (health_check i alive now_ms ep)) =
    (map_of (ep_nodes ep))(i := map_option (\<lambda>st. if alive then st\<lparr>ns_health := kHealthy, ns_last_seen_ms := now_ms\<rparr> else st\<lparr>ns_health := kUnhealthy\<rparr>)
      (map_of (ep_nodes ep) i))"
  by (auto simp: health_check_def map_of_node_put fun_eq_iff split: option.splits)

lemma health_round_map:
  assumes "distinct (map fst (ep_nodes ep))" "map_of (ep_nodes ep) i = Some st"
  shows "map_of (ep_nodes (health_round send now_ms ep)) i = Some
    (case send (ns_config st) ping_request of Inl _ \<Rightarrow> st\<lparr>ns_health := kUnhealthy\<rparr> | Inr _ \<Rightarrow> st\<lparr>ns_health := kHealthy, ns_last_seen_ms := now_ms\<rparr>)"
proof -
  let ?alive = "\<lambda>cfg. case send cfg ping_request of Inl _ \<Rightarrow> False | Inr _ \<Rightarrow> True"
  let ?up = "\<lambda>cfg st. if ?alive cfg then st\<lparr>ns_health := kHealthy, ns_last_seen_ms := now_ms\<rparr> else st\<lparr>ns_health := kUnhealthy\<rparr>"
  have f: "map_of (ep_nodes (fold (\<lambda>(i, cfg). health_check i (?alive cfg) now_ms) xs ep)) i =
      (case map_of xs i of None \<Rightarrow> map_of (ep_nodes ep) i | Some cfg \<Rightarrow> map_option (?up cfg) (map_of (ep_nodes ep) i))"
    if "distinct (map fst xs)" for xs ep using that
  proof (induction xs arbitrary: ep)
    case (Cons x xs)
    obtain j cfg where x: "x = (j, cfg)" by fastforce
    have "map_of xs j = None" using Cons.prems x by (simp add: map_of_eq_None_iff)
    then show ?case using Cons x by (auto simp: health_check_map split: option.splits)
  qed simp
  have "map_of (map (\<lambda>(i, st). (i, ns_config st)) (ep_nodes ep)) i = Some (ns_config st)" using assms(2) by (simp add: map_of_map)
  then show ?thesis using f [of "map (\<lambda>(i, st). (i, ns_config st)) (ep_nodes ep)" ep] assms
    by (auto simp: health_round_def comp_def split_def split: sum.splits)
qed

end
