(* ===== verification/Lexer.thy ===== *)
theory Lexer
  imports Characters
begin

text \<open>
  The lexer, \<^verbatim>\<open>src/parser/lexer.cpp\<close>. The position in the input is the rest of the input. A \<^verbatim>\<open>ParseError\<close> is the left
  value of a sum type.
\<close>

subsection \<open>Tokens\<close>

datatype TokenType = tEof | tIdentifier | tNumber | tString | tComma | tSemicolon | tLParen | tRParen | tDot | tStar
  | tEq | tNe | tLt | tGt | tLe | tGe | tKeyword

record Token =
  tk_type :: TokenType
  tk_lexeme :: string

abbreviation token :: "TokenType \<Rightarrow> string \<Rightarrow> Token" where
  "token t l \<equiv> \<lparr>tk_type = t, tk_lexeme = l\<rparr>"

text \<open>\<open>OutOfFuel\<close> is the failure of a parser whose recursion bound was too small; no call makes it happen.\<close>

datatype parse_error = ParseError string | OutOfFuel

type_synonym 'a parse = "parse_error + 'a"

definition IsIdentifierStart :: "char \<Rightarrow> bool" where
  "IsIdentifierStart ch \<longleftrightarrow> isalpha ch \<or> ch = CHR ''_''"

definition IsIdentifierPart :: "char \<Rightarrow> bool" where
  "IsIdentifierPart ch \<longleftrightarrow> isalnum ch \<or> ch = CHR ''_''"

subsection \<open>Tokenize\<close>

text \<open>An identifier goes on over a hyphen that a letter or a digit follows.\<close>

function lex_hyphens :: "string \<Rightarrow> string \<times> string" where
  "lex_hyphens cs =
     (case cs of
        h # c # rest \<Rightarrow>
          if h = CHR ''-'' \<and> isalnum c
          then case lex_hyphens (dropWhile IsIdentifierPart (c # rest)) of
            (l, r) \<Rightarrow> (h # takeWhile IsIdentifierPart (c # rest) @ l, r)
          else ([], cs)
      | _ \<Rightarrow> ([], cs))"
  by pat_completeness auto
termination
  by (relation "measure length") (auto simp: less_Suc_eq_le length_dropWhile_le le_SucI)

declare lex_hyphens.simps [simp del]

definition lex_identifier :: "char \<Rightarrow> string \<Rightarrow> Token \<times> string" where
  "lex_identifier ch cs =
     (case lex_hyphens (dropWhile IsIdentifierPart cs) of
        (l, rest) \<Rightarrow> (token tIdentifier (ch # takeWhile IsIdentifierPart cs @ l), rest))"

definition number_char :: "char \<Rightarrow> bool" where
  "number_char c \<longleftrightarrow> isalnum c \<or> c = CHR ''.'' \<or> c = CHR ''-'' \<or> c = CHR '':''"

definition lex_number :: "char \<Rightarrow> string \<Rightarrow> Token \<times> string" where
  "lex_number ch cs =
     (let l = takeWhile number_char cs
      in (token (if list_all isdigit l then tNumber else tIdentifier) (ch # l), dropWhile number_char cs))"

text \<open>The literal up to the closing quote; \<open>None\<close> when the input ends first.\<close>

fun lex_string :: "char \<Rightarrow> string \<Rightarrow> (string \<times> string) option" where
  "lex_string quote [] = None"
| "lex_string quote [c] = (if c = quote then Some ([], []) else None)"
| "lex_string quote (c # d # cs) =
     (if c = quote then Some ([], d # cs)
      else if c = CHR 0x5C then map_option (\<lambda>(l, r). (d # l, r)) (lex_string quote cs)
      else map_option (\<lambda>(l, r). (c # l, r)) (lex_string quote (d # cs)))"

definition lex_symbol :: "char \<Rightarrow> TokenType option" where
  "lex_symbol ch =
     (if ch = CHR '','' then Some tComma else if ch = CHR '';'' then Some tSemicolon else if ch = CHR ''('' then Some tLParen
      else if ch = CHR '')'' then Some tRParen else if ch = CHR ''.'' then Some tDot else if ch = CHR ''*'' then Some tStar
      else if ch = CHR ''='' then Some tEq else if ch = CHR ''<'' then Some tLt else if ch = CHR ''>'' then Some tGt else None)"

definition lex_operator :: "char \<Rightarrow> TokenType option" where
  "lex_operator ch =
     (if ch = CHR ''='' then Some tEq else if ch = CHR ''!'' then Some tNe else if ch = CHR ''<'' then Some tLe
      else if ch = CHR ''>'' then Some tGe else None)"

text \<open>One round of the loop on an input that starts with \<open>ch\<close>: no token for a space, or a token and the rest.\<close>

definition lex_one :: "char \<Rightarrow> string \<Rightarrow> (Token option \<times> string) parse" where
  "lex_one ch cs =
     (if isspace ch then Inr (None, cs)
      else if IsIdentifierStart ch then (case lex_identifier ch cs of (t, rest) \<Rightarrow> Inr (Some t, rest))
      else if isdigit ch then (case lex_number ch cs of (t, rest) \<Rightarrow> Inr (Some t, rest))
      else if ch = CHR 0x22 \<or> ch = CHR 0x27
      then (case lex_string ch cs of
              None \<Rightarrow> Inl (ParseError ''unterminated string literal'')
            | Some (l, rest) \<Rightarrow> Inr (Some (token tString l), rest))
      else if lex_operator ch \<noteq> None \<and> cs \<noteq> [] \<and> hd cs = CHR ''=''
      then Inr (Some (token (the (lex_operator ch)) [ch, CHR ''='']), tl cs)
      else case lex_symbol ch of
        None \<Rightarrow> Inl (ParseError (''unexpected character: '' @ [ch]))
      | Some t \<Rightarrow> Inr (Some (token t [ch]), cs))"

lemma lex_string_length: "lex_string q cs = Some (l, rest) \<Longrightarrow> length rest < length cs"
  by (induction q cs arbitrary: l rule: lex_string.induct) (fastforce split: if_splits)+

lemma lex_hyphens_length: "length (snd (lex_hyphens cs)) \<le> length cs"
proof (induction cs rule: lex_hyphens.induct)
  case (1 cs)
  show ?case
  proof (cases "\<exists>h c rest. cs = h # c # rest \<and> h = CHR ''-'' \<and> isalnum c")
    case True
    then obtain h c rest where c: "cs = h # c # rest" "h = CHR ''-''" "isalnum c" by blast
    let ?r = "dropWhile IsIdentifierPart (c # rest)"
    have "length (snd (lex_hyphens ?r)) \<le> length ?r" using 1 [OF c(1)] c(2,3) by blast
    moreover have "length ?r \<le> length (c # rest)" by (rule length_dropWhile_le)
    moreover have "snd (lex_hyphens cs) = snd (lex_hyphens ?r)"
      using c by (subst lex_hyphens.simps) (simp only: list.case if_True simp_thms prod.case_eq_if snd_conv)
    ultimately show ?thesis using c(1) by simp
  next
    case False
    then show ?thesis by (auto simp: lex_hyphens.simps [of cs] split: list.splits)
  qed
qed

lemma lex_one_length: "lex_one ch cs = Inr (t, rest) \<Longrightarrow> length rest \<le> length cs"
  using lex_hyphens_length [of "dropWhile IsIdentifierPart cs"] length_dropWhile_le [of IsIdentifierPart cs]
    length_dropWhile_le [of number_char cs] lex_string_length [of ch cs]
  by (auto simp: lex_one_def lex_identifier_def lex_number_def Let_def split: if_splits prod.splits option.splits)

function tokens_from :: "string \<Rightarrow> Token list parse" where
  "tokens_from [] = Inr [token tEof []]"
| "tokens_from (ch # cs) =
     (case lex_one ch cs of
        Inl e \<Rightarrow> Inl e
      | Inr (t, rest) \<Rightarrow> (case tokens_from rest of
          Inl e \<Rightarrow> Inl e
        | Inr ts \<Rightarrow> Inr (case t of None \<Rightarrow> ts | Some t \<Rightarrow> t # ts)))"
  by pat_completeness auto
termination by (relation "measure length") (auto dest: lex_one_length)

definition Tokenize :: "string \<Rightarrow> Token list parse" where
  "Tokenize input = tokens_from input"

subsection \<open>The text of a token\<close>

fun escape :: "string \<Rightarrow> string" where
  "escape [] = []"
| "escape (c # cs) = (if c = CHR 0x27 \<or> c = CHR 0x5C then CHR 0x5C # c # escape cs else c # escape cs)"

definition print_token :: "Token \<Rightarrow> string" where
  "print_token t = (if tk_type t = tString then CHR 0x27 # escape (tk_lexeme t) @ [CHR 0x27] else tk_lexeme t)"

definition print_tokens :: "Token list \<Rightarrow> string" where
  "print_tokens ts = concat (map (\<lambda>t. print_token t @ '' '') ts)"

definition is_word :: "string \<Rightarrow> bool" where
  "is_word l \<longleftrightarrow> l \<noteq> [] \<and> IsIdentifierStart (hd l) \<and> list_all IsIdentifierPart (tl l)"

definition token_ok :: "Token \<Rightarrow> bool" where
  "token_ok t \<longleftrightarrow>
     (case tk_type t of
        tIdentifier \<Rightarrow> is_word (tk_lexeme t)
      | tNumber \<Rightarrow> tk_lexeme t \<noteq> [] \<and> list_all isdigit (tk_lexeme t)
      | tString \<Rightarrow> True
      | tComma \<Rightarrow> tk_lexeme t = '','' | tSemicolon \<Rightarrow> tk_lexeme t = '';''
      | tLParen \<Rightarrow> tk_lexeme t = ''('' | tRParen \<Rightarrow> tk_lexeme t = '')''
      | tDot \<Rightarrow> tk_lexeme t = ''.'' | tStar \<Rightarrow> tk_lexeme t = ''*''
      | tEq \<Rightarrow> tk_lexeme t = ''='' \<or> tk_lexeme t = ''=='' | tNe \<Rightarrow> tk_lexeme t = ''!=''
      | tLt \<Rightarrow> tk_lexeme t = ''<'' | tGt \<Rightarrow> tk_lexeme t = ''>''
      | tLe \<Rightarrow> tk_lexeme t = ''<='' | tGe \<Rightarrow> tk_lexeme t = ''>=''
      | _ \<Rightarrow> False)"

lemma lex_string_escape: "lex_string (CHR 0x27) (escape l @ CHR 0x27 # rest) = Some (l, rest)"
proof (induction l)
  case (Cons c l)
  then show ?case by (cases "escape l @ CHR 0x27 # rest") auto
qed (cases rest; simp)

lemma takeWhile_word: "list_all P l \<Longrightarrow> \<not> P c \<Longrightarrow> takeWhile P (l @ c # rest) = l \<and> dropWhile P (l @ c # rest) = c # rest"
  by (auto simp: list_all_iff)

lemma space_facts: "isspace (CHR '' '')" "\<not> IsIdentifierPart (CHR '' '')" "\<not> number_char (CHR '' '')"
  by (simp_all add: ctype_simps IsIdentifierPart_def number_char_def)

lemma lex_hyphens_space: "lex_hyphens (CHR '' '' # rest) = ([], CHR '' '' # rest)"
  by (subst lex_hyphens.simps) (auto split: list.splits)

lemma identifier_start: "IsIdentifierStart c \<Longrightarrow> \<not> isspace c" "isdigit c \<Longrightarrow> \<not> isspace c \<and> \<not> IsIdentifierStart c"
  by (auto simp: ctype_simps IsIdentifierStart_def)

lemma symbol_facts: "\<not> isspace c \<and> \<not> IsIdentifierStart c \<and> \<not> isdigit c \<and> c \<noteq> CHR 0x22 \<and> c \<noteq> CHR 0x27" if "c \<in> set '',;().*=<>!''"
  using that by (auto simp: ctype_simps IsIdentifierStart_def)

lemma lex_symbols:
  "lex_one (CHR '','') cs = Inr (Some (token tComma '',''), cs)" "lex_one (CHR '';'') cs = Inr (Some (token tSemicolon '';''), cs)"
  "lex_one (CHR ''('') cs = Inr (Some (token tLParen ''(''), cs)" "lex_one (CHR '')'') cs = Inr (Some (token tRParen '')''), cs)"
  "lex_one (CHR ''.'') cs = Inr (Some (token tDot ''.''), cs)" "lex_one (CHR ''*'') cs = Inr (Some (token tStar ''*''), cs)"
  "lex_one (CHR ''='') (CHR '' '' # cs) = Inr (Some (token tEq ''=''), CHR '' '' # cs)"
  "lex_one (CHR ''<'') (CHR '' '' # cs) = Inr (Some (token tLt ''<''), CHR '' '' # cs)"
  "lex_one (CHR ''>'') (CHR '' '' # cs) = Inr (Some (token tGt ''>''), CHR '' '' # cs)"
  "lex_one (CHR ''='') (CHR ''='' # cs) = Inr (Some (token tEq ''==''), cs)"
  "lex_one (CHR ''!'') (CHR ''='' # cs) = Inr (Some (token tNe ''!=''), cs)"
  "lex_one (CHR ''<'') (CHR ''='' # cs) = Inr (Some (token tLe ''<=''), cs)"
  "lex_one (CHR ''>'') (CHR ''='' # cs) = Inr (Some (token tGe ''>=''), cs)"
  by (simp_all add: lex_one_def symbol_facts lex_symbol_def lex_operator_def)

lemma lex_token:
  assumes "token_ok t" "print_token t = ch # cs"
  shows "lex_one ch (cs @ CHR '' '' # rest) = Inr (Some t, CHR '' '' # rest)"
proof (cases "tk_type t")
  case tIdentifier
  then have w: "tk_lexeme t = ch # cs" "IsIdentifierStart ch" "list_all IsIdentifierPart cs"
    using assms by (auto simp: token_ok_def print_token_def is_word_def)
  show ?thesis using w identifier_start(1) [of ch] takeWhile_word [OF w(3) space_facts(2), of rest] tIdentifier
    by (simp add: lex_one_def lex_identifier_def lex_hyphens_space)
next
  case tNumber
  then have w: "tk_lexeme t = ch # cs" "isdigit ch" "list_all isdigit cs" using assms by (auto simp: token_ok_def print_token_def)
  have n: "list_all number_char cs" using w(3) by (auto simp: list_all_iff number_char_def isalnum_def)
  show ?thesis using w identifier_start(2) [OF w(2)] takeWhile_word [OF n space_facts(3), of rest] tNumber
    by (simp add: lex_one_def lex_number_def Let_def)
next
  case tString
  then have "ch = CHR 0x27" "cs = escape (tk_lexeme t) @ [CHR 0x27]" using assms by (auto simp: print_token_def)
  then show ?thesis using tString lex_string_escape [of "tk_lexeme t" "CHR '' '' # rest"]
    by (simp add: lex_one_def ctype_simps IsIdentifierStart_def)
qed (use assms in \<open>auto simp: token_ok_def print_token_def lex_symbols Cons_eq_append_conv\<close>)

lemma print_token_nonempty: "token_ok t \<Longrightarrow> print_token t \<noteq> []"
  by (cases "tk_type t") (auto simp: token_ok_def print_token_def is_word_def)

lemma Tokenize_print: "list_all token_ok ts \<Longrightarrow> Tokenize (print_tokens ts) = Inr (ts @ [token tEof []])"
proof (induction ts)
  case (Cons t ts)
  obtain ch cs where p: "print_token t = ch # cs" using Cons.prems print_token_nonempty by (cases "print_token t") auto
  have "tokens_from (CHR '' '' # print_tokens ts) = Inr (ts @ [token tEof []])"
    using Cons space_facts(1) by (simp add: lex_one_def Tokenize_def)
  then show ?case using Cons.prems lex_token [OF _ p, of "print_tokens ts"] p by (simp add: Tokenize_def print_tokens_def)
qed (simp add: Tokenize_def print_tokens_def)


lemma tokens_no_fuel: "tokens_from cs \<noteq> Inl OutOfFuel"
proof (induction cs rule: tokens_from.induct)
  case (2 ch cs)
  have "lex_one ch cs \<noteq> Inl OutOfFuel" by (auto simp: lex_one_def split: if_splits prod.splits option.splits)
  then show ?case using 2 by (fastforce split: sum.splits prod.splits)
qed simp

end
