(* ===== verification/Sql_Ast.thy ===== *)
theory Sql_Ast
  imports Catalog_Codec
begin

text \<open>
  Abstract syntax of the SQL subset, \<^verbatim>\<open>include/parser/ast.h\<close> and \<^verbatim>\<open>include/parser/sql_statement.h\<close>. The classes of
  expressions and statements are the constructors of two datatypes; an absent predicate is \<open>None\<close>.
\<close>

datatype BinaryOp = opEq | opNe | opLt | opGt | opLe | opGe

datatype LogicalOp = opAnd | opOr

datatype Expr =
    ColumnRefExpr string
  | LiteralExpr Value
  | BinaryExpr BinaryOp Expr Expr
  | LogicalExpr LogicalOp Expr Expr
  | BetweenExpr Expr Expr Expr
  | LikeExpr Expr Expr

record SelectItem =
  si_column :: string
  si_alias :: string

datatype SqlStatement =
    CreateDatabaseStatement string
  | DropDatabaseStatement string
  | UseDatabaseStatement string
  | CreateTableStatement string string TableSchema
  | DropTableStatement string string
  | InsertStatement string string "string list" "Value list list"
  | SelectStatement string string bool "SelectItem list" "Expr option"
  | UpdateStatement string string "(string \<times> Value) list" Expr
  | DeleteStatement string string Expr
  | RevertStatement string string int
  | CreateUserStatement string string
  | DropUserStatement string
  | LoginStatement string string
  | CreateGroupStatement string
  | DropGroupStatement string
  | AddUserToGroupStatement string string
  | GrantStatement string string string
  | RevokeStatement string string string
  | SubmitQueryStatement string
  | GetTaskStatement string
  | CancelTaskStatement string
  | ShowMetricsStatement

end
