(* ===== verification/Parser.thy ===== *)
theory Parser
  imports Lexer Sql_Ast
begin

text \<open>
  The recursive-descent parser, \<^verbatim>\<open>src/parser/parser.cpp\<close>. A parser takes the remaining tokens and returns a value and the tokens
  left, or a \<^verbatim>\<open>ParseError\<close>. The mutually recursive functions for predicates and the comma-separated lists take a bound on
  the depth of the recursion; it is set from the number of tokens, and a lemma shows that it is never reached. \<^verbatim>\<open>mktime\<close>, which
  depends on the time zone, is a parameter.
\<close>

type_synonym 'a parser = "Token list \<Rightarrow> ('a \<times> Token list) parse"

definition bindP :: "'a parser \<Rightarrow> ('a \<Rightarrow> 'b parser) \<Rightarrow> 'b parser" where
  "bindP p f ts = (case p ts of Inl e \<Rightarrow> Inl e | Inr (x, ts') \<Rightarrow> f x ts')"

definition retP :: "'a \<Rightarrow> 'a parser" where
  "retP x ts = Inr (x, ts)"

definition failP :: "string \<Rightarrow> 'a parser" where
  "failP msg ts = Inl (ParseError msg)"

definition ifP :: "bool parser \<Rightarrow> 'a parser \<Rightarrow> 'a parser \<Rightarrow> 'a parser" where
  "ifP c p q = bindP c (\<lambda>b. if b then p else q)"

subsection \<open>Words and numbers\<close>

definition Upper :: "string \<Rightarrow> string" where
  "Upper s = map toupper s"

definition IsSingleCaseWord :: "string \<Rightarrow> bool" where
  "IsSingleCaseWord word \<longleftrightarrow> \<not> (list_ex islower word \<and> list_ex isupper word)"

text \<open>\<^verbatim>\<open>strtoll\<close> on a string of digits: the value, or the largest 64-bit integer when it does not fit.\<close>

definition digits_value :: "string \<Rightarrow> nat" where
  "digits_value s = fold (\<lambda>c n. 10 * n + (of_char c - 48)) s 0"

definition strtoll :: "string \<Rightarrow> int" where
  "strtoll s = min (int (digits_value s)) (2 ^ 63 - 1)"

definition ts_number :: "string \<Rightarrow> nat \<Rightarrow> nat \<Rightarrow> int option" where
  "ts_number raw pos count =
     (if list_all isdigit (take count (drop pos raw)) \<and> pos + count \<le> length raw then Some (int (digits_value (take count (drop pos raw)))) else None)"

record tm =
  tm_year :: int
  tm_mon :: int
  tm_mday :: int
  tm_hour :: int
  tm_min :: int
  tm_sec :: int

definition ParseRevertTimestampMs :: "(tm \<Rightarrow> int) \<Rightarrow> string \<Rightarrow> int option" where
  "ParseRevertTimestampMs mktime raw =
     (if length raw < 23 then None
      else if raw ! 4 \<noteq> CHR ''.'' \<or> raw ! 7 \<noteq> CHR ''.'' \<or> raw ! 10 \<noteq> CHR ''-'' \<or> raw ! 13 \<noteq> CHR '':'' \<or> raw ! 16 \<noteq> CHR '':'' \<or> raw ! 19 \<noteq> CHR ''.'' then None
      else case (ts_number raw 0 4, ts_number raw 5 2, ts_number raw 8 2, ts_number raw 11 2, ts_number raw 14 2, ts_number raw 17 2, ts_number raw 20 3) of
        (Some year, Some month, Some day, Some hour, Some minute, Some second, Some millis) \<Rightarrow>
          if month < 1 \<or> month > 12 \<or> day < 1 \<or> day > 31 \<or> hour < 0 \<or> hour > 23 \<or> minute < 0 \<or> minute > 59 \<or> second < 0 \<or> second > 59 then None
          else if \<not> list_all isdigit (drop 23 raw) then None
          else let seconds_since_epoch = mktime \<lparr>tm_year = year - 1900, tm_mon = month - 1, tm_mday = day, tm_hour = hour, tm_min = minute, tm_sec = second\<rparr>
               in if seconds_since_epoch = -1 then None else Some (seconds_since_epoch * 1000 + millis)
      | _ \<Rightarrow> None)"

subsection \<open>Tokens\<close>

definition Peek :: "Token list \<Rightarrow> Token" where
  "Peek ts = (case ts of [] \<Rightarrow> token tEof [] | t # _ \<Rightarrow> t)"

definition At :: "TokenType \<Rightarrow> Token list \<Rightarrow> bool" where
  "At type ts \<longleftrightarrow> tk_type (Peek ts) = type"

definition Consume :: "Token parser" where
  "Consume ts = Inr (Peek ts, tl ts)"

definition Match :: "TokenType \<Rightarrow> bool parser" where
  "Match type ts = (if At type ts then Inr (True, tl ts) else Inr (False, ts))"

definition MatchKeyword :: "string \<Rightarrow> bool parser" where
  "MatchKeyword keyword ts =
     (if tk_type (Peek ts) \<noteq> tIdentifier then Inr (False, ts)
      else if Upper (tk_lexeme (Peek ts)) \<noteq> keyword then Inr (False, ts)
      else if \<not> IsSingleCaseWord (tk_lexeme (Peek ts)) then Inl (ParseError (''mixed-case keyword is not allowed: '' @ tk_lexeme (Peek ts)))
      else Inr (True, tl ts))"

definition Expect :: "TokenType \<Rightarrow> string \<Rightarrow> unit parser" where
  "Expect type what = ifP (Match type) (retP ()) (failP (''expected '' @ what))"

definition ExpectKeyword :: "string \<Rightarrow> unit parser" where
  "ExpectKeyword keyword = ifP (MatchKeyword keyword) (retP ()) (failP (''expected '' @ keyword))"

definition whenAt :: "TokenType \<Rightarrow> 'a parser \<Rightarrow> 'a parser \<Rightarrow> 'a parser" where
  "whenAt type p q ts = (if At type ts then p ts else q ts)"

definition ParseLexeme :: "string parser" where
  "ParseLexeme = bindP Consume (\<lambda>t. retP (tk_lexeme t))"

definition ParseIdentifier :: "string parser" where
  "ParseIdentifier = whenAt tIdentifier ParseLexeme (failP ''expected identifier'')"

definition ParseQualifiedName :: "(string \<times> string) parser" where
  "ParseQualifiedName =
     bindP ParseIdentifier (\<lambda>first.
     ifP (Match tDot) (bindP ParseIdentifier (\<lambda>second. retP (first, second))) (retP ([], first)))"

definition Finish :: "unit parser" where
  "Finish = bindP (Match tSemicolon) (\<lambda>_. whenAt tEof (retP ()) (failP ''unexpected tokens after statement''))"

subsection \<open>Expressions\<close>

definition ParseLiteralValue :: "Value parser" where
  "ParseLiteralValue =
     whenAt tNumber (bindP ParseLexeme (\<lambda>text. retP (VInt (strtoll text))))
     (whenAt tString (bindP ParseLexeme (\<lambda>text. retP (VString text)))
     (ifP (MatchKeyword ''NULL'') (retP VNull) (failP ''expected literal value'')))"

definition ParseOperand :: "Expr parser" where
  "ParseOperand ts =
     (if At tNumber ts \<or> At tString ts then bindP ParseLiteralValue (\<lambda>v. retP (LiteralExpr v)) ts
      else ifP (MatchKeyword ''NULL'') (retP (LiteralExpr VNull))
        (whenAt tIdentifier (bindP ParseIdentifier (\<lambda>name. retP (ColumnRefExpr name))) (failP ''expected expression operand'')) ts)"

definition ParseBinaryOp :: "BinaryOp parser" where
  "ParseBinaryOp =
     ifP (Match tEq) (retP opEq) (ifP (Match tNe) (retP opNe) (ifP (Match tLt) (retP opLt) (ifP (Match tGt) (retP opGt)
     (ifP (Match tLe) (retP opLe) (ifP (Match tGe) (retP opGe) (failP ''expected comparison operator''))))))"

definition ParseComparison :: "Expr parser" where
  "ParseComparison =
     bindP ParseOperand (\<lambda>left.
     ifP (MatchKeyword ''BETWEEN'')
       (bindP ParseOperand (\<lambda>low. bindP (ExpectKeyword ''AND'') (\<lambda>_. bindP ParseOperand (\<lambda>high. retP (BetweenExpr left low high)))))
     (ifP (MatchKeyword ''LIKE'')
       (bindP ParseOperand (\<lambda>pattern. retP (LikeExpr left pattern)))
     (bindP ParseBinaryOp (\<lambda>op. bindP ParseOperand (\<lambda>right. retP (BinaryExpr op left right))))))"

definition fuelOut :: "'a parser" where
  "fuelOut ts = Inl OutOfFuel"

fun ParseOr :: "nat \<Rightarrow> Expr parser"
  and or_loop :: "nat \<Rightarrow> Expr \<Rightarrow> Expr parser"
  and ParseAnd :: "nat \<Rightarrow> Expr parser"
  and and_loop :: "nat \<Rightarrow> Expr \<Rightarrow> Expr parser"
  and ParsePredicate :: "nat \<Rightarrow> Expr parser" where
  "ParseOr 0 = fuelOut"
| "ParseOr (Suc n) = bindP (ParseAnd n) (or_loop n)"
| "or_loop 0 expr = fuelOut"
| "or_loop (Suc n) expr = ifP (MatchKeyword ''OR'') (bindP (ParseAnd n) (\<lambda>right. or_loop n (LogicalExpr opOr expr right))) (retP expr)"
| "ParseAnd 0 = fuelOut"
| "ParseAnd (Suc n) = bindP (ParsePredicate n) (and_loop n)"
| "and_loop 0 expr = fuelOut"
| "and_loop (Suc n) expr = ifP (MatchKeyword ''AND'') (bindP (ParsePredicate n) (\<lambda>right. and_loop n (LogicalExpr opAnd expr right))) (retP expr)"
| "ParsePredicate 0 = fuelOut"
| "ParsePredicate (Suc n) =
     ifP (Match tLParen) (bindP (ParseOr n) (\<lambda>expr. bindP (Expect tRParen '')'') (\<lambda>_. retP expr))) ParseComparison"

definition ParseExpr :: "Expr parser" where
  "ParseExpr ts = ParseOr (3 * length ts + 3) ts"

definition ParseWhereIfPresent :: "Expr option parser" where
  "ParseWhereIfPresent = ifP (MatchKeyword ''WHERE'') (bindP ParseExpr (\<lambda>e. retP (Some e))) (retP None)"

subsection \<open>Statements\<close>

text \<open>A list with commas: the body of \<^verbatim>\<open>do { ... } while (Match(kComma))\<close>.\<close>

fun comma_list :: "nat \<Rightarrow> 'a parser \<Rightarrow> 'a list parser" where
  "comma_list 0 p = fuelOut"
| "comma_list (Suc n) p = bindP p (\<lambda>x. ifP (Match tComma) (bindP (comma_list n p) (\<lambda>xs. retP (x # xs))) (retP [x]))"

definition ParseList :: "'a parser \<Rightarrow> 'a list parser" where
  "ParseList p ts = comma_list (length ts + 1) p ts"

fun column_flags :: "ColumnSchema \<Rightarrow> ColumnSchema parser" where
  "column_flags column [] = retP column []"
| "column_flags column (t # ts) =
     (if tk_type t \<noteq> tIdentifier then retP column (t # ts)
      else case MatchKeyword ''NOT_NULL'' (t # ts) of
        Inl e \<Rightarrow> Inl e
      | Inr (True, _) \<Rightarrow> column_flags (column\<lparr>col_not_null := True\<rparr>) ts
      | Inr (False, _) \<Rightarrow> (case MatchKeyword ''INDEXED'' (t # ts) of
          Inl e \<Rightarrow> Inl e
        | Inr (True, _) \<Rightarrow> column_flags (column\<lparr>col_indexed := True, col_not_null := True\<rparr>) ts
        | Inr (False, _) \<Rightarrow> retP column (t # ts)))"

definition ParseColumn :: "ColumnSchema parser" where
  "ParseColumn =
     bindP ParseIdentifier (\<lambda>name. bindP ParseIdentifier (\<lambda>type.
       if Upper type = ''INT'' then column_flags \<lparr>col_name = name, col_type = cInt, col_not_null = False, col_indexed = False, col_default = None\<rparr>
       else if Upper type = ''STRING'' then column_flags \<lparr>col_name = name, col_type = cString, col_not_null = False, col_indexed = False, col_default = None\<rparr>
       else failP ''expected INT or STRING column type''))"

definition finished :: "SqlStatement \<Rightarrow> SqlStatement parser" where
  "finished stmt = bindP Finish (\<lambda>_. retP stmt)"

definition ParseCreateTable :: "SqlStatement parser" where
  "ParseCreateTable =
     bindP ParseQualifiedName (\<lambda>(db, table). bindP (Expect tLParen ''('') (\<lambda>_. bindP (ParseList ParseColumn) (\<lambda>columns.
     bindP (Expect tRParen '')'') (\<lambda>_. finished (CreateTableStatement db table columns)))))"

definition ParseValueRow :: "Value list parser" where
  "ParseValueRow = bindP (Expect tLParen ''('') (\<lambda>_. bindP (ParseList ParseLiteralValue) (\<lambda>row. bindP (Expect tRParen '')'') (\<lambda>_. retP row)))"

definition ParseInsert :: "SqlStatement parser" where
  "ParseInsert =
     bindP (ExpectKeyword ''INTO'') (\<lambda>_. bindP ParseQualifiedName (\<lambda>(db, table). bindP (Expect tLParen ''('') (\<lambda>_.
     bindP (ParseList ParseIdentifier) (\<lambda>columns. bindP (Expect tRParen '')'') (\<lambda>_. bindP (ExpectKeyword ''VALUE'') (\<lambda>_.
     bindP (ParseList ParseValueRow) (\<lambda>rows. finished (InsertStatement db table columns rows))))))))"

definition ParseSelectItem :: "SelectItem parser" where
  "ParseSelectItem =
     bindP ParseIdentifier (\<lambda>column. ifP (MatchKeyword ''AS'')
       (bindP ParseIdentifier (\<lambda>alias. retP \<lparr>si_column = column, si_alias = alias\<rparr>)) (retP \<lparr>si_column = column, si_alias = []\<rparr>))"

definition ParseSelect :: "SqlStatement parser" where
  "ParseSelect =
     bindP (ifP (Match tStar) (retP (True, []))
       (bindP (Expect tLParen ''('') (\<lambda>_. bindP (ParseList ParseSelectItem) (\<lambda>items. bindP (Expect tRParen '')'') (\<lambda>_. retP (False, items))))))
     (\<lambda>(select_all, items). bindP (ExpectKeyword ''FROM'') (\<lambda>_. bindP ParseQualifiedName (\<lambda>(db, table).
     bindP ParseWhereIfPresent (\<lambda>where_expr. finished (SelectStatement db table select_all items where_expr)))))"

definition ParseAssignment :: "(string \<times> Value) parser" where
  "ParseAssignment = bindP ParseIdentifier (\<lambda>column. bindP (Expect tEq ''='') (\<lambda>_. bindP ParseLiteralValue (\<lambda>v. retP (column, v))))"

definition ParseUpdate :: "SqlStatement parser" where
  "ParseUpdate =
     bindP ParseQualifiedName (\<lambda>(db, table). bindP (ExpectKeyword ''SET'') (\<lambda>_. bindP (ParseList ParseAssignment) (\<lambda>assignments.
     bindP (ExpectKeyword ''WHERE'') (\<lambda>_. bindP ParseExpr (\<lambda>e. finished (UpdateStatement db table assignments e))))))"

definition ParseDelete :: "SqlStatement parser" where
  "ParseDelete =
     bindP (ExpectKeyword ''FROM'') (\<lambda>_. bindP ParseQualifiedName (\<lambda>(db, table). bindP (ExpectKeyword ''WHERE'') (\<lambda>_.
     bindP ParseExpr (\<lambda>e. finished (DeleteStatement db table e)))))"

definition ParseRevert :: "(tm \<Rightarrow> int) \<Rightarrow> SqlStatement parser" where
  "ParseRevert mktime =
     bindP ParseQualifiedName (\<lambda>(db, table).
     bindP (\<lambda>ts. if \<not> At tIdentifier ts \<and> \<not> At tNumber ts then failP ''expected revert timestamp'' ts else ParseLexeme ts) (\<lambda>raw.
     case ParseRevertTimestampMs mktime raw of
       None \<Rightarrow> failP ''expected timestamp in yyyy.mm.dd-hh:mm:ss.mmm format''
     | Some timestamp_ms \<Rightarrow> finished (RevertStatement db table timestamp_ms)))"

definition ParsePassword :: "string parser" where
  "ParsePassword = bindP (ExpectKeyword ''PASSWORD'') (\<lambda>_. whenAt tString ParseLexeme (failP ''expected quoted password string''))"

definition ParseCreateUser :: "SqlStatement parser" where
  "ParseCreateUser = bindP ParseIdentifier (\<lambda>user_id. bindP ParsePassword (\<lambda>password. finished (CreateUserStatement user_id password)))"

definition ParseCreateGroup :: "SqlStatement parser" where
  "ParseCreateGroup = bindP ParseIdentifier (\<lambda>group_name. finished (CreateGroupStatement group_name))"

definition ParseLogin :: "SqlStatement parser" where
  "ParseLogin = bindP ParseIdentifier (\<lambda>user_id. bindP ParsePassword (\<lambda>password. finished (LoginStatement user_id password)))"

fun permission_words :: "string \<Rightarrow> string \<Rightarrow> string parser" where
  "permission_words stop permission [] = retP permission []"
| "permission_words stop permission (t # ts) =
     (if tk_type t = tIdentifier \<and> Upper (tk_lexeme t) \<noteq> stop then permission_words stop (permission @ ''_'' @ Upper (tk_lexeme t)) ts
      else retP permission (t # ts))"

definition ParsePermission :: "string \<Rightarrow> string \<Rightarrow> (string \<times> string \<times> string) parser" where
  "ParsePermission stop what =
     bindP ParseIdentifier (\<lambda>first. bindP (permission_words stop (Upper first)) (\<lambda>permission. bindP (ExpectKeyword stop) (\<lambda>_.
     bindP (ifP (MatchKeyword ''USER'') (retP ''USER'') (ifP (MatchKeyword ''GROUP'') (retP ''GROUP'')
       (failP (''expected USER or GROUP after '' @ stop @ '' in '' @ what)))) (\<lambda>target_type.
     bindP ParseIdentifier (\<lambda>target_name. retP (permission, target_type, target_name))))))"

definition ParseGrant :: "SqlStatement parser" where
  "ParseGrant = bindP (ParsePermission ''TO'' ''GRANT'') (\<lambda>(permission, target_type, target_name). finished (GrantStatement permission target_type target_name))"

definition ParseRevoke :: "SqlStatement parser" where
  "ParseRevoke = bindP (ParsePermission ''FROM'' ''REVOKE'') (\<lambda>(permission, target_type, target_name). finished (RevokeStatement permission target_type target_name))"

definition ParseAddUserToGroup :: "SqlStatement parser" where
  "ParseAddUserToGroup =
     bindP (ExpectKeyword ''USER'') (\<lambda>_. bindP ParseIdentifier (\<lambda>user_id. bindP (ExpectKeyword ''TO'') (\<lambda>_. bindP (ExpectKeyword ''GROUP'') (\<lambda>_.
     bindP ParseIdentifier (\<lambda>group_name. finished (AddUserToGroupStatement user_id group_name))))))"

definition ParseSubmitQuery :: "SqlStatement parser" where
  "ParseSubmitQuery =
     bindP (ExpectKeyword ''QUERY'') (\<lambda>_. bindP (whenAt tString ParseLexeme (failP ''expected quoted SQL string after SUBMIT QUERY'')) (\<lambda>inner_sql.
     finished (SubmitQueryStatement inner_sql)))"

definition ParseGetTask :: "SqlStatement parser" where
  "ParseGetTask = bindP (ExpectKeyword ''TASK'') (\<lambda>_. bindP ParseIdentifier (\<lambda>request_id. finished (GetTaskStatement request_id)))"

definition ParseCancelTask :: "SqlStatement parser" where
  "ParseCancelTask = bindP (ExpectKeyword ''TASK'') (\<lambda>_. bindP ParseIdentifier (\<lambda>request_id. finished (CancelTaskStatement request_id)))"

definition ParseCreate :: "SqlStatement parser" where
  "ParseCreate =
     ifP (MatchKeyword ''DATABASE'') (bindP ParseIdentifier (\<lambda>db. finished (CreateDatabaseStatement db)))
     (ifP (MatchKeyword ''TABLE'') ParseCreateTable
     (ifP (MatchKeyword ''USER'') ParseCreateUser
     (ifP (MatchKeyword ''GROUP'') ParseCreateGroup
     (failP ''expected DATABASE, TABLE, USER or GROUP after CREATE''))))"

definition ParseDrop :: "SqlStatement parser" where
  "ParseDrop =
     ifP (MatchKeyword ''DATABASE'') (bindP ParseIdentifier (\<lambda>db. finished (DropDatabaseStatement db)))
     (ifP (MatchKeyword ''TABLE'') (bindP ParseQualifiedName (\<lambda>(db, table). finished (DropTableStatement db table)))
     (ifP (MatchKeyword ''USER'') (bindP ParseIdentifier (\<lambda>user_id. finished (DropUserStatement user_id)))
     (ifP (MatchKeyword ''GROUP'') (bindP ParseIdentifier (\<lambda>group_name. finished (DropGroupStatement group_name)))
     (failP ''expected DATABASE, TABLE, USER or GROUP after DROP''))))"

definition ParseShow :: "SqlStatement parser" where
  "ParseShow = ifP (MatchKeyword ''METRICS'') (finished ShowMetricsStatement) (failP ''expected METRICS after SHOW'')"

definition ParseStatement :: "(tm \<Rightarrow> int) \<Rightarrow> SqlStatement parser" where
  "ParseStatement mktime =
     ifP (MatchKeyword ''CREATE'') ParseCreate
     (ifP (MatchKeyword ''DROP'') ParseDrop
     (ifP (MatchKeyword ''USE'') (bindP ParseIdentifier (\<lambda>db. finished (UseDatabaseStatement db)))
     (ifP (MatchKeyword ''INSERT'') ParseInsert
     (ifP (MatchKeyword ''SELECT'') ParseSelect
     (ifP (MatchKeyword ''UPDATE'') ParseUpdate
     (ifP (MatchKeyword ''DELETE'') ParseDelete
     (ifP (MatchKeyword ''REVERT'') (ParseRevert mktime)
     (ifP (MatchKeyword ''LOGIN'') ParseLogin
     (ifP (MatchKeyword ''GRANT'') ParseGrant
     (ifP (MatchKeyword ''REVOKE'') ParseRevoke
     (ifP (MatchKeyword ''ADD'') ParseAddUserToGroup
     (ifP (MatchKeyword ''SUBMIT'') ParseSubmitQuery
     (ifP (MatchKeyword ''GET'') ParseGetTask
     (ifP (MatchKeyword ''CANCEL'') ParseCancelTask
     (ifP (MatchKeyword ''SHOW'') ParseShow
     (failP ''unknown SQL command''))))))))))))))))"

definition Parse :: "(tm \<Rightarrow> int) \<Rightarrow> string \<Rightarrow> SqlStatement parse" where
  "Parse mktime sql =
     (case Tokenize sql of
        Inl e \<Rightarrow> Inl e
      | Inr tokens \<Rightarrow> (case ParseStatement mktime tokens of Inl e \<Rightarrow> Inl e | Inr (stmt, _) \<Rightarrow> Inr stmt))"


subsection \<open>The recursion bound is never reached\<close>

lemmas parser_defs = bindP_def retP_def failP_def ifP_def whenAt_def

text \<open>A parser that never runs out of fuel and never lengthens the input.\<close>

definition safe :: "'a parser \<Rightarrow> bool" where
  "safe p \<longleftrightarrow> (\<forall>ts. p ts \<noteq> Inl OutOfFuel \<and> (\<forall>x ts'. p ts = Inr (x, ts') \<longrightarrow> length ts' \<le> length ts))"

definition within :: "nat \<Rightarrow> nat \<Rightarrow> 'a parser \<Rightarrow> bool" where
  "within k n p \<longleftrightarrow> (\<forall>ts. length ts \<le> n \<longrightarrow> p ts \<noteq> Inl OutOfFuel \<and> (\<forall>x ts'. p ts = Inr (x, ts') \<longrightarrow> length ts' + k \<le> length ts))"

lemma withinD: "within k n p \<Longrightarrow> length ts \<le> n \<Longrightarrow> p ts \<noteq> Inl OutOfFuel \<and> (\<forall>x ts'. p ts = Inr (x, ts') \<longrightarrow> length ts' + k \<le> length ts)"
  by (simp add: within_def)

named_theorems safe_intros

lemma safe_within: "safe p \<Longrightarrow> within 0 n p"
  by (auto simp: safe_def within_def)

lemma safe_bind [safe_intros]: "safe p \<Longrightarrow> (\<And>x. safe (f x)) \<Longrightarrow> safe (bindP p f)"
  unfolding safe_def bindP_def by (fastforce split: sum.splits dest: order_trans)

lemma safe_ret [safe_intros]: "safe (retP x)"
  by (simp add: safe_def retP_def)

lemma safe_fail [safe_intros]: "safe (failP m)"
  by (simp add: safe_def failP_def)

lemma safe_if [safe_intros]: "safe c \<Longrightarrow> safe p \<Longrightarrow> safe q \<Longrightarrow> safe (ifP c p q)"
  unfolding ifP_def by (rule safe_bind) auto

lemma safe_whenAt [safe_intros]: "safe p \<Longrightarrow> safe q \<Longrightarrow> safe (whenAt t p q)"
  by (simp add: safe_def whenAt_def)

lemma safe_case_prod [safe_intros]: "(\<And>x y. safe (f x y)) \<Longrightarrow> safe (case z of (x, y) \<Rightarrow> f x y)"
  by (cases z) simp

lemma safe_Consume [safe_intros]: "safe Consume"
  by (simp add: safe_def Consume_def)

lemma safe_Match [safe_intros]: "safe (Match t)"
  by (simp add: safe_def Match_def)

lemma safe_MatchKeyword [safe_intros]: "safe (MatchKeyword k)"
  by (auto simp: safe_def MatchKeyword_def)

lemma safe_ParseOperand [safe_intros]: "safe ParseOperand"
proof -
  have "safe (bindP ParseLiteralValue (\<lambda>v. retP (LiteralExpr v)))" unfolding ParseLiteralValue_def ParseLexeme_def by (intro safe_intros)
  moreover have "safe (ifP (MatchKeyword ''NULL'') (retP (LiteralExpr VNull))
      (whenAt tIdentifier (bindP ParseIdentifier (\<lambda>name. retP (ColumnRefExpr name))) (failP ''expected expression operand'')))"
    unfolding ParseIdentifier_def ParseLexeme_def by (intro safe_intros)
  ultimately show ?thesis by (simp add: safe_def ParseOperand_def)
qed

lemma ParseOperand_consumes: "ParseOperand ts = Inr (x, ts') \<Longrightarrow> length ts' < length ts"
  by (cases ts) (auto simp: ParseOperand_def ParseLiteralValue_def ParseIdentifier_def ParseLexeme_def parser_defs Match_def MatchKeyword_def At_def
      Peek_def Consume_def split: if_splits)

lemma safe_ParseComparison [safe_intros]: "safe ParseComparison"
  unfolding ParseComparison_def ParseBinaryOp_def ExpectKeyword_def by (intro safe_intros)

lemma ParseComparison_consumes: "ParseComparison ts = Inr (x, ts') \<Longrightarrow> length ts' < length ts"
proof -
  assume a: "ParseComparison ts = Inr (x, ts')"
  then obtain l ts1 where l: "ParseOperand ts = Inr (l, ts1)" by (auto simp: ParseComparison_def bindP_def split: sum.splits)
  define rest where "rest = ifP (MatchKeyword ''BETWEEN'')
       (bindP ParseOperand (\<lambda>low. bindP (ExpectKeyword ''AND'') (\<lambda>_. bindP ParseOperand (\<lambda>high. retP (BetweenExpr l low high)))))
     (ifP (MatchKeyword ''LIKE'') (bindP ParseOperand (\<lambda>pattern. retP (LikeExpr l pattern)))
     (bindP ParseBinaryOp (\<lambda>op. bindP ParseOperand (\<lambda>right. retP (BinaryExpr op l right)))))"
  have "safe rest" unfolding rest_def ParseBinaryOp_def ExpectKeyword_def by (intro safe_intros)
  moreover have "rest ts1 = Inr (x, ts')" using a l by (simp add: ParseComparison_def rest_def bindP_def)
  ultimately have "length ts' \<le> length ts1" by (auto simp: safe_def)
  then show ?thesis using ParseOperand_consumes [OF l] by simp
qed

lemma MatchKeyword_True: "MatchKeyword k ts = Inr (True, ts') \<Longrightarrow> length ts = Suc (length ts')"
  by (cases ts) (auto simp: MatchKeyword_def Peek_def split: if_splits)

lemma MatchKeyword_cases:
  obtains m where "MatchKeyword k ts = Inl (ParseError m)" | "MatchKeyword k ts = Inr (False, ts)" | ts' where "MatchKeyword k ts = Inr (True, ts')"
proof -
  have "(\<exists>m. MatchKeyword k ts = Inl (ParseError m)) \<or> MatchKeyword k ts = Inr (False, ts) \<or> (\<exists>ts'. MatchKeyword k ts = Inr (True, ts'))"
    by (simp add: MatchKeyword_def)
  then show thesis using that by blast
qed

lemma within_bind:
  assumes "within k n p" "\<And>x. within j (n - k) (f x)"
  shows "within (k + j) n (bindP p f)"
  unfolding within_def
proof (intro allI impI conjI)
  fix ts :: "Token list"
  assume n: "length ts \<le> n"
  show "bindP p f ts \<noteq> Inl OutOfFuel"
  proof (cases "p ts")
    case (Inr r)
    then obtain x ts1 where "p ts = Inr (x, ts1)" "length ts1 + k \<le> length ts" using assms(1) n by (cases r) (auto simp: within_def)
    then show ?thesis using assms(2) [of x] n by (auto simp: within_def bindP_def)
  qed (use assms(1) n in \<open>auto simp: within_def bindP_def\<close>)
  fix y ts'
  assume "bindP p f ts = Inr (y, ts')"
  then obtain x ts1 where r: "p ts = Inr (x, ts1)" "f x ts1 = Inr (y, ts')" by (auto simp: bindP_def split: sum.splits)
  then have a: "length ts1 + k \<le> length ts" using assms(1) n by (auto simp: within_def)
  then have "length ts1 \<le> n - k" using n by simp
  then have "length ts' + j \<le> length ts1" using assms(2) [of x] r(2) unfolding within_def by blast
  then show "length ts' + (k + j) \<le> length ts" using a by simp
qed

lemma within_loop:
  assumes "\<And>m. m + 1 \<le> n \<Longrightarrow> within 1 m p" "\<And>x m. m + 2 \<le> n \<Longrightarrow> within 0 m (f x)"
  shows "within 0 n (ifP (MatchKeyword k) (bindP p f) (retP e))"
  unfolding within_def
proof (intro allI impI)
  fix ts :: "Token list"
  assume n: "length ts \<le> n"
  show "ifP (MatchKeyword k) (bindP p f) (retP e) ts \<noteq> Inl OutOfFuel \<and>
    (\<forall>x ts'. ifP (MatchKeyword k) (bindP p f) (retP e) ts = Inr (x, ts') \<longrightarrow> length ts' + 0 \<le> length ts)"
  proof (cases rule: MatchKeyword_cases [of k ts])
    case (3 ts1)
    have l: "length ts = Suc (length ts1)" using MatchKeyword_True [OF 3] .
    show ?thesis
    proof (cases "p ts1")
      case (Inl e)
      then show ?thesis using 3 assms(1) [of "length ts1"] l n by (auto simp: ifP_def bindP_def within_def)
    next
      case (Inr r)
      then obtain x ts2 where x: "p ts1 = Inr (x, ts2)" "length ts2 + 1 \<le> length ts1" using assms(1) [of "length ts1"] l n by (cases r) (auto simp: within_def)
      then have "within 0 (length ts2) (f x)" using assms(2) [of "length ts2" x] l n by simp
      then show ?thesis using 3 x l by (fastforce simp: ifP_def bindP_def within_def)
    qed
  qed (auto simp: ifP_def bindP_def retP_def)
qed

lemma within_pred:
  assumes "\<And>m. m + 1 \<le> n \<Longrightarrow> within 1 m p"
  shows "within 1 n (ifP (Match tLParen) (bindP p (\<lambda>expr. bindP (Expect tRParen '')'') (\<lambda>_. retP expr))) ParseComparison)"
  unfolding within_def
proof (intro allI impI)
  fix ts :: "Token list"
  assume n: "length ts \<le> n"
  let ?q = "\<lambda>expr. bindP (Expect tRParen '')'') (\<lambda>_. retP expr)"
  let ?p = "ifP (Match tLParen) (bindP p ?q) ParseComparison"
  show "?p ts \<noteq> Inl OutOfFuel \<and> (\<forall>x ts'. ?p ts = Inr (x, ts') \<longrightarrow> length ts' + 1 \<le> length ts)"
  proof (cases "At tLParen ts")
    case False
    then have "?p ts = ParseComparison ts" by (simp add: ifP_def bindP_def Match_def)
    then show ?thesis using safe_ParseComparison ParseComparison_consumes [of ts] by (auto simp: safe_def Suc_le_eq)
  next
    case True
    then obtain t ts1 where ts: "ts = t # ts1" by (cases ts) (auto simp: At_def Peek_def)
    have "safe (?q x)" for x unfolding Expect_def by (intro safe_intros)
    then have q: "within 0 m (?q x)" for m x by (rule safe_within)
    have "within 1 (length ts1) p" using assms ts n by simp
    then have "within (1 + 0) (length ts1) (bindP p ?q)" by (rule within_bind) (rule q)
    note w = withinD [OF this order_refl]
    have eq: "?p ts = bindP p ?q ts1" using True ts by (simp add: ifP_def bindP_def Match_def)
    have "length ts1 \<le> length ts" using ts by simp
    then show ?thesis unfolding eq using w by (auto intro: order_trans)
  qed
qed

lemma enough_fuel:
  "(3 * n + 3 \<le> f \<longrightarrow> within 1 n (ParseOr f)) \<and> (3 * n + 1 \<le> f \<longrightarrow> within 0 n (or_loop f e)) \<and>
   (3 * n + 2 \<le> f \<longrightarrow> within 1 n (ParseAnd f)) \<and> (3 * n + 1 \<le> f \<longrightarrow> within 0 n (and_loop f e)) \<and>
   (3 * n + 1 \<le> f \<longrightarrow> within 1 n (ParsePredicate f))"
proof (induction f arbitrary: n e)
  case (Suc f)
  have or: "within 1 m (ParseOr f)" if "3 * m + 3 \<le> f" for m using Suc that by blast
  have ol: "within 0 m (or_loop f e)" if "3 * m + 1 \<le> f" for m e using Suc that by blast
  have an: "within 1 m (ParseAnd f)" if "3 * m + 2 \<le> f" for m using Suc that by blast
  have al: "within 0 m (and_loop f e)" if "3 * m + 1 \<le> f" for m e using Suc that by blast
  have pr: "within 1 m (ParsePredicate f)" if "3 * m + 1 \<le> f" for m using Suc that by blast
  have "within 1 n (ParseOr (Suc f))" if "3 * n + 3 \<le> Suc f"
    using within_bind [of 1 n "ParseAnd f" 0 "or_loop f"] an [of n] ol [of "n - 1"] that by simp
  moreover have "within 0 n (or_loop (Suc f) e)" if "3 * n + 1 \<le> Suc f"
    unfolding or_loop.simps by (rule within_loop; (rule an | rule ol)) (use that in linarith)+
  moreover have "within 1 n (ParseAnd (Suc f))" if "3 * n + 2 \<le> Suc f"
    using within_bind [of 1 n "ParsePredicate f" 0 "and_loop f"] pr [of n] al [of "n - 1"] that by simp
  moreover have "within 0 n (and_loop (Suc f) e)" if "3 * n + 1 \<le> Suc f"
    unfolding and_loop.simps by (rule within_loop; (rule pr | rule al)) (use that in linarith)+
  moreover have "within 1 n (ParsePredicate (Suc f))" if "3 * n + 1 \<le> Suc f"
    unfolding ParsePredicate.simps by (rule within_pred; rule or) (use that in linarith)
  ultimately show ?case by blast
qed simp

lemma safe_ParseExpr [safe_intros]: "safe ParseExpr"
proof -
  have "within 1 (length ts) (ParseOr (3 * length ts + 3))" for ts :: "Token list" using enough_fuel [of "length ts"] by blast
  then show ?thesis by (fastforce simp: safe_def within_def ParseExpr_def)
qed

lemma safe_comma_list: "safe p \<Longrightarrow> length ts < f \<Longrightarrow> comma_list f p ts \<noteq> Inl OutOfFuel \<and> (\<forall>xs ts'. comma_list f p ts = Inr (xs, ts') \<longrightarrow> length ts' \<le> length ts)"
proof (induction f arbitrary: ts)
  case (Suc f)
  show ?case
  proof (cases "p ts")
    case (Inl e)
    then show ?thesis using Suc.prems(1) by (auto simp: bindP_def safe_def)
  next
    case (Inr r)
    then obtain x ts1 where x: "p ts = Inr (x, ts1)" "length ts1 \<le> length ts" using Suc.prems(1) by (cases r) (auto simp: safe_def)
    show ?thesis
    proof (cases "At tComma ts1")
      case False
      then show ?thesis using x by (simp add: bindP_def ifP_def Match_def retP_def)
    next
      case True
      then obtain t ts2 where t: "ts1 = t # ts2" by (cases ts1) (auto simp: At_def Peek_def)
      have "comma_list f p ts2 \<noteq> Inl OutOfFuel \<and> (\<forall>xs ts'. comma_list f p ts2 = Inr (xs, ts') \<longrightarrow> length ts' \<le> length ts2)"
        using Suc.IH [of ts2] Suc.prems x t by simp
      then show ?thesis using x t True by (fastforce simp: bindP_def ifP_def Match_def retP_def split: sum.splits)
    qed
  qed
qed simp

lemma safe_ParseList [safe_intros]: "safe p \<Longrightarrow> safe (ParseList p)"
  unfolding safe_def [of "ParseList p"] ParseList_def by (intro allI safe_comma_list) simp_all

lemma safe_column_flags [safe_intros]: "safe (column_flags column)"
proof -
  have "column_flags column ts \<noteq> Inl OutOfFuel \<and> (\<forall>x ts'. column_flags column ts = Inr (x, ts') \<longrightarrow> length ts' \<le> length ts)" for ts
    by (induction ts arbitrary: column)
      (auto simp: retP_def MatchKeyword_def split: if_splits sum.splits prod.splits bool.splits intro: le_SucI)
  then show ?thesis by (simp add: safe_def)
qed

lemma safe_permission_words [safe_intros]: "safe (permission_words stop permission)"
proof -
  have "permission_words stop permission ts \<noteq> Inl OutOfFuel \<and> (\<forall>x ts'. permission_words stop permission ts = Inr (x, ts') \<longrightarrow> length ts' \<le> length ts)" for ts
    by (induction stop permission ts rule: permission_words.induct) (auto simp: retP_def intro: le_SucI)
  then show ?thesis by (simp add: safe_def)
qed


lemma safe_Parsers [safe_intros]: "safe ParseIdentifier" "safe ParseLexeme" "safe (Expect t w)" "safe (ExpectKeyword k)" "safe ParseLiteralValue"
  unfolding ParseIdentifier_def ParseLexeme_def Expect_def ExpectKeyword_def ParseLiteralValue_def by (intro safe_intros)+

lemma safe_parts [safe_intros]: "safe ParseQualifiedName" "safe (finished stmt)" "safe ParsePassword" "safe (ParsePermission stop what)" "safe ParseWhereIfPresent"
  unfolding ParseQualifiedName_def finished_def Finish_def ParsePassword_def ParsePermission_def ParseWhereIfPresent_def by (intro safe_intros)+

lemma safe_ParseColumn [safe_intros]: "safe ParseColumn"
proof -
  have "safe (if Upper type = ''INT'' then column_flags c1 else if Upper type = ''STRING'' then column_flags c2 else failP m)" for type c1 c2 m
    by (simp add: safe_intros)
  then show ?thesis unfolding ParseColumn_def by (intro safe_intros)
qed

lemma safe_items [safe_intros]: "safe ParseValueRow" "safe ParseSelectItem" "safe ParseAssignment"
  unfolding ParseValueRow_def ParseSelectItem_def ParseAssignment_def by (intro safe_intros)+

lemma safe_ParseRevert [safe_intros]: "safe (ParseRevert mktime)"
proof -
  have 1: "safe (\<lambda>ts. if \<not> At tIdentifier ts \<and> \<not> At tNumber ts then failP m ts else ParseLexeme ts)" for m
    using safe_Parsers(2) by (auto simp: safe_def failP_def)
  have 2: "safe (case z of None \<Rightarrow> failP m | Some t \<Rightarrow> finished (f t))" for z m and f :: "int \<Rightarrow> SqlStatement"
    by (cases z) (simp_all add: safe_intros)
  show ?thesis unfolding ParseRevert_def by (intro safe_intros 1 2)
qed

lemma safe_ParseStatement: "safe (ParseStatement mktime)"
  unfolding ParseStatement_def ParseCreate_def ParseDrop_def ParseShow_def ParseCreateTable_def ParseInsert_def ParseSelect_def ParseUpdate_def
    ParseDelete_def ParseCreateUser_def ParseCreateGroup_def ParseLogin_def ParseGrant_def ParseRevoke_def ParseAddUserToGroup_def
    ParseSubmitQuery_def ParseGetTask_def ParseCancelTask_def
  by (intro safe_intros)

text \<open>
  C33: the parser returns on every input: it gives a statement or a \<^verbatim>\<open>ParseError\<close>, and the bounds on its recursion are never reached.
\<close>

theorem parse_total: "(\<exists>stmt. Parse mktime sql = Inr stmt) \<or> (\<exists>msg. Parse mktime sql = Inl (ParseError msg))"
proof -
  have "Parse mktime sql \<noteq> Inl OutOfFuel"
    using safe_ParseStatement [of mktime] tokens_no_fuel [of sql] by (auto simp: Parse_def Tokenize_def safe_def split: sum.splits prod.splits)
  then show ?thesis by (metis parse_error.exhaust sum.exhaust)
qed

subsection \<open>More fuel does not change a result\<close>

lemma bindP_fuel:
  assumes "bindP p f ts \<noteq> Inl OutOfFuel" "p ts \<noteq> Inl OutOfFuel \<Longrightarrow> p' ts = p ts"
    "\<And>x ts'. p ts = Inr (x, ts') \<Longrightarrow> f x ts' \<noteq> Inl OutOfFuel \<Longrightarrow> f' x ts' = f x ts'"
  shows "bindP p' f' ts = bindP p f ts"
proof (cases "p ts")
  case (Inl e)
  then show ?thesis using assms by (auto simp: bindP_def)
next
  case (Inr r)
  then show ?thesis using assms by (cases r) (auto simp: bindP_def)
qed

lemma ifP_fuel:
  assumes "ifP c p q ts \<noteq> Inl OutOfFuel" "\<And>ts'. p ts' \<noteq> Inl OutOfFuel \<Longrightarrow> p' ts' = p ts'"
  shows "ifP c p' q ts = ifP c p q ts"
  using assms(1) unfolding ifP_def by (rule bindP_fuel) (auto intro: assms(2) split: if_splits)

lemma fuel_mono:
  "(ParseOr f ts \<noteq> Inl OutOfFuel \<longrightarrow> ParseOr (Suc f) ts = ParseOr f ts) \<and>
   (or_loop f e ts \<noteq> Inl OutOfFuel \<longrightarrow> or_loop (Suc f) e ts = or_loop f e ts) \<and>
   (ParseAnd f ts \<noteq> Inl OutOfFuel \<longrightarrow> ParseAnd (Suc f) ts = ParseAnd f ts) \<and>
   (and_loop f e ts \<noteq> Inl OutOfFuel \<longrightarrow> and_loop (Suc f) e ts = and_loop f e ts) \<and>
   (ParsePredicate f ts \<noteq> Inl OutOfFuel \<longrightarrow> ParsePredicate (Suc f) ts = ParsePredicate f ts)"
proof (induction f arbitrary: ts e)
  case 0
  show ?case by (simp add: fuelOut_def)
next
  case (Suc f)
  have or: "ParseOr f ts \<noteq> Inl OutOfFuel \<Longrightarrow> ParseOr (Suc f) ts = ParseOr f ts" for ts using Suc by blast
  have ol: "or_loop f e ts \<noteq> Inl OutOfFuel \<Longrightarrow> or_loop (Suc f) e ts = or_loop f e ts" for e ts using Suc by blast
  have an: "ParseAnd f ts \<noteq> Inl OutOfFuel \<Longrightarrow> ParseAnd (Suc f) ts = ParseAnd f ts" for ts using Suc by blast
  have al: "and_loop f e ts \<noteq> Inl OutOfFuel \<Longrightarrow> and_loop (Suc f) e ts = and_loop f e ts" for e ts using Suc by blast
  have pr: "ParsePredicate f ts \<noteq> Inl OutOfFuel \<Longrightarrow> ParsePredicate (Suc f) ts = ParsePredicate f ts" for ts using Suc by blast
  have "ParseOr (Suc (Suc f)) ts = ParseOr (Suc f) ts" if "ParseOr (Suc f) ts \<noteq> Inl OutOfFuel"
    using that unfolding ParseOr.simps(2) [of "Suc f"] ParseOr.simps(2) [of f] by (rule bindP_fuel) (erule an ol)+
  moreover have "or_loop (Suc (Suc f)) e ts = or_loop (Suc f) e ts" if "or_loop (Suc f) e ts \<noteq> Inl OutOfFuel"
    using that unfolding or_loop.simps(2) [of "Suc f" e] or_loop.simps(2) [of f e]
    by (rule ifP_fuel) (erule bindP_fuel, (erule an ol)+)
  moreover have "ParseAnd (Suc (Suc f)) ts = ParseAnd (Suc f) ts" if "ParseAnd (Suc f) ts \<noteq> Inl OutOfFuel"
    using that unfolding ParseAnd.simps(2) [of "Suc f"] ParseAnd.simps(2) [of f] by (rule bindP_fuel) (erule pr al)+
  moreover have "and_loop (Suc (Suc f)) e ts = and_loop (Suc f) e ts" if "and_loop (Suc f) e ts \<noteq> Inl OutOfFuel"
    using that unfolding and_loop.simps(2) [of "Suc f" e] and_loop.simps(2) [of f e]
    by (rule ifP_fuel) (erule bindP_fuel, (erule pr al)+)
  moreover have "ParsePredicate (Suc (Suc f)) ts = ParsePredicate (Suc f) ts" if "ParsePredicate (Suc f) ts \<noteq> Inl OutOfFuel"
    using that unfolding ParsePredicate.simps(2) [of "Suc f"] ParsePredicate.simps(2) [of f]
    by (rule ifP_fuel) (erule bindP_fuel, erule or, rule refl)
  ultimately show ?case by blast
qed

lemma ParseOr_fuel: "ParseOr f ts \<noteq> Inl OutOfFuel \<Longrightarrow> f \<le> f' \<Longrightarrow> ParseOr f' ts = ParseOr f ts"
proof (induction f')
  case (Suc f')
  show ?case
  proof (cases "f = Suc f'")
    case False
    then have "ParseOr f' ts = ParseOr f ts" using Suc by simp
    then show ?thesis using fuel_mono [of f' ts] Suc.prems(1) by metis
  qed simp
qed simp

subsection \<open>Printing\<close>

abbreviation kw :: "string \<Rightarrow> Token" where
  "kw w \<equiv> token tIdentifier w"

fun op_token :: "BinaryOp \<Rightarrow> Token" where
  "op_token opEq = token tEq ''=''"
| "op_token opNe = token tNe ''!=''"
| "op_token opLt = token tLt ''<''"
| "op_token opGt = token tGt ''>''"
| "op_token opLe = token tLe ''<=''"
| "op_token opGe = token tGe ''>=''"

fun decimal :: "nat \<Rightarrow> string" where
  "decimal n = (if n < 10 then [char_of (48 + n)] else decimal (n div 10) @ [char_of (48 + n mod 10)])"

declare decimal.simps [simp del]

fun literal_token :: "Value \<Rightarrow> Token" where
  "literal_token (VInt i) = token tNumber (decimal (nat i))"
| "literal_token (VString s) = token tString s"
| "literal_token _ = kw ''NULL''"

fun operand_token :: "Expr \<Rightarrow> Token" where
  "operand_token (ColumnRefExpr c) = kw c"
| "operand_token (LiteralExpr v) = literal_token v"
| "operand_token _ = kw ''NULL''"

definition parens :: "bool \<Rightarrow> Token list \<Rightarrow> Token list" where
  "parens b ts = (if b then token tLParen ''('' # ts @ [token tRParen '')''] else ts)"

text \<open>An expression at a level of the grammar: 0 for a disjunction, 1 for a conjunction, 2 for a predicate.\<close>

fun expr_tokens :: "nat \<Rightarrow> Expr \<Rightarrow> Token list" where
  "expr_tokens n (LogicalExpr opOr l r) = parens (n > 0) (expr_tokens 0 l @ kw ''OR'' # expr_tokens 1 r)"
| "expr_tokens n (LogicalExpr opAnd l r) = parens (n > 1) (expr_tokens 1 l @ kw ''AND'' # expr_tokens 2 r)"
| "expr_tokens n (BinaryExpr op l r) = [operand_token l, op_token op, operand_token r]"
| "expr_tokens n (BetweenExpr v l h) = [operand_token v, kw ''BETWEEN'', operand_token l, kw ''AND'', operand_token h]"
| "expr_tokens n (LikeExpr v p) = [operand_token v, kw ''LIKE'', operand_token p]"
| "expr_tokens n e = [operand_token e]"

fun literal_ok :: "Value \<Rightarrow> bool" where
  "literal_ok (VInt i) \<longleftrightarrow> 0 \<le> i \<and> i < 2 ^ 63"
| "literal_ok (VString _) \<longleftrightarrow> True"
| "literal_ok VNull \<longleftrightarrow> True"
| "literal_ok (VBool _) \<longleftrightarrow> False"

fun operand_ok :: "Expr \<Rightarrow> bool" where
  "operand_ok (ColumnRefExpr c) \<longleftrightarrow> is_word c \<and> Upper c \<noteq> ''NULL''"
| "operand_ok (LiteralExpr v) \<longleftrightarrow> literal_ok v"
| "operand_ok _ \<longleftrightarrow> False"

fun expr_ok :: "Expr \<Rightarrow> bool" where
  "expr_ok (LogicalExpr op l r) \<longleftrightarrow> expr_ok l \<and> expr_ok r"
| "expr_ok (BinaryExpr op l r) \<longleftrightarrow> operand_ok l \<and> operand_ok r"
| "expr_ok (BetweenExpr v l h) \<longleftrightarrow> operand_ok v \<and> operand_ok l \<and> operand_ok h"
| "expr_ok (LikeExpr v p) \<longleftrightarrow> operand_ok v \<and> operand_ok p"
| "expr_ok _ \<longleftrightarrow> False"

lemma digit_code: "n < 10 \<Longrightarrow> (of_char (char_of (48 + n)) :: nat) = 48 + n"
  by simp

lemma decimal_digits: "decimal n \<noteq> [] \<and> list_all isdigit (decimal n)"
proof (induction n rule: decimal.induct)
  case (1 n)
  have "n mod 10 < 10" by simp
  then have "isdigit (char_of (48 + n mod 10))" "n < 10 \<Longrightarrow> isdigit (char_of (48 + n))"
    using digit_code [of n] digit_code [of "n mod 10"] by (simp_all add: isdigit_def)
  then show ?case using 1 by (subst (1 2) decimal.simps) auto
qed

lemma decimal_value: "digits_value (decimal n) = n"
proof (induction n rule: decimal.induct)
  case (1 n)
  have "n mod 10 < 10" by simp
  then show ?case using 1 digit_code [of n] digit_code [of "n mod 10"] by (subst decimal.simps) (auto simp: digits_value_def)
qed

lemma strtoll_decimal: "0 \<le> i \<Longrightarrow> i < 2 ^ 63 \<Longrightarrow> strtoll (decimal (nat i)) = i"
  by (simp add: strtoll_def decimal_value)

lemmas token_simps = Match_def MatchKeyword_def At_def Peek_def Consume_def

lemma Upper_keywords: "Upper ''NULL'' = ''NULL''" "IsSingleCaseWord ''NULL''"
  by (simp_all add: Upper_def IsSingleCaseWord_def toupper_def ctype_simps)

lemma ParseLiteral_token: "literal_ok v \<Longrightarrow> ParseLiteralValue (literal_token v # rest) = Inr (v, rest)"
  by (cases v) (simp_all add: ParseLiteralValue_def ParseLexeme_def parser_defs token_simps strtoll_decimal Upper_keywords)

lemma ParseOperand_token: "operand_ok e \<Longrightarrow> ParseOperand (operand_token e # rest) = Inr (e, rest)"
proof (cases e)
  case (LiteralExpr v)
  assume "operand_ok e"
  then show ?thesis using LiteralExpr ParseLiteral_token [of v rest]
    by (cases v) (simp_all add: ParseOperand_def parser_defs token_simps Upper_keywords)
qed (auto simp: ParseOperand_def ParseIdentifier_def ParseLexeme_def parser_defs token_simps)

lemma kw_BETWEEN: "MatchKeyword ''BETWEEN'' (kw ''BETWEEN'' # ts) = Inr (True, ts)" "MatchKeyword ''AND'' (kw ''AND'' # ts) = Inr (True, ts)"
  "MatchKeyword ''LIKE'' (kw ''LIKE'' # ts) = Inr (True, ts)" "MatchKeyword ''OR'' (kw ''OR'' # ts) = Inr (True, ts)"
  "MatchKeyword ''BETWEEN'' (kw ''LIKE'' # ts) = Inr (False, kw ''LIKE'' # ts)" "MatchKeyword ''AND'' (kw ''OR'' # ts) = Inr (False, kw ''OR'' # ts)"
  by (simp_all add: token_simps Upper_def IsSingleCaseWord_def toupper_def ctype_simps)

lemma ParseComparison_tokens:
  "operand_ok l \<Longrightarrow> operand_ok r \<Longrightarrow> ParseComparison (operand_token l # op_token op # operand_token r # rest) = Inr (BinaryExpr op l r, rest)"
  "operand_ok v \<Longrightarrow> operand_ok l \<Longrightarrow> operand_ok h \<Longrightarrow>
     ParseComparison (operand_token v # kw ''BETWEEN'' # operand_token l # kw ''AND'' # operand_token h # rest) = Inr (BetweenExpr v l h, rest)"
  "operand_ok v \<Longrightarrow> operand_ok p \<Longrightarrow> ParseComparison (operand_token v # kw ''LIKE'' # operand_token p # rest) = Inr (LikeExpr v p, rest)"
proof -
  assume "operand_ok l" "operand_ok r"
  moreover have "MatchKeyword k (op_token op # ts) = Inr (False, op_token op # ts)" for k ts by (cases op) (simp_all add: token_simps)
  moreover have "ParseBinaryOp (op_token op # ts) = Inr (op, ts)" for ts by (cases op) (simp_all add: ParseBinaryOp_def parser_defs token_simps)
  ultimately show "ParseComparison (operand_token l # op_token op # operand_token r # rest) = Inr (BinaryExpr op l r, rest)"
    by (simp add: ParseComparison_def parser_defs ParseOperand_token)
qed (simp_all add: ParseComparison_def parser_defs ParseOperand_token kw_BETWEEN ExpectKeyword_def)

definition eventually_parses :: "(nat \<Rightarrow> 'a parser) \<Rightarrow> Token list \<Rightarrow> 'a \<times> Token list \<Rightarrow> bool" where
  "eventually_parses p ts r \<longleftrightarrow> (\<exists>n. \<forall>f\<ge>n. p f ts = Inr r)"

lemma eventually_bind:
  assumes "eventually_parses p ts (x, ts1)" "eventually_parses (\<lambda>n. g n x) ts1 r"
  shows "eventually_parses (\<lambda>n. bindP (p n) (g n)) ts r"
proof -
  obtain n1 where "\<forall>f\<ge>n1. p f ts = Inr (x, ts1)" using assms(1) by (auto simp: eventually_parses_def)
  moreover obtain n2 where "\<forall>f\<ge>n2. g f x ts1 = Inr r" using assms(2) by (auto simp: eventually_parses_def)
  ultimately have "\<forall>f\<ge>max n1 n2. bindP (p f) (g f) ts = Inr r" by (simp add: bindP_def)
  then show ?thesis unfolding eventually_parses_def by blast
qed

lemma eventually_Suc: "eventually_parses (\<lambda>n. p (Suc n)) ts r \<Longrightarrow> eventually_parses p ts r"
proof -
  assume "eventually_parses (\<lambda>n. p (Suc n)) ts r"
  then obtain n where n: "\<forall>f\<ge>n. p (Suc f) ts = Inr r" by (auto simp: eventually_parses_def)
  have "\<forall>f\<ge>Suc n. p f ts = Inr r" using n by (metis Suc_le_D Suc_le_mono)
  then show ?thesis unfolding eventually_parses_def by blast
qed

lemma eventually_const: "p ts = Inr r \<Longrightarrow> eventually_parses (\<lambda>_. p) ts r"
  by (simp add: eventually_parses_def)

lemma eventually_if_True: "c ts = Inr (True, ts1) \<Longrightarrow> eventually_parses p ts1 r \<Longrightarrow> eventually_parses (\<lambda>n. ifP c (p n) (q n)) ts r"
  unfolding ifP_def by (rule eventually_bind [OF eventually_const]) auto

lemma eventually_if_False: "c ts = Inr (False, ts1) \<Longrightarrow> eventually_parses q ts1 r \<Longrightarrow> eventually_parses (\<lambda>n. ifP c (p n) (q n)) ts r"
  unfolding ifP_def by (rule eventually_bind [OF eventually_const]) auto

lemma or_stop: "MatchKeyword ''OR'' rest = Inr (False, rest) \<Longrightarrow> eventually_parses (\<lambda>n. or_loop n e) rest (e, rest)"
  by (rule eventually_Suc) (simp add: eventually_if_False eventually_const retP_def)

lemma and_stop: "MatchKeyword ''AND'' rest = Inr (False, rest) \<Longrightarrow> eventually_parses (\<lambda>n. and_loop n e) rest (e, rest)"
  by (rule eventually_Suc) (simp add: eventually_if_False eventually_const retP_def)

lemma or_from_and:
  "eventually_parses ParseAnd ts (e, ts1) \<Longrightarrow> eventually_parses (\<lambda>n. or_loop n e) ts1 r \<Longrightarrow> eventually_parses ParseOr ts r"
  by (rule eventually_Suc) (simp add: eventually_bind)

lemma and_from_pred:
  "eventually_parses ParsePredicate ts (e, ts1) \<Longrightarrow> eventually_parses (\<lambda>n. and_loop n e) ts1 r \<Longrightarrow> eventually_parses ParseAnd ts r"
  by (rule eventually_Suc) (simp add: eventually_bind)

lemma pred_from_or:
  assumes "eventually_parses ParseOr ts (e, token tRParen '')'' # rest)"
  shows "eventually_parses ParsePredicate (token tLParen ''('' # ts) (e, rest)"
proof (rule eventually_Suc)
  have "eventually_parses (\<lambda>_. bindP (Expect tRParen '')'') (\<lambda>_. retP e)) (token tRParen '')'' # rest) (e, rest)"
    by (rule eventually_const) (simp add: Expect_def parser_defs token_simps)
  then show "eventually_parses (\<lambda>n. ParsePredicate (Suc n)) (token tLParen ''('' # ts) (e, rest)"
    unfolding ParsePredicate.simps by (intro eventually_if_True [of _ _ ts] eventually_bind [OF assms]) (simp_all add: token_simps)
qed

lemma pred_from_comparison:
  "ParseComparison (t # ts) = Inr r \<Longrightarrow> tk_type t \<noteq> tLParen \<Longrightarrow> eventually_parses ParsePredicate (t # ts) r"
  by (rule eventually_Suc) (simp add: eventually_if_False [of _ _ "t # ts"] eventually_const Match_def At_def Peek_def)

lemma operand_not_paren: "tk_type (operand_token e) \<noteq> tLParen"
proof (cases e)
  case (LiteralExpr v)
  then show ?thesis by (cases v) simp_all
qed simp_all

definition parses_at :: "Expr \<Rightarrow> bool" where
  "parses_at e \<longleftrightarrow>
     (\<forall>rest. eventually_parses ParsePredicate (expr_tokens 2 e @ rest) (e, rest)) \<and>
     (\<forall>rest r. eventually_parses (\<lambda>n. and_loop n e) rest r \<longrightarrow> eventually_parses ParseAnd (expr_tokens 1 e @ rest) r) \<and>
     (\<forall>rest r. MatchKeyword ''AND'' rest = Inr (False, rest) \<longrightarrow> eventually_parses (\<lambda>n. or_loop n e) rest r \<longrightarrow>
        eventually_parses ParseOr (expr_tokens 0 e @ rest) r)"

lemma parses_atD:
  assumes "parses_at e"
  shows "eventually_parses ParsePredicate (expr_tokens 2 e @ rest) (e, rest)"
    "eventually_parses (\<lambda>n. and_loop n e) rest r \<Longrightarrow> eventually_parses ParseAnd (expr_tokens 1 e @ rest) r"
    "MatchKeyword ''AND'' rest = Inr (False, rest) \<Longrightarrow> eventually_parses (\<lambda>n. or_loop n e) rest r \<Longrightarrow> eventually_parses ParseOr (expr_tokens 0 e @ rest) r"
  using assms unfolding parses_at_def by blast+

lemma parses_comparison:
  assumes "\<And>n. expr_tokens n e = ts" "\<And>rest. ParseComparison (ts @ rest) = Inr (e, rest)" "ts = t # ts'" "tk_type t \<noteq> tLParen"
  shows "parses_at e"
proof -
  have p: "eventually_parses ParsePredicate (ts @ rest) (e, rest)" for rest
    using assms(2) [of rest] assms(3,4) by (simp add: pred_from_comparison)
  then show ?thesis unfolding parses_at_def assms(1) by (blast intro: and_from_pred or_from_and and_stop)
qed

lemma parses_and:
  assumes "parses_at l" "parses_at r"
  shows "parses_at (LogicalExpr opAnd l r)"
proof -
  let ?e = "LogicalExpr opAnd l r" and ?ts = "expr_tokens 1 l @ kw ''AND'' # expr_tokens 2 r"
  have an: "eventually_parses ParseAnd (?ts @ rest) R" if "eventually_parses (\<lambda>n. and_loop n ?e) rest R" for rest R
  proof -
    have "eventually_parses (\<lambda>n. and_loop n l) (kw ''AND'' # expr_tokens 2 r @ rest) R"
    proof (rule eventually_Suc)
      show "eventually_parses (\<lambda>n. and_loop (Suc n) l) (kw ''AND'' # expr_tokens 2 r @ rest) R"
        unfolding and_loop.simps using that assms(2)
        by (intro eventually_if_True [where c = "MatchKeyword ''AND''", OF kw_BETWEEN(2)] eventually_bind [where p = ParsePredicate, OF parses_atD(1)])
    qed
    then show ?thesis using parses_atD(2) [OF assms(1)] by (simp only: append_assoc append_Cons)
  qed
  have orp: "eventually_parses ParseOr (?ts @ rest) R" if "MatchKeyword ''AND'' rest = Inr (False, rest)" "eventually_parses (\<lambda>n. or_loop n ?e) rest R" for rest R
    by (rule or_from_and [OF an [OF and_stop [OF that(1)]] that(2)])
  have "eventually_parses ParsePredicate (token tLParen ''('' # ?ts @ token tRParen '')'' # rest) (?e, rest)" for rest
    using pred_from_or [OF orp [of "token tRParen '')'' # rest"]] or_stop [of "token tRParen '')'' # rest"] by (simp add: token_simps)
  then show ?thesis unfolding parses_at_def using an orp by (simp add: parens_def del: One_nat_def)
qed

lemma parses_or:
  assumes "parses_at l" "parses_at r"
  shows "parses_at (LogicalExpr opOr l r)"
proof -
  let ?e = "LogicalExpr opOr l r" and ?ts = "expr_tokens 0 l @ kw ''OR'' # expr_tokens 1 r"
  have orp: "eventually_parses ParseOr (?ts @ rest) R" if a: "MatchKeyword ''AND'' rest = Inr (False, rest)" and o: "eventually_parses (\<lambda>n. or_loop n ?e) rest R" for rest R
  proof -
    have ra: "eventually_parses ParseAnd (expr_tokens 1 r @ rest) (r, rest)" by (rule parses_atD(2) [OF assms(2) and_stop [OF a]])
    have "eventually_parses (\<lambda>n. or_loop n l) (kw ''OR'' # expr_tokens 1 r @ rest) R"
    proof (rule eventually_Suc)
      show "eventually_parses (\<lambda>n. or_loop (Suc n) l) (kw ''OR'' # expr_tokens 1 r @ rest) R"
        unfolding or_loop.simps by (intro eventually_if_True [where c = "MatchKeyword ''OR''", OF kw_BETWEEN(4)] eventually_bind [where p = ParseAnd, OF ra]) (rule o)
    qed
    then show ?thesis using parses_atD(3) [OF assms(1) kw_BETWEEN(6)] by (simp only: append_assoc append_Cons)
  qed
  have pr: "eventually_parses ParsePredicate (token tLParen ''('' # ?ts @ token tRParen '')'' # rest) (?e, rest)" for rest
    using pred_from_or [OF orp [of "token tRParen '')'' # rest"]] or_stop [of "token tRParen '')'' # rest"] by (simp add: token_simps)
  then show ?thesis unfolding parses_at_def using orp and_from_pred [OF pr] by (simp add: parens_def del: One_nat_def)
qed

lemma expr_parses: "expr_ok e \<Longrightarrow> parses_at e"
proof (induction e)
  case (BinaryExpr op l r)
  then show ?case by (intro parses_comparison [OF expr_tokens.simps(3)]) (auto simp: ParseComparison_tokens operand_not_paren)
next
  case (LogicalExpr op l r)
  then show ?case by (cases op) (auto intro: parses_and parses_or)
next
  case (BetweenExpr v l h)
  then show ?case by (intro parses_comparison [OF expr_tokens.simps(4)]) (auto simp: ParseComparison_tokens operand_not_paren)
next
  case (LikeExpr v p)
  then show ?case by (intro parses_comparison [OF expr_tokens.simps(5)]) (auto simp: ParseComparison_tokens operand_not_paren)
qed simp_all

lemma ParseExpr_tokens:
  assumes "expr_ok e" "MatchKeyword ''AND'' rest = Inr (False, rest)" "MatchKeyword ''OR'' rest = Inr (False, rest)"
  shows "ParseExpr (expr_tokens 0 e @ rest) = Inr (e, rest)"
proof -
  let ?ts = "expr_tokens 0 e @ rest"
  have "eventually_parses ParseOr ?ts (e, rest)" by (rule parses_atD(3) [OF expr_parses [OF assms(1)] assms(2) or_stop [OF assms(3)]])
  then obtain n where n: "\<forall>f\<ge>n. ParseOr f ?ts = Inr (e, rest)" by (auto simp: eventually_parses_def)
  have "ParseExpr ?ts \<noteq> Inl OutOfFuel" using safe_ParseExpr by (simp add: safe_def)
  then have "ParseOr (max n (3 * length ?ts + 3)) ?ts = ParseExpr ?ts" unfolding ParseExpr_def by (rule ParseOr_fuel) simp
  then show ?thesis using n by simp
qed


fun comma_tokens :: "('a \<Rightarrow> Token list) \<Rightarrow> 'a list \<Rightarrow> Token list" where
  "comma_tokens f [] = []"
| "comma_tokens f [x] = f x"
| "comma_tokens f (x # y # xs) = f x @ token tComma '','' # comma_tokens f (y # xs)"

definition in_parens :: "Token list \<Rightarrow> Token list" where
  "in_parens ts = token tLParen ''('' # ts @ [token tRParen '')'']"

definition qualified_name :: "string \<Rightarrow> string \<Rightarrow> Token list" where
  "qualified_name db table = (if db = [] then [kw table] else [kw db, token tDot ''.'', kw table])"

definition column_tokens :: "ColumnSchema \<Rightarrow> Token list" where
  "column_tokens c = [kw (col_name c), kw (if col_type c = cInt then ''INT'' else ''STRING'')] @
     (if col_indexed c then [kw ''INDEXED''] else if col_not_null c then [kw ''NOT_NULL''] else [])"

definition item_tokens :: "SelectItem \<Rightarrow> Token list" where
  "item_tokens i = kw (si_column i) # (if si_alias i = [] then [] else [kw ''AS'', kw (si_alias i)])"

definition assignment_tokens :: "string \<times> Value \<Rightarrow> Token list" where
  "assignment_tokens a = [kw (fst a), token tEq ''='', literal_token (snd a)]"

fun stmt_tokens :: "SqlStatement \<Rightarrow> Token list" where
  "stmt_tokens (CreateDatabaseStatement db) = [kw ''CREATE'', kw ''DATABASE'', kw db]"
| "stmt_tokens (DropDatabaseStatement db) = [kw ''DROP'', kw ''DATABASE'', kw db]"
| "stmt_tokens (UseDatabaseStatement db) = [kw ''USE'', kw db]"
| "stmt_tokens (CreateTableStatement db t columns) = kw ''CREATE'' # kw ''TABLE'' # qualified_name db t @ in_parens (comma_tokens column_tokens columns)"
| "stmt_tokens (DropTableStatement db t) = kw ''DROP'' # kw ''TABLE'' # qualified_name db t"
| "stmt_tokens (InsertStatement db t columns rows) = kw ''INSERT'' # kw ''INTO'' # qualified_name db t @ in_parens (comma_tokens (\<lambda>c. [kw c]) columns) @
     kw ''VALUE'' # comma_tokens (\<lambda>row. in_parens (comma_tokens (\<lambda>v. [literal_token v]) row)) rows"
| "stmt_tokens (SelectStatement db t all items w) = kw ''SELECT'' # (if all then [token tStar ''*''] else in_parens (comma_tokens item_tokens items)) @
     kw ''FROM'' # qualified_name db t @ (case w of None \<Rightarrow> [] | Some e \<Rightarrow> kw ''WHERE'' # expr_tokens 0 e)"
| "stmt_tokens (UpdateStatement db t assignments e) = kw ''UPDATE'' # qualified_name db t @ kw ''SET'' # comma_tokens assignment_tokens assignments @ kw ''WHERE'' # expr_tokens 0 e"
| "stmt_tokens (DeleteStatement db t e) = kw ''DELETE'' # kw ''FROM'' # qualified_name db t @ kw ''WHERE'' # expr_tokens 0 e"
| "stmt_tokens (RevertStatement db t ts) = kw ''REVERT'' # qualified_name db t"
| "stmt_tokens (CreateUserStatement u pw) = [kw ''CREATE'', kw ''USER'', kw u, kw ''PASSWORD'', token tString pw]"
| "stmt_tokens (DropUserStatement u) = [kw ''DROP'', kw ''USER'', kw u]"
| "stmt_tokens (LoginStatement u pw) = [kw ''LOGIN'', kw u, kw ''PASSWORD'', token tString pw]"
| "stmt_tokens (CreateGroupStatement g) = [kw ''CREATE'', kw ''GROUP'', kw g]"
| "stmt_tokens (DropGroupStatement g) = [kw ''DROP'', kw ''GROUP'', kw g]"
| "stmt_tokens (AddUserToGroupStatement u g) = [kw ''ADD'', kw ''USER'', kw u, kw ''TO'', kw ''GROUP'', kw g]"
| "stmt_tokens (GrantStatement perm tt tn) = [kw ''GRANT'', kw perm, kw ''TO'', kw tt, kw tn]"
| "stmt_tokens (RevokeStatement perm tt tn) = [kw ''REVOKE'', kw perm, kw ''FROM'', kw tt, kw tn]"
| "stmt_tokens (SubmitQueryStatement sql) = [kw ''SUBMIT'', kw ''QUERY'', token tString sql]"
| "stmt_tokens (GetTaskStatement i) = [kw ''GET'', kw ''TASK'', kw i]"
| "stmt_tokens (CancelTaskStatement i) = [kw ''CANCEL'', kw ''TASK'', kw i]"
| "stmt_tokens ShowMetricsStatement = [kw ''SHOW'', kw ''METRICS'']"

definition Print :: "SqlStatement \<Rightarrow> string" where
  "Print stmt = print_tokens (stmt_tokens stmt)"

definition table_ok :: "string \<Rightarrow> string \<Rightarrow> bool" where
  "table_ok db t \<longleftrightarrow> (db = [] \<or> is_word db) \<and> is_word t"

definition column_ok :: "ColumnSchema \<Rightarrow> bool" where
  "column_ok c \<longleftrightarrow> is_word (col_name c) \<and> (col_type c = cInt \<or> col_type c = cString) \<and> (col_indexed c \<longrightarrow> col_not_null c) \<and> col_default c = None"

definition item_ok :: "SelectItem \<Rightarrow> bool" where
  "item_ok i \<longleftrightarrow> is_word (si_column i) \<and> (si_alias i = [] \<or> is_word (si_alias i))"

definition permission_ok :: "string \<Rightarrow> string \<Rightarrow> string \<Rightarrow> bool" where
  "permission_ok perm tt tn \<longleftrightarrow> is_word perm \<and> Upper perm = perm \<and> (tt = ''USER'' \<or> tt = ''GROUP'') \<and> is_word tn"

text \<open>The statements the grammar can express; the timestamp of REVERT goes through the time zone and has no text of its own.\<close>

fun stmt_ok :: "SqlStatement \<Rightarrow> bool" where
  "stmt_ok (CreateDatabaseStatement db) \<longleftrightarrow> is_word db"
| "stmt_ok (DropDatabaseStatement db) \<longleftrightarrow> is_word db"
| "stmt_ok (UseDatabaseStatement db) \<longleftrightarrow> is_word db"
| "stmt_ok (CreateTableStatement db t columns) \<longleftrightarrow> table_ok db t \<and> columns \<noteq> [] \<and> list_all column_ok columns"
| "stmt_ok (DropTableStatement db t) \<longleftrightarrow> table_ok db t"
| "stmt_ok (InsertStatement db t columns rows) \<longleftrightarrow> table_ok db t \<and> columns \<noteq> [] \<and> list_all is_word columns \<and>
     rows \<noteq> [] \<and> list_all (\<lambda>row. row \<noteq> [] \<and> list_all literal_ok row) rows"
| "stmt_ok (SelectStatement db t all items w) \<longleftrightarrow> table_ok db t \<and> (all \<longleftrightarrow> items = []) \<and> list_all item_ok items \<and> (case w of None \<Rightarrow> True | Some e \<Rightarrow> expr_ok e)"
| "stmt_ok (UpdateStatement db t assignments e) \<longleftrightarrow> table_ok db t \<and> assignments \<noteq> [] \<and> list_all (\<lambda>(c, v). is_word c \<and> literal_ok v) assignments \<and> expr_ok e"
| "stmt_ok (DeleteStatement db t e) \<longleftrightarrow> table_ok db t \<and> expr_ok e"
| "stmt_ok (RevertStatement db t ts) \<longleftrightarrow> False"
| "stmt_ok (CreateUserStatement u pw) \<longleftrightarrow> is_word u"
| "stmt_ok (DropUserStatement u) \<longleftrightarrow> is_word u"
| "stmt_ok (LoginStatement u pw) \<longleftrightarrow> is_word u"
| "stmt_ok (CreateGroupStatement g) \<longleftrightarrow> is_word g"
| "stmt_ok (DropGroupStatement g) \<longleftrightarrow> is_word g"
| "stmt_ok (AddUserToGroupStatement u g) \<longleftrightarrow> is_word u \<and> is_word g"
| "stmt_ok (GrantStatement perm tt tn) \<longleftrightarrow> permission_ok perm tt tn"
| "stmt_ok (RevokeStatement perm tt tn) \<longleftrightarrow> permission_ok perm tt tn"
| "stmt_ok (SubmitQueryStatement sql) \<longleftrightarrow> True"
| "stmt_ok (GetTaskStatement i) \<longleftrightarrow> is_word i"
| "stmt_ok (CancelTaskStatement i) \<longleftrightarrow> is_word i"
| "stmt_ok ShowMetricsStatement \<longleftrightarrow> True"

subsection \<open>Statements round trip\<close>

abbreviation eof :: Token where
  "eof \<equiv> token tEof []"

definition kw_list :: "string list" where
  "kw_list = [''CREATE'', ''DATABASE'', ''TABLE'', ''USER'', ''GROUP'', ''DROP'', ''USE'', ''INSERT'', ''INTO'', ''VALUE'', ''SELECT'', ''FROM'', ''WHERE'', ''AS'',
     ''UPDATE'', ''SET'', ''DELETE'', ''REVERT'', ''LOGIN'', ''PASSWORD'', ''GRANT'', ''TO'', ''REVOKE'', ''ADD'', ''SUBMIT'', ''QUERY'', ''GET'', ''TASK'', ''CANCEL'',
     ''SHOW'', ''METRICS'', ''NOT_NULL'', ''INDEXED'', ''INT'', ''STRING'', ''NULL'', ''AND'', ''OR'', ''BETWEEN'', ''LIKE'']"

lemma kw_list_upper: "list_all (\<lambda>w. Upper w = w \<and> IsSingleCaseWord w \<and> is_word w) kw_list"
  by (simp add: kw_list_def Upper_def IsSingleCaseWord_def is_word_def toupper_def ctype_simps IsIdentifierStart_def IsIdentifierPart_def)

lemma MatchKeyword_kw: "w \<in> set kw_list \<Longrightarrow> MatchKeyword k (kw w # ts) = (if w = k then Inr (True, ts) else Inr (False, kw w # ts))"
  using kw_list_upper by (auto simp: list_all_iff token_simps)

lemma MatchKeyword_other: "tk_type t \<noteq> tIdentifier \<Longrightarrow> MatchKeyword k (t # ts) = Inr (False, t # ts)"
  by (simp add: token_simps)

lemma keyword_word: "w \<in> set kw_list \<Longrightarrow> is_word w"
  using kw_list_upper by (auto simp: list_all_iff)

lemma ParseIdentifier_kw: "ParseIdentifier (kw w # ts) = Inr (w, ts)"
  by (simp add: ParseIdentifier_def ParseLexeme_def parser_defs token_simps)

lemma ParseLexeme_tok: "ParseLexeme (t # ts) = Inr (tk_lexeme t, ts)"
  by (simp add: ParseLexeme_def parser_defs token_simps)

lemma Match_tok: "Match ty (t # ts) = (if tk_type t = ty then Inr (True, ts) else Inr (False, t # ts))"
  by (simp add: token_simps)

lemma Expect_tok: "tk_type t = ty \<Longrightarrow> Expect ty w (t # ts) = Inr ((), ts)"
  by (simp add: Expect_def parser_defs token_simps)

lemma ExpectKeyword_kw: "w \<in> set kw_list \<Longrightarrow> ExpectKeyword w (kw w # ts) = Inr ((), ts)"
  by (simp add: ExpectKeyword_def parser_defs MatchKeyword_kw)

lemma finished_eof: "finished stmt [eof] = Inr (stmt, [eof])"
  by (simp add: finished_def Finish_def parser_defs token_simps)

lemma ParseQualifiedName_tokens: "\<not> At tDot rest \<Longrightarrow> ParseQualifiedName (qualified_name db t @ rest) = Inr ((db, t), rest)"
  by (simp add: ParseQualifiedName_def qualified_name_def parser_defs ParseIdentifier_kw Match_tok) (simp add: Match_def retP_def)

lemma comma_list_tokens:
  assumes "xs \<noteq> []" "\<And>x rest. x \<in> set xs \<Longrightarrow> tk_type (Peek rest) \<in> {tComma, tRParen, tEof} \<or> Q rest \<Longrightarrow> p (f x @ rest) = Inr (x, rest)"
    "tk_type (Peek rest) \<in> {tRParen, tEof} \<or> Q rest" "\<not> At tComma rest" "length xs \<le> n"
  shows "comma_list n p (comma_tokens f xs @ rest) = Inr (xs, rest)"
  using assms(1,2,5)
proof (induction f xs arbitrary: n rule: comma_tokens.induct)
  case (2 f x)
  then obtain m where "n = Suc m" by (cases n) auto
  moreover have "p (f x @ rest) = Inr (x, rest)" using 2(2) [of x rest] assms(3) by auto
  ultimately show ?case using assms(4) by (simp add: parser_defs Match_def)
next
  case (3 f x y xs)
  then obtain m where n: "n = Suc m" "length (y # xs) \<le> m" by (cases n) auto
  have "p (f x @ token tComma '','' # comma_tokens f (y # xs) @ rest) = Inr (x, token tComma '','' # comma_tokens f (y # xs) @ rest)"
    using 3(3) [of x] by (simp add: Peek_def)
  moreover have "comma_list m p (comma_tokens f (y # xs) @ rest) = Inr (y # xs, rest)" by (rule 3(1)) (use 3(3) n in auto)
  ultimately show ?case using n by (simp add: parser_defs Match_tok)
qed simp

lemma comma_tokens_length: "length xs \<le> length (comma_tokens f xs) + 1"
  by (induction f xs rule: comma_tokens.induct) auto

lemma ParseList_tokens:
  assumes "xs \<noteq> []" "\<And>x rest. x \<in> set xs \<Longrightarrow> tk_type (Peek rest) \<in> {tComma, tRParen, tEof} \<or> Q rest \<Longrightarrow> p (f x @ rest) = Inr (x, rest)"
    "tk_type (Peek rest) \<in> {tRParen, tEof} \<or> Q rest" "\<not> At tComma rest"
  shows "ParseList p (comma_tokens f xs @ rest) = Inr (xs, rest)"
  unfolding ParseList_def by (rule comma_list_tokens [where Q = Q, OF assms]) (use comma_tokens_length [of xs f] in simp_all)


lemma Upper_kw: "w \<in> set kw_list \<Longrightarrow> Upper w = w"
  using kw_list_upper by (auto simp: list_all_iff)

lemmas kw_facts = MatchKeyword_kw MatchKeyword_other ExpectKeyword_kw Upper_kw kw_list_def

lemma MatchKeyword_rest: "tk_type (Peek rest) \<noteq> tIdentifier \<Longrightarrow> MatchKeyword k rest = Inr (False, rest)"
  by (simp add: MatchKeyword_def)

lemma column_flags_stop: "tk_type (Peek rest) \<noteq> tIdentifier \<Longrightarrow> column_flags c rest = Inr (c, rest)"
  by (cases rest) (simp_all add: Peek_def retP_def)

lemma ParseColumn_tokens:
  assumes "column_ok c" "tk_type (Peek rest) \<noteq> tIdentifier"
  shows "ParseColumn (column_tokens c @ rest) = Inr (c, rest)"
proof -
  have "column_flags \<lparr>col_name = col_name c, col_type = ty, col_not_null = False, col_indexed = False, col_default = None\<rparr>
      ((if col_indexed c then [kw ''INDEXED''] else if col_not_null c then [kw ''NOT_NULL''] else []) @ rest) =
    Inr (\<lparr>col_name = col_name c, col_type = ty, col_not_null = col_not_null c, col_indexed = col_indexed c, col_default = None\<rparr>, rest)" for ty
    using assms column_flags_stop [OF assms(2)] by (auto simp: column_ok_def kw_facts)
  then show ?thesis using assms(1)
    by (cases c) (auto simp: ParseColumn_def column_tokens_def column_ok_def parser_defs ParseIdentifier_kw kw_facts)
qed

lemma ParseSelectItem_tokens:
  assumes "item_ok i" "tk_type (Peek rest) \<noteq> tIdentifier"
  shows "ParseSelectItem (item_tokens i @ rest) = Inr (i, rest)"
  using assms MatchKeyword_rest [OF assms(2)] by (cases i) (auto simp: ParseSelectItem_def item_tokens_def parser_defs ParseIdentifier_kw kw_facts)

lemma ParseValueRow_tokens:
  assumes "row \<noteq> []" "list_all literal_ok row"
  shows "ParseValueRow (in_parens (comma_tokens (\<lambda>v. [literal_token v]) row) @ rest) = Inr (row, rest)"
proof -
  have "ParseList ParseLiteralValue (comma_tokens (\<lambda>v. [literal_token v]) row @ token tRParen '')'' # rest) = Inr (row, token tRParen '')'' # rest)"
    by (rule ParseList_tokens [where Q = "\<lambda>_. True"]) (use assms in \<open>auto simp: list_all_iff ParseLiteral_token At_def Peek_def\<close>)
  then show ?thesis by (simp add: ParseValueRow_def in_parens_def parser_defs Expect_tok)
qed

lemma ParseAssignment_tokens: "literal_ok (snd a) \<Longrightarrow> ParseAssignment (assignment_tokens a @ rest) = Inr (a, rest)"
  by (cases a) (simp add: ParseAssignment_def assignment_tokens_def parser_defs ParseIdentifier_kw Expect_tok ParseLiteral_token)

lemma parse_CreateTable:
  assumes "columns \<noteq> []" "list_all column_ok columns"
  shows "ParseCreateTable (qualified_name db t @ in_parens (comma_tokens column_tokens columns) @ [eof]) = Inr (CreateTableStatement db t columns, [eof])"
proof -
  have "ParseList ParseColumn (comma_tokens column_tokens columns @ [token tRParen '')'', eof]) = Inr (columns, [token tRParen '')'', eof])"
    by (rule ParseList_tokens [where Q = "\<lambda>_. False"]) (use assms in \<open>auto simp: list_all_iff ParseColumn_tokens At_def Peek_def\<close>)
  then show ?thesis
    by (simp add: ParseCreateTable_def in_parens_def parser_defs ParseQualifiedName_tokens Expect_tok finished_eof At_def Peek_def)
qed

lemma parse_Insert:
  assumes "columns \<noteq> []" "rows \<noteq> []" "list_all (\<lambda>row. row \<noteq> [] \<and> list_all literal_ok row) rows"
  shows "ParseInsert (kw ''INTO'' # qualified_name db t @ in_parens (comma_tokens (\<lambda>c. [kw c]) columns) @
     kw ''VALUE'' # comma_tokens (\<lambda>row. in_parens (comma_tokens (\<lambda>v. [literal_token v]) row)) rows @ [eof]) = Inr (InsertStatement db t columns rows, [eof])"
proof -
  have "ParseList ParseIdentifier (comma_tokens (\<lambda>c. [kw c]) columns @ token tRParen '')'' # rest) = Inr (columns, token tRParen '')'' # rest)" for rest
    by (rule ParseList_tokens [where Q = "\<lambda>_. True"]) (use assms in \<open>auto simp: ParseIdentifier_kw At_def Peek_def\<close>)
  moreover have "ParseList ParseValueRow (comma_tokens (\<lambda>row. in_parens (comma_tokens (\<lambda>v. [literal_token v]) row)) rows @ [eof]) = Inr (rows, [eof])"
    by (rule ParseList_tokens [where Q = "\<lambda>_. True"]) (use assms in \<open>auto simp: list_all_iff ParseValueRow_tokens At_def Peek_def\<close>)
  ultimately show ?thesis
    by (simp add: ParseInsert_def in_parens_def parser_defs ParseQualifiedName_tokens Expect_tok finished_eof At_def Peek_def kw_facts)
qed

lemma ParseExpr_eof: "expr_ok e \<Longrightarrow> ParseExpr (expr_tokens 0 e @ [eof]) = Inr (e, [eof])"
  by (rule ParseExpr_tokens) (simp_all add: token_simps)

lemma parse_Select:
  assumes "all \<longleftrightarrow> items = []" "list_all item_ok items" "case w of None \<Rightarrow> True | Some e \<Rightarrow> expr_ok e"
  shows "ParseSelect ((if all then [token tStar ''*''] else in_parens (comma_tokens item_tokens items)) @
     kw ''FROM'' # qualified_name db t @ (case w of None \<Rightarrow> [] | Some e \<Rightarrow> kw ''WHERE'' # expr_tokens 0 e) @ [eof]) = Inr (SelectStatement db t all items w, [eof])"
proof -
  have "ParseList ParseSelectItem (comma_tokens item_tokens items @ token tRParen '')'' # rest) = Inr (items, token tRParen '')'' # rest)" if "items \<noteq> []" for rest
    by (rule ParseList_tokens [where Q = "\<lambda>_. False"]) (use assms(2) that in \<open>auto simp: list_all_iff ParseSelectItem_tokens At_def Peek_def\<close>)
  moreover have "ParseWhereIfPresent ((case w of None \<Rightarrow> [] | Some e \<Rightarrow> kw ''WHERE'' # expr_tokens 0 e) @ [eof]) = Inr (w, [eof])"
    using assms(3) by (cases w) (simp_all add: ParseWhereIfPresent_def parser_defs kw_facts ParseExpr_eof)
  moreover have "\<not> At tDot ((case w of None \<Rightarrow> [] | Some e \<Rightarrow> kw ''WHERE'' # expr_tokens 0 e) @ [eof])" by (cases w) (simp_all add: At_def Peek_def)
  ultimately show ?thesis using assms(1)
    by (cases all) (simp_all add: ParseSelect_def in_parens_def parser_defs ParseQualifiedName_tokens Match_tok Expect_tok finished_eof kw_facts)
qed

lemma parse_Update:
  assumes "assignments \<noteq> []" "list_all (\<lambda>(c, v). is_word c \<and> literal_ok v) assignments" "expr_ok e"
  shows "ParseUpdate (qualified_name db t @ kw ''SET'' # comma_tokens assignment_tokens assignments @ kw ''WHERE'' # expr_tokens 0 e @ [eof]) =
    Inr (UpdateStatement db t assignments e, [eof])"
proof -
  have "ParseList ParseAssignment (comma_tokens assignment_tokens assignments @ kw ''WHERE'' # rest) = Inr (assignments, kw ''WHERE'' # rest)" for rest
    by (rule ParseList_tokens [where Q = "\<lambda>_. True"]) (use assms(1,2) in \<open>auto simp: list_all_iff ParseAssignment_tokens At_def Peek_def\<close>)
  then show ?thesis
    by (simp add: ParseUpdate_def parser_defs ParseQualifiedName_tokens finished_eof At_def Peek_def kw_facts ParseExpr_eof assms(3))
qed

lemma parse_Delete:
  "expr_ok e \<Longrightarrow> ParseDelete (kw ''FROM'' # qualified_name db t @ kw ''WHERE'' # expr_tokens 0 e @ [eof]) = Inr (DeleteStatement db t e, [eof])"
  by (simp add: ParseDelete_def parser_defs ParseQualifiedName_tokens finished_eof At_def Peek_def kw_facts ParseExpr_eof)

lemma parse_permission:
  assumes "permission_ok perm tt tn" "stop = ''TO'' \<or> stop = ''FROM''"
  shows "ParsePermission stop what [kw perm, kw stop, kw tt, kw tn, eof] = Inr ((perm, tt, tn), [eof])"
  using assms by (auto simp: ParsePermission_def permission_ok_def parser_defs ParseIdentifier_kw kw_facts)


lemma ParseStatement_kw:
  "ParseStatement mktime (kw ''CREATE'' # ts) = ParseCreate ts"
  "ParseStatement mktime (kw ''DROP'' # ts) = ParseDrop ts"
  "ParseStatement mktime (kw ''USE'' # ts) = bindP ParseIdentifier (\<lambda>db. finished (UseDatabaseStatement db)) ts"
  "ParseStatement mktime (kw ''INSERT'' # ts) = ParseInsert ts"
  "ParseStatement mktime (kw ''SELECT'' # ts) = ParseSelect ts"
  "ParseStatement mktime (kw ''UPDATE'' # ts) = ParseUpdate ts"
  "ParseStatement mktime (kw ''DELETE'' # ts) = ParseDelete ts"
  "ParseStatement mktime (kw ''LOGIN'' # ts) = ParseLogin ts"
  "ParseStatement mktime (kw ''GRANT'' # ts) = ParseGrant ts"
  "ParseStatement mktime (kw ''REVOKE'' # ts) = ParseRevoke ts"
  "ParseStatement mktime (kw ''ADD'' # ts) = ParseAddUserToGroup ts"
  "ParseStatement mktime (kw ''SUBMIT'' # ts) = ParseSubmitQuery ts"
  "ParseStatement mktime (kw ''GET'' # ts) = ParseGetTask ts"
  "ParseStatement mktime (kw ''CANCEL'' # ts) = ParseCancelTask ts"
  "ParseStatement mktime (kw ''SHOW'' # ts) = ParseShow ts"
  by (simp_all add: ParseStatement_def ifP_def bindP_def kw_facts)

lemma ParseCreate_kw:
  "ParseCreate (kw ''DATABASE'' # ts) = bindP ParseIdentifier (\<lambda>db. finished (CreateDatabaseStatement db)) ts"
  "ParseCreate (kw ''TABLE'' # ts) = ParseCreateTable ts"
  "ParseCreate (kw ''USER'' # ts) = ParseCreateUser ts"
  "ParseCreate (kw ''GROUP'' # ts) = ParseCreateGroup ts"
  by (simp_all add: ParseCreate_def ifP_def bindP_def kw_facts)

lemma ParseDrop_kw:
  "ParseDrop (kw ''DATABASE'' # ts) = bindP ParseIdentifier (\<lambda>db. finished (DropDatabaseStatement db)) ts"
  "ParseDrop (kw ''TABLE'' # ts) = bindP ParseQualifiedName (\<lambda>(db, table). finished (DropTableStatement db table)) ts"
  "ParseDrop (kw ''USER'' # ts) = bindP ParseIdentifier (\<lambda>user_id. finished (DropUserStatement user_id)) ts"
  "ParseDrop (kw ''GROUP'' # ts) = bindP ParseIdentifier (\<lambda>group_name. finished (DropGroupStatement group_name)) ts"
  by (simp_all add: ParseDrop_def ifP_def bindP_def kw_facts)

lemmas statement_kw = ParseStatement_kw ParseCreate_kw ParseDrop_kw

lemmas word_statement_defs = ParseCreateUser_def ParseCreateGroup_def ParseLogin_def ParsePassword_def ParseAddUserToGroup_def
  ParseSubmitQuery_def ParseGetTask_def ParseCancelTask_def ParseShow_def ParseGrant_def ParseRevoke_def

lemma parse_tokens: "stmt_ok stmt \<Longrightarrow> ParseStatement mktime (stmt_tokens stmt @ [eof]) = Inr (stmt, [eof])"
proof (cases stmt)
  case (SelectStatement db t all items w)
  assume "stmt_ok stmt"
  then show ?thesis using parse_Select [of all items w db t] SelectStatement by (simp add: statement_kw)
next
  case (DropTableStatement db t)
  then show ?thesis by (simp add: statement_kw ParseQualifiedName_tokens At_def Peek_def bindP_def finished_eof)
next
  case (GrantStatement perm tt tn)
  assume "stmt_ok stmt"
  then show ?thesis using parse_permission [of perm tt tn "''TO''" "''GRANT''"] GrantStatement by (simp add: statement_kw ParseGrant_def bindP_def finished_eof)
next
  case (RevokeStatement perm tt tn)
  assume "stmt_ok stmt"
  then show ?thesis using parse_permission [of perm tt tn "''FROM''" "''REVOKE''"] RevokeStatement by (simp add: statement_kw ParseRevoke_def bindP_def finished_eof)
qed (simp_all add: statement_kw word_statement_defs parser_defs ParseIdentifier_kw ParseLexeme_tok At_def Peek_def kw_facts finished_eof
      parse_CreateTable parse_Insert parse_Update parse_Delete)


subsection \<open>Every token of a printed statement can be lexed\<close>

lemma token_ok_comma: "list_all (\<lambda>x. list_all token_ok (f x)) xs \<Longrightarrow> list_all token_ok (comma_tokens f xs)"
  by (induction f xs rule: comma_tokens.induct) (auto simp: token_ok_def)

lemma token_ok_parens: "list_all token_ok ts \<Longrightarrow> list_all token_ok (in_parens ts)"
  "list_all token_ok ts \<Longrightarrow> list_all token_ok (parens b ts)"
  by (simp_all add: in_parens_def parens_def token_ok_def)

lemma token_ok_kw: "is_word w \<Longrightarrow> token_ok (kw w)"
  by (simp add: token_ok_def)

lemma token_ok_keyword: "list_all (\<lambda>w. token_ok (kw w)) kw_list"
  using kw_list_upper by (auto simp: list_all_iff token_ok_kw)

lemma token_ok_keywords:
  "w \<in> set kw_list \<Longrightarrow> token_ok (kw w)"
  using token_ok_keyword by (auto simp: list_all_iff)

lemma token_ok_literal: "literal_ok v \<Longrightarrow> token_ok (literal_token v)"
  using token_ok_keywords [of "''NULL''"] decimal_digits by (cases v) (auto simp: token_ok_def kw_list_def)

lemma token_ok_operand: "operand_ok e \<Longrightarrow> token_ok (operand_token e)"
  by (cases e) (auto simp: token_ok_literal token_ok_kw)

lemma token_ok_op: "token_ok (op_token op)"
  by (cases op) (simp_all add: token_ok_def)

lemma token_ok_expr: "expr_ok e \<Longrightarrow> list_all token_ok (expr_tokens n e)"
  by (induction n e rule: expr_tokens.induct) (auto simp: token_ok_parens token_ok_operand token_ok_op token_ok_keywords kw_list_def)

lemma token_ok_name: "table_ok db t \<Longrightarrow> list_all token_ok (qualified_name db t)"
  by (auto simp: table_ok_def qualified_name_def token_ok_def)

lemma token_ok_column: "column_ok c \<Longrightarrow> list_all token_ok (column_tokens c)"
  by (auto simp: column_ok_def column_tokens_def token_ok_kw token_ok_keywords kw_list_def)

lemma token_ok_item: "item_ok i \<Longrightarrow> list_all token_ok (item_tokens i)"
  by (auto simp: item_ok_def item_tokens_def token_ok_kw token_ok_keywords kw_list_def)

lemma token_ok_assignment: "is_word (fst a) \<Longrightarrow> literal_ok (snd a) \<Longrightarrow> list_all token_ok (assignment_tokens a)"
  by (auto simp: assignment_tokens_def token_ok_kw token_ok_literal) (simp add: token_ok_def)

lemma token_ok_list: "(\<And>x. x \<in> set xs \<Longrightarrow> list_all token_ok (f x)) \<Longrightarrow> list_all token_ok (in_parens (comma_tokens f xs))"
  by (rule token_ok_parens, rule token_ok_comma) (simp add: list_all_iff [of "\<lambda>x. list_all token_ok (f x)"])

lemma token_ok_row: "list_all literal_ok row \<Longrightarrow> list_all token_ok (in_parens (comma_tokens (\<lambda>v. [literal_token v]) row))"
  by (rule token_ok_parens, rule token_ok_comma) (auto simp: list_all_iff token_ok_literal)

lemma stmt_tokens_ok: "stmt_ok stmt \<Longrightarrow> list_all token_ok (stmt_tokens stmt)"
proof (cases stmt)
  case (CreateTableStatement db t columns)
  assume "stmt_ok stmt"
  then have "table_ok db t" "list_all token_ok (in_parens (comma_tokens column_tokens columns))"
    using CreateTableStatement token_ok_list [of columns column_tokens] token_ok_column by (auto simp: list_all_iff [of column_ok])
  then show ?thesis using CreateTableStatement by (simp add: token_ok_name token_ok_keywords kw_list_def)
next
  case (InsertStatement db t columns rows)
  assume "stmt_ok stmt"
  then have "table_ok db t" "list_all is_word columns" "list_all (\<lambda>row. list_all literal_ok row) rows" using InsertStatement by (auto simp: list_all_iff)
  moreover from this have "list_all token_ok (in_parens (comma_tokens (\<lambda>c. [kw c]) columns))"
    using token_ok_list [of columns "\<lambda>c. [kw c]"] token_ok_kw by (simp add: list_all_iff [of is_word])
  moreover have "list_all token_ok (comma_tokens (\<lambda>row. in_parens (comma_tokens (\<lambda>v. [literal_token v]) row)) rows)"
    using calculation(3) by (intro token_ok_comma) (simp add: list.pred_mono_strong token_ok_row)
  ultimately show ?thesis using InsertStatement by (simp add: token_ok_name token_ok_keywords kw_list_def)
next
  case (SelectStatement db t all items w)
  assume ok: "stmt_ok stmt"
  then have "list_all token_ok (in_parens (comma_tokens item_tokens items))" using SelectStatement token_ok_list [of items item_tokens] token_ok_item by (simp add: list_all_iff [of item_ok])
  moreover have "token_ok (token tStar ''*'')" by (simp add: token_ok_def)
  ultimately show ?thesis using SelectStatement ok by (auto simp: token_ok_name token_ok_expr token_ok_keywords kw_list_def split: option.splits)
next
  case (UpdateStatement db t assignments e)
  assume ok: "stmt_ok stmt"
  then have "list_all token_ok (comma_tokens assignment_tokens assignments)" using UpdateStatement
    by (intro token_ok_comma) (auto elim!: list.pred_mono_strong intro!: token_ok_assignment)
  then show ?thesis using UpdateStatement ok by (auto simp: token_ok_name token_ok_expr token_ok_keywords kw_list_def)
qed (auto simp: token_ok_name token_ok_expr token_ok_kw token_ok_keywords kw_list_def permission_ok_def, auto simp: token_ok_def)



end
