(* ===== verification/Spec2Isabelle.thy ===== *)
theory Spec2Isabelle
  imports Lock_Manager Table_Storage Catalog_Manager Version_Log BStar_Index Cluster Parser
begin

text \<open>
  A verification development for CourseDB (\<^verbatim>\<open>src/\<close>).
\<close>

end
